(* ===== verification/Prelude.thy ===== *)
theory Prelude
  imports Main "HOL-Library.Word" "HOL-Library.List_Lexorder" "HOL-Library.Product_Lexorder"
begin

text \<open>
  The prelude of the MorpheusX development: names for the machine types of the
  Rust sources, the outcome type of fallible code, the state threading behind Rust's
  question mark operator, byte slices, and the little-endian codec of integers.

  \<^item> \<open>u8\<close>, \<open>u16\<close>, \<open>u32\<close>, \<open>u64\<close> are words, so that plain \<open>+\<close> and \<open>*\<close> wrap
    around, as they do in the release profile of the workspace (overflow checks are
    off there). Sizes, lengths and indices (\<open>usize\<close>) are \<open>nat\<close>.
  \<^item> \<open>('e, 'a) result\<close> is Rust's \<open>Result\<close> with two more outcomes: \<open>Panic\<close>
    (a slice index out of range, a failed \<open>unwrap\<close>, a division by zero; the
    workspace builds with \<open>panic = abort\<close>) and \<open>Diverges\<close> (a loop that never ends).
  \<^item> an operation on mutable state maps the old state to an outcome and the new
    state; \<open>and_then\<close> is the question mark: it continues on \<open>Ok\<close> and returns
    early, with the state reached so far, on anything else.
\<close>

unbundle bit_operations_syntax

named_theorems rust_simps \<open>unfolding rules of the Rust control constructs\<close>
named_theorems codec_simps \<open>lengths and round trips of the byte codecs\<close>

subsection \<open>Machine types\<close>

type_synonym u8 = "8 word"
type_synonym u16 = "16 word"
type_synonym u32 = "32 word"
type_synonym u64 = "64 word"
type_synonym bytes = "u8 list"

abbreviation U64 :: nat where "U64 \<equiv> 18446744073709551616"
abbreviation U32 :: nat where "U32 \<equiv> 4294967296"

text \<open>Rust's \<open>div_ceil\<close> on unsigned integers (the mathematical value; it cannot overflow).\<close>

definition div_ceil :: "nat \<Rightarrow> nat \<Rightarrow> nat" where
  "div_ceil a b = a div b + (if a mod b = 0 then 0 else 1)"

lemma div_ceil_bounds:
  assumes "0 < b"
  shows "a \<le> div_ceil a b * b" and "0 < a \<Longrightarrow> (div_ceil a b - 1) * b < a"
    and "div_ceil a b * b < a + b"
proof -
  define q r where "q = a div b" and "r = a mod b"
  then have a: "a = q * b + r" and r: "r < b" using assms by simp_all
  have dc: "div_ceil a b = q + (if r = 0 then 0 else 1)" by (simp add: div_ceil_def q_def r_def)
  show "a \<le> div_ceil a b * b" and "div_ceil a b * b < a + b"
    unfolding dc using a r by (auto simp: algebra_simps)
  show "(div_ceil a b - 1) * b < a" if "0 < a"
    unfolding dc using a r that assms by (cases q) (auto simp: algebra_simps)
qed

lemma div_ceil_0 [simp]: "div_ceil 0 b = 0"
  by (simp add: div_ceil_def)

lemma div_ceil_mono: "0 < b \<Longrightarrow> a \<le> c \<Longrightarrow> div_ceil a b \<le> div_ceil c b"
proof (rule ccontr)
  assume b: "0 < b" and ac: "a \<le> c" and "\<not> div_ceil a b \<le> div_ceil c b"
  then have lt: "div_ceil c b \<le> div_ceil a b - 1" by simp
  then have "div_ceil c b * b \<le> (div_ceil a b - 1) * b" by simp
  moreover have "0 < a" using \<open>\<not> div_ceil a b \<le> div_ceil c b\<close> by (cases a) auto
  ultimately show False using div_ceil_bounds(1)[OF b, of c] div_ceil_bounds(2)[OF b, of a] ac
    by linarith
qed

lemma div_ceil_exact [simp]: "0 < b \<Longrightarrow> div_ceil (n * b) b = n"
  by (simp add: div_ceil_def)

lemma div_ceil_less: "0 < b \<Longrightarrow> i < div_ceil a b \<Longrightarrow> i * b < a"
proof -
  assume b: "0 < b" and i: "i < div_ceil a b"
  then have "i \<le> div_ceil a b - 1" by simp
  then have le: "i * b \<le> (div_ceil a b - 1) * b" by simp
  from i have "0 < a" by (cases a) auto
  with le div_ceil_bounds(2)[OF b, of a] show "i * b < a" by linarith
qed

subsection \<open>Outcomes and the question mark\<close>

datatype ('e, 'a) result = Ok 'a | Err 'e | Panic | Diverges

definition and_then ::
    "('e, 'a) result \<times> 's \<Rightarrow> ('a \<Rightarrow> 's \<Rightarrow> ('e, 'b) result \<times> 's) \<Rightarrow> ('e, 'b) result \<times> 's" where
  "and_then rs k = (case rs of (r, s) \<Rightarrow>
     (case r of Ok a \<Rightarrow> k a s | Err e \<Rightarrow> (Err e, s) | Panic \<Rightarrow> (Panic, s) | Diverges \<Rightarrow> (Diverges, s)))"

lemma and_then_simps [simp, rust_simps]:
  "and_then (Ok a, s) k = k a s"
  "and_then (Err e, s) k = (Err e, s)"
  "and_then (Panic, s) k = (Panic, s)"
  "and_then (Diverges, s) k = (Diverges, s)"
  by (simp_all add: and_then_def)

lemma and_then_OkE:
  assumes "and_then rs k = (Ok b, t)"
  obtains a s where "rs = (Ok a, s)" "k a s = (Ok b, t)"
  using assms by (auto simp: and_then_def split: prod.splits result.splits)

text \<open>The pure form, for code that returns a \<open>Result\<close> without touching state.\<close>

definition res_bind :: "('e, 'a) result \<Rightarrow> ('a \<Rightarrow> ('e, 'b) result) \<Rightarrow> ('e, 'b) result" where
  "res_bind r k = (case r of Ok a \<Rightarrow> k a | Err e \<Rightarrow> Err e | Panic \<Rightarrow> Panic | Diverges \<Rightarrow> Diverges)"

lemma res_bind_simps [simp, rust_simps]:
  "res_bind (Ok a) k = k a" "res_bind (Err e) k = Err e"
  "res_bind Panic k = Panic" "res_bind Diverges k = Diverges"
  by (simp_all add: res_bind_def)

text \<open>\<open>Option::ok_or\<close>.\<close>

definition ok_or :: "'a option \<Rightarrow> 'e \<Rightarrow> ('e, 'a) result" where
  "ok_or x e = (case x of None \<Rightarrow> Err e | Some a \<Rightarrow> Ok a)"

lemma ok_or_simps [simp, rust_simps]: "ok_or (Some a) e = Ok a" "ok_or None e = Err e"
  by (simp_all add: ok_or_def)

subsection \<open>Slices\<close>

text \<open>
  \<open>slice_of xs a n\<close> is \<open>&xs[a..a+n]\<close> and \<open>splice xs a ys\<close> is \<open>xs\<close> after
  \<open>xs[a..a+ys.len()].copy_from_slice(ys)\<close>. Both are used where the range is in
  bounds; the definitions of the model test the bounds first and return \<open>Panic\<close>
  where the range does not fit.
\<close>

definition slice_of :: "'a list \<Rightarrow> nat \<Rightarrow> nat \<Rightarrow> 'a list" where
  "slice_of xs a n = take n (drop a xs)"

definition splice :: "'a list \<Rightarrow> nat \<Rightarrow> 'a list \<Rightarrow> 'a list" where
  "splice xs a ys = take a xs @ ys @ drop (a + length ys) xs"

lemma length_slice [simp, codec_simps]: "a + n \<le> length xs \<Longrightarrow> length (slice_of xs a n) = n"
  by (simp add: slice_of_def)

lemma length_splice [simp, codec_simps]:
  "a + length ys \<le> length xs \<Longrightarrow> length (splice xs a ys) = length xs"
  by (simp add: splice_def)

lemma nth_slice: "i < n \<Longrightarrow> a + n \<le> length xs \<Longrightarrow> slice_of xs a n ! i = xs ! (a + i)"
  by (simp add: slice_of_def)

lemma nth_splice:
  assumes "a + length ys \<le> length xs" "i < length xs"
  shows "splice xs a ys ! i = (if a \<le> i \<and> i < a + length ys then ys ! (i - a) else xs ! i)"
  using assms by (auto simp: splice_def nth_append)

lemma slice_splice_same: "a + length ys \<le> length xs \<Longrightarrow> slice_of (splice xs a ys) a (length ys) = ys"
  by (simp add: slice_of_def splice_def)

lemma slice_splice_before:
  assumes "b + n \<le> a" "a + length ys \<le> length xs"
  shows "slice_of (splice xs a ys) b n = slice_of xs b n"
  using assms by (intro nth_equalityI) (auto simp: nth_slice nth_splice)

lemma slice_splice_after:
  assumes "a + length ys \<le> b" "b + n \<le> length xs"
  shows "slice_of (splice xs a ys) b n = slice_of xs b n"
  using assms by (intro nth_equalityI) (auto simp: nth_slice nth_splice)

lemma slice_append_split: "slice_of xs a (m + n) = slice_of xs a m @ slice_of xs (a + m) n"
  by (simp add: slice_of_def take_add add.commute)

lemma slice_0 [simp]: "slice_of xs a 0 = []"
  by (simp add: slice_of_def)

lemma slice_slice: "b + m \<le> n \<Longrightarrow> slice_of (slice_of xs a n) b m = slice_of xs (a + b) m"
  by (simp add: slice_of_def drop_take take_take add.commute min_def)

lemma slice_full: "n = length xs \<Longrightarrow> slice_of xs 0 n = xs"
  by (simp add: slice_of_def)

lemma slice_append1: "a + n \<le> length xs \<Longrightarrow> slice_of (xs @ ys) a n = slice_of xs a n"
  by (simp add: slice_of_def)

lemma slice_append2: "length xs \<le> a \<Longrightarrow> slice_of (xs @ ys) a n = slice_of ys (a - length xs) n"
  by (simp add: slice_of_def)

lemma slice_replicate: "a + n \<le> m \<Longrightarrow> slice_of (replicate m x) a n = replicate n x"
  by (simp add: slice_of_def min_def)

lemma slice_of_replicate_append:
  "slice_of (xs @ replicate m x) (length xs) n = replicate (min n m) x"
  by (simp add: slice_of_def min.commute)

subsection \<open>Little-endian integers\<close>

text \<open>
  \<open>le_bytes n w\<close> is \<open>w.to_le_bytes()\<close> for a word of \<open>n\<close> bytes and \<open>from_le\<close> is
  \<open>from_le_bytes\<close>; the target is little-endian, so these are also the memory images
  of the integer fields of a \<open>repr(C)\<close> struct.
\<close>

definition le_bytes :: "nat \<Rightarrow> 'a::len word \<Rightarrow> bytes" where
  "le_bytes n w = map (\<lambda>i. ucast (drop_bit (8 * i) w)) [0..<n]"

fun from_le :: "bytes \<Rightarrow> 'a::len word" where
  "from_le [] = 0"
| "from_le (b # bs) = ucast b OR push_bit 8 (from_le bs)"

lemma length_le_bytes [simp, codec_simps]: "length (le_bytes n w) = n"
  by (simp add: le_bytes_def)

lemma bit_from_le:
  "bit (from_le bs :: 'a::len word) k \<longleftrightarrow> k < LENGTH('a) \<and> k div 8 < length bs \<and> bit (bs ! (k div 8)) (k mod 8)"
proof (induction bs arbitrary: k)
  case Nil
  then show ?case by simp
next
  case (Cons b bs)
  show ?case
  proof (cases "k < 8")
    case True
    then show ?thesis
      by (auto simp: bit_or_iff bit_push_bit_iff bit_unsigned_iff not_le dest: bit_imp_le_length)
  next
    case False
    then obtain j where j: "k = j + 8" by (metis add.commute le_add_diff_inverse not_less)
    have "\<not> bit b k" using False bit_imp_le_length[of b k] by auto
    moreover have "(j + 8) div 8 = Suc (j div 8)" by simp
    ultimately show ?thesis
      using Cons.IH[of j] unfolding j
      by (auto simp: bit_or_iff bit_push_bit_iff bit_unsigned_iff)
  qed
qed

lemma from_le_le_bytes [simp, codec_simps]:
  assumes "LENGTH('a::len) \<le> 8 * n"
  shows "from_le (le_bytes n (w :: 'a word)) = w"
proof (rule bit_word_eqI)
  fix k assume k: "k < LENGTH('a)"
  then have d: "k div 8 < n" using assms by linarith
  have "bit (le_bytes n w ! (k div 8)) (k mod 8) \<longleftrightarrow> bit w k"
    using d k by (simp add: le_bytes_def bit_unsigned_iff bit_drop_bit_eq)
  with k d show "bit (from_le (le_bytes n w) :: 'a word) k \<longleftrightarrow> bit w k"
    by (simp add: bit_from_le)
qed

lemma le_bytes_from_le [simp, codec_simps]:
  assumes "length bs = n" "8 * n \<le> LENGTH('a::len)"
  shows "le_bytes n (from_le bs :: 'a word) = bs"
proof (intro nth_equalityI)
  show "length (le_bytes n (from_le bs :: 'a word)) = length bs" using assms by simp
next
  fix i assume "i < length (le_bytes n (from_le bs :: 'a word))"
  then have i: "i < n" by simp
  show "le_bytes n (from_le bs :: 'a word) ! i = bs ! i"
  proof (rule bit_word_eqI)
    fix k :: nat assume k: "k < LENGTH(8)"
    have "(8 * i + k) div 8 = i" "(8 * i + k) mod 8 = k" using k by auto
    moreover have "8 * i + k < LENGTH('a)" using i k assms(2) by auto
    ultimately show "bit (le_bytes n (from_le bs :: 'a word) ! i) k \<longleftrightarrow> bit (bs ! i) k"
      using i k assms(1) by (simp add: le_bytes_def bit_unsigned_iff bit_drop_bit_eq bit_from_le)
  qed
qed

text \<open>ASCII literals: the bytes of a Rust string or byte-string literal.\<close>

definition ascii :: "string \<Rightarrow> bytes" where
  "ascii s = map of_char s"

lemma length_ascii [simp]: "length (ascii s) = length s"
  by (simp add: ascii_def)

end
