(* ===== verification/Helix_Crc.thy ===== *)
theory Helix_Crc
  imports Prelude
begin

text \<open>
  \<^verbatim>\<open>helix/src/crc.rs\<close>: the CRC32C and CRC64 tables and the table-driven sums, and the
  FNV-1a path hash. The lemmas show that the table step is eight steps of the bitwise
  shift register, that \<open>crc32c_two\<close> is the sum of the concatenation, and that both CRCs
  are injective in the register and in each byte, so that a change confined to one byte
  is always detected.
\<close>

subsection \<open>The tables\<close>

definition crc32c_poly :: u32 where "crc32c_poly = 0x82F63B78"
definition crc64_poly :: u64 where "crc64_poly = 0xC96C5795D7870F42"

text \<open>One step of the inner table loop: shift, and add the polynomial if a bit falls out.\<close>

definition crc_shift :: "'a::len word \<Rightarrow> 'a word \<Rightarrow> 'a word" where
  "crc_shift poly crc = (if crc AND 1 \<noteq> 0 then drop_bit 1 crc XOR poly else drop_bit 1 crc)"

fun crc_loop :: "'a::len word \<Rightarrow> nat \<Rightarrow> 'a word \<Rightarrow> 'a word" where
  "crc_loop poly 0 crc = crc"
| "crc_loop poly (Suc j) crc = crc_loop poly j (crc_shift poly crc)"

definition CRC32C_TABLE :: "u32 list" where
  "CRC32C_TABLE = map (\<lambda>i. crc_loop crc32c_poly 8 (of_nat i)) [0..<256]"

definition CRC64_TABLE :: "u64 list" where
  "CRC64_TABLE = map (\<lambda>i. crc_loop crc64_poly 8 (of_nat i)) [0..<256]"

subsection \<open>The sums\<close>

definition crc32c_step :: "u32 \<Rightarrow> u8 \<Rightarrow> u32" where
  "crc32c_step crc b =
     (let idx = unat ((crc XOR ucast b) AND 0xFF) in drop_bit 8 crc XOR CRC32C_TABLE ! idx)"

definition crc32c :: "bytes \<Rightarrow> u32" where
  "crc32c data = foldl crc32c_step 0xFFFFFFFF data XOR 0xFFFFFFFF"

definition crc32c_two :: "bytes \<Rightarrow> bytes \<Rightarrow> u32" where
  "crc32c_two a b = foldl crc32c_step (foldl crc32c_step 0xFFFFFFFF a) b XOR 0xFFFFFFFF"

definition crc64_step :: "u64 \<Rightarrow> u8 \<Rightarrow> u64" where
  "crc64_step crc b =
     (let idx = unat ((crc XOR ucast b) AND 0xFF) in drop_bit 8 crc XOR CRC64_TABLE ! idx)"

definition crc64 :: "bytes \<Rightarrow> u64" where
  "crc64 data = foldl crc64_step 0xFFFFFFFFFFFFFFFF data XOR 0xFFFFFFFFFFFFFFFF"

definition fnv1a_step :: "u64 \<Rightarrow> u8 \<Rightarrow> u64" where
  "fnv1a_step hash b = (hash XOR ucast b) * 0x100000001B3"

definition fnv1a_64 :: "bytes \<Rightarrow> u64" where
  "fnv1a_64 data = foldl fnv1a_step 0xCBF29CE484222325 data"

subsection \<open>The shift register\<close>

lemma crc_shift_xor: "crc_shift poly (a XOR b) = crc_shift poly a XOR crc_shift poly b"
proof -
  have e: "(x AND 1 \<noteq> 0) = bit x 0" for x :: "'a word"
    by (simp add: and_one_eq bit_0 odd_iff_mod_2_eq_one)
  show ?thesis
    unfolding crc_shift_def e
    by (auto simp: bit_xor_iff drop_bit_xor xor.assoc xor.commute xor.left_commute)
qed

lemma crc_loop_xor: "crc_loop poly n (a XOR b) = crc_loop poly n a XOR crc_loop poly n b"
  by (induction n arbitrary: a b) (simp_all add: crc_shift_xor)

text \<open>Only zero is shifted to zero: the polynomial has its top bit set.\<close>

lemma crc_shift_eq_0:
  assumes "bit poly (LENGTH('a) - 1)" "crc_shift (poly :: 'a::len word) x = 0"
  shows "x = 0"
proof -
  have nb: "\<not> bit (drop_bit 1 x) (LENGTH('a) - 1)"
    by (simp add: bit_drop_bit_eq)
  have e: "x AND 1 = 0"
  proof (rule ccontr)
    assume "x AND 1 \<noteq> 0"
    then have "drop_bit 1 x XOR poly = 0" using assms(2) by (simp add: crc_shift_def)
    then have "bit (drop_bit 1 x XOR poly) (LENGTH('a) - 1) = False" by simp
    with nb assms(1) show False by (simp add: bit_xor_iff)
  qed
  then have d: "drop_bit 1 x = 0" using assms(2) by (simp add: crc_shift_def)
  show "x = 0"
  proof (rule bit_word_eqI)
    fix n assume "n < LENGTH('a)"
    show "bit x n = bit (0::'a word) n"
    proof (cases n)
      case 0
      have "bit (x AND 1) 0 = bit (0 :: 'a word) 0" using e by simp
      then show ?thesis using 0 by (simp add: bit_and_iff)
    next
      case (Suc m)
      have "bit (drop_bit 1 x) m = bit (0 :: 'a word) m" using d by simp
      then show ?thesis using Suc by (simp add: bit_drop_bit_eq)
    qed
  qed
qed

lemma crc_loop_eq_0:
  assumes "bit poly (LENGTH('a) - 1)"
  shows "crc_loop (poly :: 'a::len word) n x = 0 \<Longrightarrow> x = 0"
  by (induction n arbitrary: x) (auto dest: crc_shift_eq_0[OF assms])

lemma xor_eq_0_iff: "(a :: 'a::len word) XOR b = 0 \<longleftrightarrow> a = b"
  by (metis xor.right_neutral xor_self_eq xor.assoc)

lemma crc_loop_inj:
  assumes "bit poly (LENGTH('a) - 1)"
  shows "crc_loop (poly :: 'a::len word) n x = crc_loop poly n y \<longleftrightarrow> x = y"
  using crc_loop_eq_0[OF assms, of n "x XOR y"] by (auto simp: crc_loop_xor xor_eq_0_iff)

text \<open>Shifting \<open>n\<close> clear low bits out never adds the polynomial.\<close>

lemma crc_loop_high: "take_bit n x = 0 \<Longrightarrow> crc_loop poly n x = drop_bit n x"
proof (induction n arbitrary: x)
  case 0
  then show ?case by simp
next
  case (Suc n)
  have b: "\<not> bit x i" if "i < Suc n" for i
  proof -
    have "bit (take_bit (Suc n) x) i = False" using Suc.prems by simp
    then show ?thesis using that by (simp add: bit_take_bit_iff)
  qed
  have "x AND 1 = 0" using b[of 0] by (simp add: and_one_eq bit_0 even_iff_mod_2_eq_zero)
  then have s: "crc_shift poly x = drop_bit 1 x" by (simp add: crc_shift_def)
  have "take_bit n (drop_bit 1 x) = 0"
    using b by (intro bit_word_eqI) (auto simp: bit_take_bit_iff bit_drop_bit_eq)
  from Suc.IH[OF this] show ?case by (simp add: s)
qed

lemma crc_loop_add: "crc_loop poly (m + n) x = crc_loop poly n (crc_loop poly m x)"
  by (induction m arbitrary: x) simp_all

text \<open>The table step is eight steps of the shift register on the register with the byte added.\<close>

lemma crc_table_step:
  assumes "8 \<le> LENGTH('a)"
  shows "drop_bit 8 c XOR crc_loop poly 8 ((c XOR ucast (b :: u8)) AND 0xFF)
       = crc_loop (poly :: 'a::len word) 8 (c XOR ucast b)"
proof -
  let ?x = "c XOR ucast b"
  have m: "(0xFF :: 'a word) = mask 8" by (simp add: mask_eq_exp_minus_1)
  have "?x = (?x AND 0xFF) XOR (?x AND NOT 0xFF)"
    by (rule bit_word_eqI) (auto simp: bit_simps)
  then have "crc_loop poly 8 ?x = crc_loop poly 8 (?x AND 0xFF) XOR crc_loop poly 8 (?x AND NOT 0xFF)"
    by (metis crc_loop_xor)
  moreover have "crc_loop poly 8 (?x AND NOT 0xFF) = drop_bit 8 c"
  proof -
    have "take_bit 8 (?x AND NOT 0xFF) = 0"
      unfolding m by (rule bit_word_eqI) (auto simp: bit_simps)
    then have "crc_loop poly 8 (?x AND NOT 0xFF) = drop_bit 8 (?x AND NOT 0xFF)"
      by (rule crc_loop_high)
    also have "\<dots> = drop_bit 8 c"
      unfolding m by (rule bit_word_eqI) (auto simp: bit_simps dest: bit_imp_le_length)
    finally show ?thesis .
  qed
  ultimately show ?thesis by (simp add: ac_simps)
qed

lemma table_index_less: "8 \<le> LENGTH('a) \<Longrightarrow> unat ((x :: 'a::len word) AND 0xFF) < 256"
proof -
  assume l: "8 \<le> LENGTH('a)"
  have "x AND 0xFF = take_bit 8 x"
    by (simp add: take_bit_eq_mask mask_eq_exp_minus_1)
  then have "unat (x AND 0xFF) = take_bit 8 (unat x)" by (simp add: unsigned_take_bit_eq)
  then show ?thesis by (simp add: take_bit_eq_mod)
qed

lemma crc32c_step_loop: "crc32c_step c b = crc_loop crc32c_poly 8 (c XOR ucast b)"
  using crc_table_step[of c crc32c_poly b] table_index_less[of "c XOR ucast b"]
  by (simp add: crc32c_step_def CRC32C_TABLE_def Let_def del: crc_loop.simps)

lemma crc64_step_loop: "crc64_step c b = crc_loop crc64_poly 8 (c XOR ucast b)"
  using crc_table_step[of c crc64_poly b] table_index_less[of "c XOR ucast b"]
  by (simp add: crc64_step_def CRC64_TABLE_def Let_def del: crc_loop.simps)

subsection \<open>Bursts\<close>

text \<open>
  A CRC register, abstractly: a width, a step and the fact that a step is eight shifts of a
  register whose polynomial has its top bit set. Both CRCs of the file are instances.
\<close>

locale crc_register =
  fixes poly :: "'a::len word" and step :: "'a word \<Rightarrow> u8 \<Rightarrow> 'a word"
  assumes top_bit: "bit poly (LENGTH('a) - 1)"
    and step_loop: "step c b = crc_loop poly 8 (c XOR ucast b)"
begin

lemma fold_burst:
  "8 * length bs \<le> LENGTH('a) \<Longrightarrow> foldl step c bs = crc_loop poly (8 * length bs) (c XOR from_le bs)"
proof (induction bs arbitrary: c)
  case Nil
  then show ?case by simp
next
  case (Cons b bs)
  have h: "crc_loop poly 8 (push_bit 8 (from_le bs)) = from_le bs"
  proof -
    have "take_bit 8 (push_bit 8 (from_le bs :: 'a word)) = 0"
      by (rule bit_word_eqI) (auto simp: bit_simps)
    then have "crc_loop poly 8 (push_bit 8 (from_le bs)) = drop_bit 8 (push_bit 8 (from_le bs))"
      by (rule crc_loop_high)
    also have "\<dots> = from_le bs"
    proof (rule bit_word_eqI)
      fix n assume "n < LENGTH('a)"
      have "\<not> bit (from_le bs :: 'a word) n" if "\<not> 8 + n < LENGTH('a)"
        using that Cons.prems by (auto simp: bit_from_le)
      then show "bit (drop_bit 8 (push_bit 8 (from_le bs :: 'a word))) n = bit (from_le bs :: 'a word) n"
        by (auto simp: bit_drop_bit_eq bit_push_bit_iff)
    qed
    finally show ?thesis .
  qed
  have o: "ucast b OR push_bit 8 (from_le bs) = (ucast b XOR push_bit 8 (from_le bs) :: 'a word)"
    by (rule bit_word_eqI) (auto simp: bit_simps dest: bit_imp_le_length)
  have "foldl step c (b # bs) = crc_loop poly (8 * length bs) (step c b XOR from_le bs)"
    using Cons by simp
  also have "step c b XOR from_le bs = crc_loop poly 8 (c XOR from_le (b # bs))"
    by (simp only: step_loop from_le.simps o crc_loop_xor h xor.assoc)
  finally show ?case by (simp only: crc_loop_add [symmetric] length_Cons mult_Suc_right)
qed

lemma fold_inj: "foldl step c bs = foldl step d bs \<longleftrightarrow> c = d"
proof (induction bs arbitrary: c d)
  case (Cons b bs)
  have "step c b = step d b \<longleftrightarrow> c XOR ucast b = d XOR ucast b"
    by (simp only: step_loop crc_loop_inj[OF top_bit])
  also have "\<dots> \<longleftrightarrow> c = d" by (metis xor.assoc xor.right_neutral xor_self_eq)
  finally show ?case using Cons.IH by simp
qed simp

lemma burst_detected:
  assumes "foldl step c (xs @ bs @ ys) = foldl step c (xs @ bs' @ ys)"
    and "length bs = length bs'" and "8 * length bs \<le> LENGTH('a)"
  shows "bs = bs'"
proof -
  let ?c = "foldl step c xs"
  have "foldl step ?c bs = foldl step ?c bs'"
    using assms(1) by (simp add: fold_inj)
  then have "?c XOR from_le bs = ?c XOR (from_le bs' :: 'a word)"
    using assms(2,3) by (simp add: fold_burst crc_loop_inj[OF top_bit])
  then have "from_le bs = (from_le bs' :: 'a word)"
    by (metis xor.assoc xor.left_neutral xor_self_eq)
  then have "le_bytes (length bs) (from_le bs :: 'a word) = le_bytes (length bs') (from_le bs' :: 'a word)"
    using assms(2) by simp
  then show ?thesis using assms(2,3) by (simp add: le_bytes_from_le)
qed

end

interpretation crc32: crc_register crc32c_poly crc32c_step
  by unfold_locales (simp_all add: crc32c_step_loop crc32c_poly_def)

interpretation crc64: crc_register crc64_poly crc64_step
  by unfold_locales (simp_all add: crc64_step_loop crc64_poly_def)

lemma crc32c_two_append: "crc32c_two a b = crc32c (a @ b)"
  by (simp add: crc32c_two_def crc32c_def)

lemma xor_cancel_right: "(a :: 'a::len word) XOR c = b XOR c \<longleftrightarrow> a = b"
  by (metis xor.assoc xor.right_neutral xor_self_eq)

lemma crc_loop_8:
  "crc_loop p 8 x = crc_shift p (crc_shift p (crc_shift p (crc_shift p
     (crc_shift p (crc_shift p (crc_shift p (crc_shift p x)))))))"
  by (simp add: eval_nat_numeral)

lemmas crc32c_eval = crc32c_def crc32c_step_loop crc_loop_8 crc_shift_def crc32c_poly_def
lemmas crc64_eval = crc64_def crc64_step_loop crc_loop_8 crc_shift_def crc64_poly_def
lemmas fnv1a_eval = fnv1a_64_def fnv1a_step_def

subsection \<open>Properties\<close>

text \<open>
  C30: The table-driven sums are the bitwise CRC: each byte is added into the low end of the
  register, which is then shifted eight times with the reflected polynomial; and the
  two-part sum is the sum of the concatenation.
\<close>

theorem crc_table_driven_is_bitwise:
  "crc32c data = foldl (\<lambda>c b. crc_loop crc32c_poly 8 (c XOR ucast b)) 0xFFFFFFFF data XOR 0xFFFFFFFF \<and>
   crc64 data = foldl (\<lambda>c b. crc_loop crc64_poly 8 (c XOR ucast b)) 0xFFFFFFFFFFFFFFFF data XOR 0xFFFFFFFFFFFFFFFF \<and>
   crc32c_two a b = crc32c (a @ b)"
proof (intro conjI)
  have "crc32c_step = (\<lambda>c b. crc_loop crc32c_poly 8 (c XOR ucast b))"
    by (intro ext) (rule crc32c_step_loop)
  then show "crc32c data = foldl (\<lambda>c b. crc_loop crc32c_poly 8 (c XOR ucast b)) 0xFFFFFFFF data XOR 0xFFFFFFFF"
    unfolding crc32c_def by (simp only:)
  have "crc64_step = (\<lambda>c b. crc_loop crc64_poly 8 (c XOR ucast b))"
    by (intro ext) (rule crc64_step_loop)
  then show "crc64 data = foldl (\<lambda>c b. crc_loop crc64_poly 8 (c XOR ucast b)) 0xFFFFFFFFFFFFFFFF data XOR 0xFFFFFFFFFFFFFFFF"
    unfolding crc64_def by (simp only:)
qed (rule crc32c_two_append)

text \<open>
  C29: CRC32C detects every error burst of at most four bytes: two messages that agree outside
  a window of four bytes and differ inside it have different sums.
\<close>

theorem crc32c_detects_bursts:
  assumes "length bs = length bs'" "length bs \<le> 4" "bs \<noteq> bs'"
  shows "crc32c (xs @ bs @ ys) \<noteq> crc32c (xs @ bs' @ ys)"
  using crc32.burst_detected[of "0xFFFFFFFF" xs bs ys bs'] assms
  by (auto simp: crc32c_def xor_cancel_right)

theorem crc32c_detects_bursts_witness:
  "crc32c ([1, 2] @ [3, 4, 5] @ [6]) \<noteq> crc32c ([1, 2] @ [3, 7, 5] @ [6])"
  by (rule crc32c_detects_bursts) simp_all

end
