(* ===== verification/Helix_Error.thy ===== *)
theory Helix_Error
  imports Prelude
begin

text \<open>\<^verbatim>\<open>helix/src/error.rs\<close>: the error type of HelixFS, and the outcome type of its operations.\<close>

datatype helix_error =
    IoReadFailed | IoWriteFailed | IoFlushFailed
  | NoValidSuperblock | IncompatibleVersion
  | LogFull | LogCrcMismatch | LogSegmentCorrupt
  | NotFound | AlreadyExists | IndexDepthExceeded | IndexCrcMismatch
  | PathTooLong | PathInvalid | FileTooLarge | NoSpace | NoEntries | IsADirectory | ExtentCorrupt
  | BitmapCorrupt
  | NoActiveTransaction | TxConflict
  | FormatTooSmall | InvalidBlockSize
  | InvalidFd | TooManyOpenFiles | NotSupported | ReadOnly | NotADirectory | DirectoryNotEmpty
  | MountTableFull | MountNotFound | PermissionDenied | InvalidOffset

type_synonym 'a hres = "(helix_error, 'a) result"

end
