(* ===== verification/Helix_Types.thy ===== *)
theory Helix_Types
  imports Helix_Crc Helix_Error
begin

text \<open>
  \<^verbatim>\<open>helix/src/types.rs\<close> and \<^verbatim>\<open>helix/src/log/segment.rs\<close>: the on-disk structures of HelixFS and
  their memory images. Every struct is \<open>repr(C)\<close> and little-endian and is written to disk as
  its bytes, so each record comes with an encoder and a decoder that lay its fields out in
  order. The three gaps that alignment leaves in \<open>IndexEntry\<close> are fields of the record too
  (\<open>e_gap0\<close> to \<open>e_gap2\<close>), as a copied struct carries them along.
\<close>

subsection \<open>Constants\<close>

abbreviation BLOCK_SIZE :: nat where "BLOCK_SIZE \<equiv> 4096"
abbreviation LOG_SEGMENT_BLOCKS :: nat where "LOG_SEGMENT_BLOCKS \<equiv> 256"
abbreviation LOG_SEGMENT_BYTES :: nat where "LOG_SEGMENT_BYTES \<equiv> 1048576"
abbreviation MAX_PATH_LEN :: nat where "MAX_PATH_LEN \<equiv> 255"
abbreviation INLINE_DATA_SIZE :: nat where "INLINE_DATA_SIZE \<equiv> 96"
abbreviation EXTENTS_PER_LEAF :: nat where "EXTENTS_PER_LEAF \<equiv> 170"

definition HELIX_MAGIC :: bytes where "HELIX_MAGIC = ascii ''HELIXFS1''"
definition HELIX_VERSION :: u32 where "HELIX_VERSION = 3"
definition BLOCK_NULL :: u64 where "BLOCK_NULL = 0xFFFFFFFFFFFFFFFF"
definition LOG_SEGMENT_MAGIC :: bytes where "LOG_SEGMENT_MAGIC = ascii ''HLSG''"

subsection \<open>The superblock\<close>

record superblock =
  sb_magic :: bytes
  sb_version :: u32
  sb_block_size :: u32
  sb_total_blocks :: u64
  sb_log_start_block :: u64
  sb_log_end_block :: u64
  sb_log_segment_count :: u64
  sb_bitmap_start :: u64
  sb_bitmap_blocks :: u64
  sb_data_start_block :: u64
  sb_data_block_count :: u64
  sb_index_root_block :: u64
  sb_index_depth :: u32
  sb_pad0 :: u32
  sb_committed_lsn :: u64
  sb_checkpoint_lsn :: u64
  sb_log_head_segment :: u64
  sb_log_tail_segment :: u64
  sb_log_head_offset :: u32
  sb_pad1 :: u32
  sb_uuid :: bytes
  sb_label :: bytes
  sb_snapshot_table_block :: u64
  sb_snapshot_count :: u32
  sb_pad2 :: u32
  sb_blocks_used :: u64
  sb_file_count :: u64
  sb_dir_count :: u64
  sb_created_ns :: u64
  sb_last_mount_ns :: u64
  sb_mount_count :: u64
  sb_crc32c :: u32
  sb_index_entry_count :: u32
  sb_reserved :: bytes

definition sb_zeroed :: superblock where
  "sb_zeroed = \<lparr>sb_magic = replicate 8 0, sb_version = 0, sb_block_size = 0, sb_total_blocks = 0,
     sb_log_start_block = 0, sb_log_end_block = 0, sb_log_segment_count = 0, sb_bitmap_start = 0,
     sb_bitmap_blocks = 0, sb_data_start_block = 0, sb_data_block_count = 0, sb_index_root_block = 0,
     sb_index_depth = 0, sb_pad0 = 0, sb_committed_lsn = 0, sb_checkpoint_lsn = 0,
     sb_log_head_segment = 0, sb_log_tail_segment = 0, sb_log_head_offset = 0, sb_pad1 = 0,
     sb_uuid = replicate 16 0, sb_label = replicate 64 0, sb_snapshot_table_block = 0,
     sb_snapshot_count = 0, sb_pad2 = 0, sb_blocks_used = 0, sb_file_count = 0, sb_dir_count = 0,
     sb_created_ns = 0, sb_last_mount_ns = 0, sb_mount_count = 0, sb_crc32c = 0,
     sb_index_entry_count = 0, sb_reserved = replicate 3808 0\<rparr>"

definition sb_encode :: "superblock \<Rightarrow> bytes" where
  "sb_encode s = sb_magic s @ le_bytes 4 (sb_version s) @ le_bytes 4 (sb_block_size s)
     @ le_bytes 8 (sb_total_blocks s) @ le_bytes 8 (sb_log_start_block s) @ le_bytes 8 (sb_log_end_block s)
     @ le_bytes 8 (sb_log_segment_count s) @ le_bytes 8 (sb_bitmap_start s) @ le_bytes 8 (sb_bitmap_blocks s)
     @ le_bytes 8 (sb_data_start_block s) @ le_bytes 8 (sb_data_block_count s)
     @ le_bytes 8 (sb_index_root_block s) @ le_bytes 4 (sb_index_depth s) @ le_bytes 4 (sb_pad0 s)
     @ le_bytes 8 (sb_committed_lsn s) @ le_bytes 8 (sb_checkpoint_lsn s)
     @ le_bytes 8 (sb_log_head_segment s) @ le_bytes 8 (sb_log_tail_segment s)
     @ le_bytes 4 (sb_log_head_offset s) @ le_bytes 4 (sb_pad1 s)
     @ sb_uuid s @ sb_label s
     @ le_bytes 8 (sb_snapshot_table_block s) @ le_bytes 4 (sb_snapshot_count s) @ le_bytes 4 (sb_pad2 s)
     @ le_bytes 8 (sb_blocks_used s) @ le_bytes 8 (sb_file_count s) @ le_bytes 8 (sb_dir_count s)
     @ le_bytes 8 (sb_created_ns s) @ le_bytes 8 (sb_last_mount_ns s) @ le_bytes 8 (sb_mount_count s)
     @ le_bytes 4 (sb_crc32c s) @ le_bytes 4 (sb_index_entry_count s) @ sb_reserved s"

definition sb_decode :: "bytes \<Rightarrow> superblock" where
  "sb_decode b = \<lparr>sb_magic = slice_of b 0 8, sb_version = from_le (slice_of b 8 4),
     sb_block_size = from_le (slice_of b 12 4), sb_total_blocks = from_le (slice_of b 16 8),
     sb_log_start_block = from_le (slice_of b 24 8), sb_log_end_block = from_le (slice_of b 32 8),
     sb_log_segment_count = from_le (slice_of b 40 8), sb_bitmap_start = from_le (slice_of b 48 8),
     sb_bitmap_blocks = from_le (slice_of b 56 8), sb_data_start_block = from_le (slice_of b 64 8),
     sb_data_block_count = from_le (slice_of b 72 8), sb_index_root_block = from_le (slice_of b 80 8),
     sb_index_depth = from_le (slice_of b 88 4), sb_pad0 = from_le (slice_of b 92 4),
     sb_committed_lsn = from_le (slice_of b 96 8), sb_checkpoint_lsn = from_le (slice_of b 104 8),
     sb_log_head_segment = from_le (slice_of b 112 8), sb_log_tail_segment = from_le (slice_of b 120 8),
     sb_log_head_offset = from_le (slice_of b 128 4), sb_pad1 = from_le (slice_of b 132 4),
     sb_uuid = slice_of b 136 16, sb_label = slice_of b 152 64,
     sb_snapshot_table_block = from_le (slice_of b 216 8), sb_snapshot_count = from_le (slice_of b 224 4),
     sb_pad2 = from_le (slice_of b 228 4), sb_blocks_used = from_le (slice_of b 232 8),
     sb_file_count = from_le (slice_of b 240 8), sb_dir_count = from_le (slice_of b 248 8),
     sb_created_ns = from_le (slice_of b 256 8), sb_last_mount_ns = from_le (slice_of b 264 8),
     sb_mount_count = from_le (slice_of b 272 8), sb_crc32c = from_le (slice_of b 280 4),
     sb_index_entry_count = from_le (slice_of b 284 4), sb_reserved = slice_of b 288 3808\<rparr>"

definition sb_verify_crc :: "superblock \<Rightarrow> bool" where
  "sb_verify_crc s = (crc32c (sb_encode (s\<lparr>sb_crc32c := 0\<rparr>)) = sb_crc32c s)"

definition sb_is_valid :: "superblock \<Rightarrow> bool" where
  "sb_is_valid s = (if sb_magic s \<noteq> HELIX_MAGIC then False else sb_verify_crc s)"

definition sb_update_crc :: "superblock \<Rightarrow> superblock" where
  "sb_update_crc s = (let s0 = s\<lparr>sb_crc32c := 0\<rparr> in s0\<lparr>sb_crc32c := crc32c (sb_encode s0)\<rparr>)"

text \<open>The array lengths the Rust types fix.\<close>

definition sb_wf :: "superblock \<Rightarrow> bool" where
  "sb_wf s \<longleftrightarrow> length (sb_magic s) = 8 \<and> length (sb_uuid s) = 16 \<and> length (sb_label s) = 64 \<and>
     length (sb_reserved s) = 3808"

subsection \<open>The log segment header\<close>

record log_segment_header =
  sh_magic :: bytes
  sh_pad_magic :: u32
  sh_sequence :: u64
  sh_lsn_start :: u64
  sh_record_count :: u32
  sh_bytes_used :: u32
  sh_timestamp_ns :: u64
  sh_crc32c :: u32
  sh_reserved :: bytes

definition sh_encode :: "log_segment_header \<Rightarrow> bytes" where
  "sh_encode h = sh_magic h @ le_bytes 4 (sh_pad_magic h) @ le_bytes 8 (sh_sequence h)
     @ le_bytes 8 (sh_lsn_start h) @ le_bytes 4 (sh_record_count h) @ le_bytes 4 (sh_bytes_used h)
     @ le_bytes 8 (sh_timestamp_ns h) @ le_bytes 4 (sh_crc32c h) @ sh_reserved h"

definition sh_decode :: "bytes \<Rightarrow> log_segment_header" where
  "sh_decode b = \<lparr>sh_magic = slice_of b 0 4, sh_pad_magic = from_le (slice_of b 4 4),
     sh_sequence = from_le (slice_of b 8 8), sh_lsn_start = from_le (slice_of b 16 8),
     sh_record_count = from_le (slice_of b 24 4), sh_bytes_used = from_le (slice_of b 28 4),
     sh_timestamp_ns = from_le (slice_of b 32 8), sh_crc32c = from_le (slice_of b 40 4),
     sh_reserved = slice_of b 44 20\<rparr>"

definition sh_update_crc :: "log_segment_header \<Rightarrow> log_segment_header" where
  "sh_update_crc h = (let h0 = h\<lparr>sh_crc32c := 0\<rparr> in h0\<lparr>sh_crc32c := crc32c (take 40 (sh_encode h0))\<rparr>)"

definition sh_new :: "u64 \<Rightarrow> u64 \<Rightarrow> u64 \<Rightarrow> log_segment_header" where
  "sh_new sequence lsn_start timestamp_ns = sh_update_crc
     \<lparr>sh_magic = LOG_SEGMENT_MAGIC, sh_pad_magic = 0, sh_sequence = sequence, sh_lsn_start = lsn_start,
      sh_record_count = 0, sh_bytes_used = 0, sh_timestamp_ns = timestamp_ns, sh_crc32c = 0,
      sh_reserved = replicate 20 0\<rparr>"

definition sh_verify_crc :: "log_segment_header \<Rightarrow> bool" where
  "sh_verify_crc h = (crc32c (take 40 (sh_encode (h\<lparr>sh_crc32c := 0\<rparr>))) = sh_crc32c h)"

definition sh_is_valid :: "log_segment_header \<Rightarrow> bool" where
  "sh_is_valid h = (sh_magic h = LOG_SEGMENT_MAGIC \<and> sh_verify_crc h)"

subsection \<open>Log records\<close>

datatype log_op = Write | Append | Delete | MkDir | Rename | SetMeta | DedupRef
  | TxBegin | TxCommit | TxAbort | Snapshot | Checkpoint | Truncate

definition op_u8 :: "log_op \<Rightarrow> u8" where
  "op_u8 op = (case op of Write \<Rightarrow> 0x01 | Append \<Rightarrow> 0x02 | Delete \<Rightarrow> 0x03 | MkDir \<Rightarrow> 0x04
     | Rename \<Rightarrow> 0x05 | SetMeta \<Rightarrow> 0x06 | DedupRef \<Rightarrow> 0x07 | TxBegin \<Rightarrow> 0x08 | TxCommit \<Rightarrow> 0x09
     | TxAbort \<Rightarrow> 0x0A | Snapshot \<Rightarrow> 0x0B | Checkpoint \<Rightarrow> 0x0C | Truncate \<Rightarrow> 0x0D)"

definition op_from_u8 :: "u8 \<Rightarrow> log_op option" where
  "op_from_u8 v =
     (if v = 0x01 then Some Write else if v = 0x02 then Some Append else if v = 0x03 then Some Delete
      else if v = 0x04 then Some MkDir else if v = 0x05 then Some Rename else if v = 0x06 then Some SetMeta
      else if v = 0x07 then Some DedupRef else if v = 0x08 then Some TxBegin else if v = 0x09 then Some TxCommit
      else if v = 0x0A then Some TxAbort else if v = 0x0B then Some Snapshot
      else if v = 0x0C then Some Checkpoint else if v = 0x0D then Some Truncate else None)"

record log_record_header =
  rh_lsn :: u64
  rh_timestamp_ns :: u64
  rh_op :: u8
  rh_flags :: u8
  rh_pad :: u16
  rh_payload_len :: u32
  rh_path_hash :: u64
  rh_payload_crc64 :: u64
  rh_secondary_hash :: u64
  rh_tx_begin_lsn :: u64
  rh_record_crc32c :: u32
  rh_reserved :: u32

definition rh_encode :: "log_record_header \<Rightarrow> bytes" where
  "rh_encode h = le_bytes 8 (rh_lsn h) @ le_bytes 8 (rh_timestamp_ns h) @ le_bytes 1 (rh_op h)
     @ le_bytes 1 (rh_flags h) @ le_bytes 2 (rh_pad h) @ le_bytes 4 (rh_payload_len h)
     @ le_bytes 8 (rh_path_hash h) @ le_bytes 8 (rh_payload_crc64 h) @ le_bytes 8 (rh_secondary_hash h)
     @ le_bytes 8 (rh_tx_begin_lsn h) @ le_bytes 4 (rh_record_crc32c h) @ le_bytes 4 (rh_reserved h)"

definition rh_decode :: "bytes \<Rightarrow> log_record_header" where
  "rh_decode b = \<lparr>rh_lsn = from_le (slice_of b 0 8), rh_timestamp_ns = from_le (slice_of b 8 8),
     rh_op = from_le (slice_of b 16 1), rh_flags = from_le (slice_of b 17 1), rh_pad = from_le (slice_of b 18 2),
     rh_payload_len = from_le (slice_of b 20 4), rh_path_hash = from_le (slice_of b 24 8),
     rh_payload_crc64 = from_le (slice_of b 32 8), rh_secondary_hash = from_le (slice_of b 40 8),
     rh_tx_begin_lsn = from_le (slice_of b 48 8), rh_record_crc32c = from_le (slice_of b 56 4),
     rh_reserved = from_le (slice_of b 60 4)\<rparr>"

definition rh_total_size :: "log_record_header \<Rightarrow> u64" where
  "rh_total_size h = (let raw = 64 + ucast (rh_payload_len h) in (raw + 7) AND NOT 7)"

definition REC_IS_EXTENT :: u8 where "REC_IS_EXTENT = 1"

subsection \<open>Index entries\<close>

definition IS_DIR :: u32 where "IS_DIR = 1"
definition IS_DELETED :: u32 where "IS_DELETED = 2"
definition IS_INLINE :: u32 where "IS_INLINE = 4"
definition IS_EXTENT_NODE :: u32 where "IS_EXTENT_NODE = 32"
definition EXTENT_CONTIGUOUS :: u8 where "EXTENT_CONTIGUOUS = 1"
definition EXTENT_NODE :: u8 where "EXTENT_NODE = 2"

record index_entry =
  e_key :: u64
  e_path :: bytes
  e_flags :: u32
  e_gap0 :: u32
  e_lsn :: u64
  e_size :: u64
  e_child_count :: u32
  e_pad0 :: u32
  e_created_ns :: u64
  e_modified_ns :: u64
  e_version_count :: u32
  e_gap1 :: u32
  e_first_lsn :: u64
  e_pad1 :: u32
  e_inline_data :: bytes
  e_gap2 :: u32
  e_extent_root :: u64
  e_content_crc64 :: u64
  e_crc32c :: u32
  e_reserved :: bytes

definition entry_zeroed :: index_entry where
  "entry_zeroed = \<lparr>e_key = 0, e_path = replicate 256 0, e_flags = 0, e_gap0 = 0, e_lsn = 0, e_size = 0,
     e_child_count = 0, e_pad0 = 0, e_created_ns = 0, e_modified_ns = 0, e_version_count = 0, e_gap1 = 0,
     e_first_lsn = 0, e_pad1 = 0, e_inline_data = replicate 96 0, e_gap2 = 0, e_extent_root = 0,
     e_content_crc64 = 0, e_crc32c = 0, e_reserved = replicate 60 0\<rparr>"

definition entry_encode :: "index_entry \<Rightarrow> bytes" where
  "entry_encode e = le_bytes 8 (e_key e) @ e_path e @ le_bytes 4 (e_flags e) @ le_bytes 4 (e_gap0 e)
     @ le_bytes 8 (e_lsn e) @ le_bytes 8 (e_size e) @ le_bytes 4 (e_child_count e) @ le_bytes 4 (e_pad0 e)
     @ le_bytes 8 (e_created_ns e) @ le_bytes 8 (e_modified_ns e) @ le_bytes 4 (e_version_count e)
     @ le_bytes 4 (e_gap1 e) @ le_bytes 8 (e_first_lsn e) @ le_bytes 4 (e_pad1 e) @ e_inline_data e
     @ le_bytes 4 (e_gap2 e) @ le_bytes 8 (e_extent_root e) @ le_bytes 8 (e_content_crc64 e)
     @ le_bytes 4 (e_crc32c e) @ e_reserved e"

definition entry_decode :: "bytes \<Rightarrow> index_entry" where
  "entry_decode b = \<lparr>e_key = from_le (slice_of b 0 8), e_path = slice_of b 8 256,
     e_flags = from_le (slice_of b 264 4), e_gap0 = from_le (slice_of b 268 4),
     e_lsn = from_le (slice_of b 272 8), e_size = from_le (slice_of b 280 8),
     e_child_count = from_le (slice_of b 288 4), e_pad0 = from_le (slice_of b 292 4),
     e_created_ns = from_le (slice_of b 296 8), e_modified_ns = from_le (slice_of b 304 8),
     e_version_count = from_le (slice_of b 312 4), e_gap1 = from_le (slice_of b 316 4),
     e_first_lsn = from_le (slice_of b 320 8), e_pad1 = from_le (slice_of b 328 4),
     e_inline_data = slice_of b 332 96, e_gap2 = from_le (slice_of b 428 4),
     e_extent_root = from_le (slice_of b 432 8), e_content_crc64 = from_le (slice_of b 440 8),
     e_crc32c = from_le (slice_of b 448 4), e_reserved = slice_of b 452 60\<rparr>"

definition entry_wf :: "index_entry \<Rightarrow> bool" where
  "entry_wf e \<longleftrightarrow> length (e_path e) = 256 \<and> length (e_inline_data e) = 96 \<and> length (e_reserved e) = 60"

abbreviation has_flag :: "index_entry \<Rightarrow> u32 \<Rightarrow> bool" where
  "has_flag e f \<equiv> e_flags e AND f \<noteq> 0"

subsection \<open>Codec lemmas\<close>

lemma length_sb_encode [simp, codec_simps]: "sb_wf s \<Longrightarrow> length (sb_encode s) = 4096"
  by (simp add: sb_encode_def sb_wf_def)

lemma length_rh_encode [simp, codec_simps]: "length (rh_encode h) = 64"
  by (simp add: rh_encode_def)

lemma length_entry_encode [simp, codec_simps]: "entry_wf e \<Longrightarrow> length (entry_encode e) = 512"
  by (simp add: entry_encode_def entry_wf_def)

lemma rh_decode_encode [simp, codec_simps]: "rh_decode (rh_encode h) = h"
  by (simp add: rh_decode_def rh_encode_def slice_append1 slice_append2 slice_full)

lemma entry_decode_encode [simp, codec_simps]: "entry_wf e \<Longrightarrow> entry_decode (entry_encode e) = e"
  by (simp add: entry_decode_def entry_encode_def entry_wf_def slice_append1 slice_append2 slice_full)

lemma sb_decode_encode [simp, codec_simps]: "sb_wf s \<Longrightarrow> sb_decode (sb_encode s) = s"
  by (simp add: sb_decode_def sb_encode_def sb_wf_def slice_append1 slice_append2 slice_full)

lemma sb_wf_update_crc [simp]: "sb_wf (sb_update_crc s) = sb_wf s"
  by (simp add: sb_wf_def sb_update_crc_def Let_def)

lemma sb_update_crc_valid: "sb_magic s = HELIX_MAGIC \<Longrightarrow> sb_is_valid (sb_update_crc s)"
  by (simp add: sb_is_valid_def sb_verify_crc_def sb_update_crc_def Let_def)

lemma sh_new_valid: "sh_is_valid (sh_new sequence lsn_start timestamp_ns)"
  by (simp add: sh_new_def sh_update_crc_def sh_is_valid_def sh_verify_crc_def Let_def)

lemma op_from_op_u8 [simp]: "op_from_u8 (op_u8 op) = Some op"
  by (cases op) (simp_all add: op_u8_def op_from_u8_def)

lemma op_from_u8_SomeD: "op_from_u8 v = Some op \<Longrightarrow> v = op_u8 op"
  by (auto simp: op_from_u8_def op_u8_def split: if_splits)

lemma op_from_u8_0 [simp]: "op_from_u8 0 = None"
  by (simp add: op_from_u8_def)

lemma unat_and_not_7: "unat (w AND NOT 7 :: u64) = unat w div 8 * 8"
proof -
  have m: "(7 :: u64) = mask 3" by (simp add: mask_eq_exp_minus_1)
  have "w AND NOT 7 = push_bit 3 (drop_bit 3 w)"
    unfolding m by (rule bit_eqI) (auto simp: bit_simps not_less)
  also have "\<dots> = w div 8 * 8" by (simp add: push_bit_eq_mult drop_bit_eq_div)
  also have "unat (w div 8 * 8) = unat w div 8 * 8 mod 2 ^ 64"
    by (simp add: unat_word_ariths unat_div_distrib mod_mult_left_eq)
  also have "\<dots> = unat w div 8 * 8"
    using unsigned_less[of w, where ?'a = nat] by (intro mod_less) simp
  finally show ?thesis .
qed

definition record_size :: "nat \<Rightarrow> nat" where
  "record_size payload_len = (payload_len + 71) div 8 * 8"

lemma unat_rh_total_size: "unat (rh_total_size h) = record_size (unat (rh_payload_len h))"
proof -
  have b: "unat (rh_payload_len h) < U32" using unsigned_less[of "rh_payload_len h"] by simp
  have "unat (64 + ucast (rh_payload_len h) + 7 :: u64) = unat (rh_payload_len h) + 71"
    using b by (simp add: unat_word_ariths unsigned_ucast_eq take_bit_eq_mod)
  then show ?thesis
    unfolding rh_total_size_def Let_def unat_and_not_7 record_size_def by simp
qed

lemma record_size_bounds: "n + 64 \<le> record_size n" "record_size n < n + 72" "64 \<le> record_size n"
  unfolding record_size_def by presburger+

subsection \<open>Properties\<close>



lemma sb_update_crc_sel [simp]:
  "sb_magic (sb_update_crc s) = sb_magic s" "sb_version (sb_update_crc s) = sb_version s"
  "sb_log_start_block (sb_update_crc s) = sb_log_start_block s" "sb_log_end_block (sb_update_crc s) = sb_log_end_block s"
  "sb_log_segment_count (sb_update_crc s) = sb_log_segment_count s"
  "sb_data_start_block (sb_update_crc s) = sb_data_start_block s" "sb_data_block_count (sb_update_crc s) = sb_data_block_count s"
  "sb_index_root_block (sb_update_crc s) = sb_index_root_block s" "sb_index_depth (sb_update_crc s) = sb_index_depth s"
  "sb_index_entry_count (sb_update_crc s) = sb_index_entry_count s"
  "sb_committed_lsn (sb_update_crc s) = sb_committed_lsn s" "sb_checkpoint_lsn (sb_update_crc s) = sb_checkpoint_lsn s"
  "sb_log_head_segment (sb_update_crc s) = sb_log_head_segment s" "sb_log_tail_segment (sb_update_crc s) = sb_log_tail_segment s"
  "sb_log_head_offset (sb_update_crc s) = sb_log_head_offset s"
  by (simp_all add: sb_update_crc_def Let_def)

end
