(* ===== verification/Block_Device.thy ===== *)
theory Block_Device
  imports Prelude
begin

text \<open>
  The block devices below the file system. \<open>gpt_disk_io::BlockIo\<close> is a trait of a
  third-party crate, so a device is a parameter: a record of its three operations over a
  state \<open>'d\<close>. What the file system relies on is the locale \<open>block_device\<close>: inside the
  capacity, reads return the bytes of the medium, writes replace exactly the addressed
  bytes, and nothing else changes. The locale is interpreted on \<open>MemBlockDevice\<close>
  (\<^verbatim>\<open>morpheus-block-types/src/lib.rs\<close>), and \<open>RawBlockDevice\<close>, the function-pointer bridge,
  is shown to be the same device when it is made from one by \<open>into_raw\<close>.
\<close>

subsection \<open>The trait\<close>

record 'd block_io =
  read_blocks :: "u64 \<Rightarrow> nat \<Rightarrow> 'd \<Rightarrow> bytes option \<times> 'd"
  write_blocks :: "u64 \<Rightarrow> bytes \<Rightarrow> 'd \<Rightarrow> bool \<times> 'd"
  flush_dev :: "'d \<Rightarrow> bool \<times> 'd"

subsection \<open>MemBlockDevice\<close>

text \<open>
  The backing region is identity-mapped memory; the state carries the memory the device
  points into. Pointer arithmetic is on 64-bit addresses.
\<close>

record mem_block_device =
  md_mem :: "u64 \<Rightarrow> u8"
  md_base :: u64
  md_sectors :: u64
  md_sector_size :: u32

definition mem_new :: "(u64 \<Rightarrow> u8) \<Rightarrow> u64 \<Rightarrow> nat \<Rightarrow> u32 \<Rightarrow> mem_block_device option" where
  "mem_new mem base sz sector_size =
     (if sector_size = 0 then None
      else Some \<lparr>md_mem = mem, md_base = base, md_sectors = of_nat sz div ucast sector_size,
                 md_sector_size = sector_size\<rparr>)"

definition mem_total_bytes :: "mem_block_device \<Rightarrow> u64" where
  "mem_total_bytes d = md_sectors d * ucast (md_sector_size d)"

definition mem_read_blocks :: "u64 \<Rightarrow> nat \<Rightarrow> mem_block_device \<Rightarrow> bytes option \<times> mem_block_device" where
  "mem_read_blocks start_lba len d =
     (let offset = start_lba * ucast (md_sector_size d)
      in (Some (map (\<lambda>i. md_mem d (md_base d + offset + of_nat i)) [0..<len]), d))"

definition mem_write_blocks :: "u64 \<Rightarrow> bytes \<Rightarrow> mem_block_device \<Rightarrow> bool \<times> mem_block_device" where
  "mem_write_blocks start_lba src d =
     (let offset = start_lba * ucast (md_sector_size d);
          p = md_base d + offset
      in (True, d\<lparr>md_mem := (\<lambda>a. let i = unat (a - p) in if i < length src then src ! i else md_mem d a)\<rparr>))"

definition mem_flush :: "mem_block_device \<Rightarrow> bool \<times> mem_block_device" where
  "mem_flush d = (True, d)"

definition mem_io :: "mem_block_device block_io" where
  "mem_io = \<lparr>read_blocks = mem_read_blocks, write_blocks = mem_write_blocks, flush_dev = mem_flush\<rparr>"

subsection \<open>RawBlockDevice\<close>

record 'c raw_block_device =
  raw_ctx :: 'c
  raw_sectors :: u64
  raw_sector_size :: u32
  read_fn :: "'c \<Rightarrow> u64 \<Rightarrow> nat \<Rightarrow> bytes option \<times> 'c"
  write_fn :: "'c \<Rightarrow> u64 \<Rightarrow> bytes \<Rightarrow> bool \<times> 'c"
  flush_fn :: "'c \<Rightarrow> bool \<times> 'c"

definition raw_read_blocks :: "u64 \<Rightarrow> nat \<Rightarrow> 'c raw_block_device \<Rightarrow> bytes option \<times> 'c raw_block_device" where
  "raw_read_blocks start_lba len r =
     (case read_fn r (raw_ctx r) start_lba len of (ok, c) \<Rightarrow> (ok, r\<lparr>raw_ctx := c\<rparr>))"

definition raw_write_blocks :: "u64 \<Rightarrow> bytes \<Rightarrow> 'c raw_block_device \<Rightarrow> bool \<times> 'c raw_block_device" where
  "raw_write_blocks start_lba src r =
     (case write_fn r (raw_ctx r) start_lba src of (ok, c) \<Rightarrow> (ok, r\<lparr>raw_ctx := c\<rparr>))"

definition raw_flush :: "'c raw_block_device \<Rightarrow> bool \<times> 'c raw_block_device" where
  "raw_flush r = (case flush_fn r (raw_ctx r) of (ok, c) \<Rightarrow> (ok, r\<lparr>raw_ctx := c\<rparr>))"

definition raw_io :: "'c raw_block_device block_io" where
  "raw_io = \<lparr>read_blocks = raw_read_blocks, write_blocks = raw_write_blocks, flush_dev = raw_flush\<rparr>"

definition raw_total_bytes :: "'c raw_block_device \<Rightarrow> u64" where
  "raw_total_bytes r = raw_sectors r * ucast (raw_sector_size r)"

text \<open>\<open>MemBlockDevice::into_raw\<close>: the three nested functions over the device pointer.\<close>

definition mem_read :: "mem_block_device \<Rightarrow> u64 \<Rightarrow> nat \<Rightarrow> bytes option \<times> mem_block_device" where
  "mem_read dev lba len =
     (let offset = lba * ucast (md_sector_size dev)
      in (Some (map (\<lambda>i. md_mem dev (md_base dev + offset + of_nat i)) [0..<len]), dev))"

definition mem_write :: "mem_block_device \<Rightarrow> u64 \<Rightarrow> bytes \<Rightarrow> bool \<times> mem_block_device" where
  "mem_write dev lba src =
     (let offset = lba * ucast (md_sector_size dev);
          p = md_base dev + offset
      in (True, dev\<lparr>md_mem := (\<lambda>a. let i = unat (a - p) in if i < length src then src ! i else md_mem dev a)\<rparr>))"

definition into_raw :: "mem_block_device \<Rightarrow> mem_block_device raw_block_device" where
  "into_raw mem = \<lparr>raw_ctx = mem, raw_sectors = md_sectors mem, raw_sector_size = md_sector_size mem,
     read_fn = mem_read, write_fn = mem_write, flush_fn = mem_flush\<rparr>"

subsection \<open>What the file system relies on\<close>

text \<open>The medium after \<open>bs\<close> has been stored at byte offset \<open>off\<close>.\<close>

definition view_write :: "(nat \<Rightarrow> u8) \<Rightarrow> nat \<Rightarrow> bytes \<Rightarrow> nat \<Rightarrow> u8" where
  "view_write v off bs = (\<lambda>i. if off \<le> i \<and> i < off + length bs then bs ! (i - off) else v i)"

definition view_bytes :: "(nat \<Rightarrow> u8) \<Rightarrow> nat \<Rightarrow> nat \<Rightarrow> bytes" where
  "view_bytes v off n = map v [off..<off + n]"

lemma length_view_bytes [simp]: "length (view_bytes v off n) = n"
  by (simp add: view_bytes_def)

lemma nth_view_bytes [simp]: "i < n \<Longrightarrow> view_bytes v off n ! i = v (off + i)"
  by (simp add: view_bytes_def)

lemma view_bytes_write_same: "view_bytes (view_write v off bs) off (length bs) = bs"
  by (intro nth_equalityI) (auto simp: view_write_def)

lemma view_bytes_write_other:
  "off + length bs \<le> o' \<or> o' + n \<le> off \<Longrightarrow> view_bytes (view_write v off bs) o' n = view_bytes v o' n"
  by (intro nth_equalityI) (auto simp: view_write_def)

lemma view_write_Nil [simp]: "view_write v off [] = v"
  by (rule ext) (auto simp: view_write_def)

lemma view_write_append:
  "view_write (view_write v off xs) (off + length xs) ys = view_write v off (xs @ ys)"
  by (rule ext) (auto simp: view_write_def nth_append)

lemma view_bytes_split: "view_bytes v off (m + n) = view_bytes v off m @ view_bytes v (off + m) n"
  by (intro nth_equalityI) (auto simp: nth_append)

lemma slice_view_bytes: "a + m \<le> n \<Longrightarrow> slice_of (view_bytes v off n) a m = view_bytes v (off + a) m"
  by (intro nth_equalityI) (auto simp: nth_slice add.assoc)

locale block_device =
  fixes io :: "'d block_io"
    and view :: "'d \<Rightarrow> nat \<Rightarrow> u8"
    and secsz :: "'d \<Rightarrow> nat"
    and cap :: "'d \<Rightarrow> nat"
    and dev_ok :: "'d \<Rightarrow> bool"
  assumes read_ok: "dev_ok d \<Longrightarrow> unat lba * secsz d + n \<le> cap d \<Longrightarrow>
        fst (read_blocks io lba n d) = Some (view_bytes (view d) (unat lba * secsz d) n)"
    and read_frame: "dev_ok d \<Longrightarrow> d' = snd (read_blocks io lba n d) \<Longrightarrow>
        dev_ok d' \<and> secsz d' = secsz d \<and> cap d' = cap d \<and> view d' = view d"
    and write_ok: "dev_ok d \<Longrightarrow> unat lba * secsz d + length bs \<le> cap d \<Longrightarrow>
        fst (write_blocks io lba bs d)"
    and write_view: "dev_ok d \<Longrightarrow> unat lba * secsz d + length bs \<le> cap d \<Longrightarrow>
        view (snd (write_blocks io lba bs d)) = view_write (view d) (unat lba * secsz d) bs"
    and write_frame: "dev_ok d \<Longrightarrow> unat lba * secsz d + length bs \<le> cap d \<Longrightarrow>
        d' = snd (write_blocks io lba bs d) \<Longrightarrow> dev_ok d' \<and> secsz d' = secsz d \<and> cap d' = cap d"
    and flush_ok: "dev_ok d \<Longrightarrow> fst (flush_dev io d)"
    and flush_frame: "dev_ok d \<Longrightarrow> d' = snd (flush_dev io d) \<Longrightarrow>
        dev_ok d' \<and> secsz d' = secsz d \<and> cap d' = cap d \<and> view d' = view d"
begin

lemma readE:
  assumes "dev_ok d" "unat lba * secsz d + n \<le> cap d"
  obtains d' where "read_blocks io lba n d = (Some (view_bytes (view d) (unat lba * secsz d) n), d')"
    "dev_ok d'" "secsz d' = secsz d" "cap d' = cap d" "view d' = view d"
  using read_ok[OF assms] read_frame[OF assms(1) refl, of lba n]
  by (metis prod.collapse)

lemma writeE:
  assumes "dev_ok d" "unat lba * secsz d + length bs \<le> cap d"
  obtains d' where "write_blocks io lba bs d = (True, d')"
    "dev_ok d'" "secsz d' = secsz d" "cap d' = cap d"
    "view d' = view_write (view d) (unat lba * secsz d) bs"
  using write_ok[OF assms] write_frame[OF assms refl] write_view[OF assms]
  by (metis (full_types) prod.collapse)

lemma flushE:
  assumes "dev_ok d"
  obtains d' where "flush_dev io d = (True, d')"
    "dev_ok d'" "secsz d' = secsz d" "cap d' = cap d" "view d' = view d"
  using flush_ok[OF assms] flush_frame[OF assms refl] by (metis (full_types) prod.collapse)

end

subsection \<open>MemBlockDevice is such a device\<close>

definition mem_secsz :: "mem_block_device \<Rightarrow> nat" where
  "mem_secsz d = unat (md_sector_size d)"

definition mem_cap :: "mem_block_device \<Rightarrow> nat" where
  "mem_cap d = unat (md_sectors d) * unat (md_sector_size d)"

definition mem_view :: "mem_block_device \<Rightarrow> nat \<Rightarrow> u8" where
  "mem_view d i = (if i < mem_cap d then md_mem d (md_base d + of_nat i) else 0)"

definition mem_ok :: "mem_block_device \<Rightarrow> bool" where
  "mem_ok d \<longleftrightarrow> mem_cap d \<le> U64"

lemma mem_offset: "lba * ucast (md_sector_size d) = (of_nat (unat lba * mem_secsz d) :: u64)"
  by (simp add: mem_secsz_def)

lemma mem_addr_diff:
  assumes "i < U64" "j < U64"
  shows "unat ((b + of_nat j) - (b + of_nat i) :: u64) = (if i \<le> j then j - i else U64 + j - i)"
proof (cases "i \<le> j")
  case True
  have e: "(b + of_nat j) - (b + of_nat i) = (of_nat (j - i) :: u64)" using True by (simp add: of_nat_diff)
  show ?thesis unfolding e using True assms by (simp add: unat_of_nat take_bit_eq_mod del: of_nat_diff)
next
  case False
  have e: "(b + of_nat j) - (b + of_nat i) = (of_nat (U64 + j - i) :: u64)"
    using False assms by (simp add: of_nat_diff)
  show ?thesis unfolding e using False assms by (simp add: unat_of_nat take_bit_eq_mod del: of_nat_diff)
qed

lemma mem_read_view:
  assumes "unat lba * mem_secsz d + n \<le> mem_cap d"
  shows "fst (mem_read_blocks lba n d) = Some (view_bytes (mem_view d) (unat lba * mem_secsz d) n)"
proof -
  have "map (\<lambda>i. md_mem d (md_base d + of_nat (unat lba * mem_secsz d) + of_nat i)) [0..<n]
      = view_bytes (mem_view d) (unat lba * mem_secsz d) n"
    using assms by (intro nth_equalityI) (auto simp: mem_view_def add.assoc)
  then show ?thesis unfolding mem_read_blocks_def Let_def mem_offset by simp
qed

lemma mem_write_view:
  assumes "mem_ok d" "unat lba * mem_secsz d + length bs \<le> mem_cap d"
  shows "mem_view (snd (mem_write_blocks lba bs d)) = view_write (mem_view d) (unat lba * mem_secsz d) bs"
proof (rule ext)
  fix j
  let ?o = "unat lba * mem_secsz d" and ?d' = "snd (mem_write_blocks lba bs d)"
  have cap': "mem_cap ?d' = mem_cap d" and base': "md_base ?d' = md_base d"
    by (simp_all add: mem_write_blocks_def Let_def mem_cap_def)
  have m: "md_mem ?d' a = (let i = unat (a - (md_base d + of_nat ?o)) in if i < length bs then bs ! i else md_mem d a)" for a
    unfolding mem_write_blocks_def Let_def mem_offset by simp
  show "mem_view ?d' j = view_write (mem_view d) ?o bs j"
  proof (cases "j < mem_cap d")
    case False
    then show ?thesis using assms by (auto simp: mem_view_def cap' view_write_def)
  next
    case True
    show ?thesis
    proof (cases "length bs = 0")
      case True
      then have "bs = []" by simp
      then have "mem_view ?d' j = mem_view d j" unfolding mem_view_def cap' base' m by simp
      with \<open>bs = []\<close> show ?thesis by simp
    next
      case False
      then have "0 < length bs" by simp
      with assms True have lt: "?o < U64" "j < U64" unfolding mem_ok_def by linarith+
      define p where "p = ?o"
      have "p + length bs \<le> U64" "p < U64" using assms lt by (auto simp: p_def mem_ok_def)
      then have "(let i = unat ((md_base d + of_nat j) - (md_base d + of_nat p)) in
            if i < length bs then bs ! i else md_mem d (md_base d + of_nat j))
          = (if p \<le> j \<and> j < p + length bs then bs ! (j - p) else md_mem d (md_base d + of_nat j))"
        unfolding mem_addr_diff[OF \<open>p < U64\<close> lt(2), of "md_base d"] by (auto simp: Let_def)
      then show ?thesis
        unfolding mem_view_def cap' base' m view_write_def p_def using True by simp
    qed
  qed
qed

interpretation memdev: block_device mem_io mem_view mem_secsz mem_cap mem_ok
proof unfold_locales
  fix d :: mem_block_device and lba :: u64 and n
  assume "unat lba * mem_secsz d + n \<le> mem_cap d"
  then show "fst (read_blocks mem_io lba n d) = Some (view_bytes (mem_view d) (unat lba * mem_secsz d) n)"
    by (simp add: mem_io_def mem_read_view)
next
  fix d :: mem_block_device and lba :: u64 and bs :: bytes
  assume "mem_ok d" "unat lba * mem_secsz d + length bs \<le> mem_cap d"
  then show "mem_view (snd (write_blocks mem_io lba bs d)) = view_write (mem_view d) (unat lba * mem_secsz d) bs"
    by (simp add: mem_io_def mem_write_view)
qed (auto simp: mem_io_def mem_read_blocks_def mem_write_blocks_def mem_flush_def mem_ok_def mem_cap_def
      mem_secsz_def Let_def)

text \<open>The bridge made by \<open>into_raw\<close> performs the device's own operations on its context.\<close>

lemma into_raw_simulates:
  "raw_read_blocks lba n (into_raw d) = (fst (mem_read_blocks lba n d), into_raw (snd (mem_read_blocks lba n d)))"
  "raw_write_blocks lba bs (into_raw d) = (fst (mem_write_blocks lba bs d), into_raw (snd (mem_write_blocks lba bs d)))"
  "raw_flush (into_raw d) = (True, into_raw d)"
  "raw_total_bytes (into_raw d) = mem_total_bytes d"
  by (simp_all add: raw_read_blocks_def raw_write_blocks_def raw_flush_def into_raw_def mem_read_def
      mem_write_def mem_read_blocks_def mem_write_blocks_def mem_flush_def raw_total_bytes_def
      mem_total_bytes_def Let_def)

subsection \<open>Properties\<close>


text \<open>
  The memory device stores what is written: after a write inside its capacity, a read of any
  range inside the capacity that the write covers or misses entirely returns the written bytes
  or the bytes from before.
\<close>

theorem mem_read_after_write:
  assumes "mem_ok d" "unat lba * mem_secsz d + length bs \<le> mem_cap d"
    and "mem_write_blocks lba bs d = (True, d')" and "unat lba' * mem_secsz d + n \<le> mem_cap d"
  shows "(lba' = lba \<and> n = length bs \<longrightarrow> fst (mem_read_blocks lba' n d') = Some bs) \<and>
    ((unat lba * mem_secsz d + length bs \<le> unat lba' * mem_secsz d \<or> unat lba' * mem_secsz d + n \<le> unat lba * mem_secsz d) \<longrightarrow>
      fst (mem_read_blocks lba' n d') = fst (mem_read_blocks lba' n d))"
proof -
  have d': "d' = snd (mem_write_blocks lba bs d)" using assms(3) by simp
  have "mem_secsz d' = mem_secsz d" "mem_cap d' = mem_cap d"
    using memdev.write_frame[of d lba bs d'] assms(1,2) d' by (simp_all add: mem_io_def)
  moreover have "mem_view d' = view_write (mem_view d) (unat lba * mem_secsz d) bs"
    unfolding d' by (rule mem_write_view[OF assms(1,2)])
  ultimately show ?thesis
    using mem_read_view[of lba' d' n] mem_read_view[of lba' d n] assms(4)
    by (auto simp: view_bytes_write_same view_bytes_write_other)
qed

theorem mem_read_after_write_witness:
  "let d = \<lparr>md_mem = (\<lambda>_. 0), md_base = 4096, md_sectors = 8, md_sector_size = 2\<rparr>
   in fst (mem_read_blocks 3 2 (snd (mem_write_blocks 3 [7, 9] d))) = Some [7, 9]"
proof -
  let ?d = "\<lparr>md_mem = (\<lambda>_. 0), md_base = 4096, md_sectors = 8, md_sector_size = 2\<rparr> :: mem_block_device"
  have "mem_write_blocks 3 [7, 9] ?d = (True, snd (mem_write_blocks 3 [7, 9] ?d))"
    by (simp add: mem_write_blocks_def Let_def)
  from mem_read_after_write[OF _ _ this, of 3 2] show ?thesis
    by (simp add: mem_ok_def mem_cap_def mem_secsz_def)
qed

end
