(* ===== verification/Helix_Io.thy ===== *)
theory Helix_Io
  imports Helix_Types Block_Device
begin

text \<open>
  Block access of HelixFS: the \<open>map_err\<close> wrappers around the three device operations, loops
  over a range of indices, and the address arithmetic from 4 KiB file-system blocks to device
  sectors. The locale \<open>partition\<close> extends \<open>block_device\<close> with the geometry of a partition and
  turns the medium into a map from block numbers to 4 KiB blocks (\<open>blk\<close>): the rest of the
  development reads and writes whole blocks of that map.
\<close>

definition io_read :: "'d block_io \<Rightarrow> u64 \<Rightarrow> nat \<Rightarrow> 'd \<Rightarrow> bytes hres \<times> 'd" where
  "io_read io lba n d = (case read_blocks io lba n d of
     (Some b, d') \<Rightarrow> (Ok b, d') | (None, d') \<Rightarrow> (Err IoReadFailed, d'))"

definition io_write :: "'d block_io \<Rightarrow> u64 \<Rightarrow> bytes \<Rightarrow> 'd \<Rightarrow> unit hres \<times> 'd" where
  "io_write io lba b d = (case write_blocks io lba b d of
     (ok, d') \<Rightarrow> (if ok then Ok () else Err IoWriteFailed, d'))"

definition io_flush :: "'d block_io \<Rightarrow> 'd \<Rightarrow> unit hres \<times> 'd" where
  "io_flush io d = (case flush_dev io d of (ok, d') \<Rightarrow> (if ok then Ok () else Err IoFlushFailed, d'))"

text \<open>A \<open>for\<close> loop over a list of indices whose body may return early.\<close>

fun for_each :: "('i \<Rightarrow> 's \<Rightarrow> ('e, unit) result \<times> 's) \<Rightarrow> 'i list \<Rightarrow> 's \<Rightarrow> ('e, unit) result \<times> 's" where
  "for_each f [] s = (Ok (), s)"
| "for_each f (i # is) s = and_then (f i s) (\<lambda>_ s. for_each f is s)"

lemma for_each_append: "for_each f (xs @ ys) s = and_then (for_each f xs s) (\<lambda>_ s. for_each f ys s)"
  by (induction xs arbitrary: s) (auto simp: and_then_def split: prod.splits result.splits)

text \<open>
  \<open>BLOCK_SIZE as u64 / device_block_size as u64\<close>, a division that panics on zero, and the
  sector of a data block (\<open>block_lba\<close> and \<open>region_lba\<close> of the sources).
\<close>

definition sector_scale :: "u32 \<Rightarrow> u64 hres" where
  "sector_scale dbs = (if dbs = 0 then Panic else Ok (4096 div ucast dbs))"

definition block_lba :: "u64 \<Rightarrow> u64 \<Rightarrow> u32 \<Rightarrow> u64 \<Rightarrow> u64 hres" where
  "block_lba partition_lba_start data_start_block dbs rel_block =
     res_bind (sector_scale dbs) (\<lambda>scale. Ok (partition_lba_start + (data_start_block + rel_block) * scale))"

subsection \<open>Address arithmetic\<close>

definition geometry :: "nat \<Rightarrow> nat \<Rightarrow> u64 \<Rightarrow> u32 \<Rightarrow> nat \<Rightarrow> bool" where
  "geometry secsz cap plba dbs nb \<longleftrightarrow> secsz = unat dbs \<and> unat dbs dvd 4096 \<and> 512 \<le> unat dbs \<and>
     unat plba * unat dbs + nb * 4096 \<le> cap \<and> cap \<le> U64"

lemma geometry_lba:
  assumes "geometry secsz cap plba dbs nb" "b < nb"
  shows "unat (plba + of_nat b * (4096 div ucast dbs)) * unat dbs = unat plba * unat dbs + b * 4096"
proof -
  define s where "s = unat dbs"
  have "s dvd 4096" using assms by (simp add: geometry_def s_def)
  then obtain k where k: "s * k = 4096" by (metis dvdE)
  have s: "512 \<le> s" using assms by (simp add: geometry_def s_def)
  have k1: "4096 div s = k" using s by (simp flip: k)
  have "k \<le> 4096" using k s by (cases s) auto
  have w: "(4096 div ucast dbs :: u64) = of_nat k"
  proof (rule unsigned_word_eqI)
    have "unat (4096 div ucast dbs :: u64) = 4096 div s"
      using unsigned_less[of dbs, where ?'a = nat]
      by (simp add: unat_div_distrib unsigned_ucast_eq take_bit_eq_mod s_def)
    then show "unat (4096 div ucast dbs :: u64) = unat (of_nat k :: u64)"
      using \<open>k \<le> 4096\<close> by (simp add: k1 unat_of_nat take_bit_eq_mod)
  qed
  have cap: "unat plba * s + nb * 4096 \<le> U64" using assms by (auto simp: geometry_def s_def)
  have e: "(unat plba + b * k) * s = unat plba * s + b * 4096" unfolding k[symmetric] by (simp add: algebra_simps)
  also have "\<dots> < unat plba * s + nb * 4096" using assms(2) by simp
  also have "\<dots> \<le> U64" by (rule cap)
  finally have lt: "(unat plba + b * k) * s < U64" .
  moreover have "unat plba + b * k \<le> (unat plba + b * k) * s" using s by (cases s) auto
  ultimately have "unat plba + b * k < U64" by linarith
  then have "unat (plba + of_nat b * of_nat k) = unat plba + b * k"
  proof -
    assume l: "unat plba + b * k < U64"
    have "plba + of_nat b * of_nat k = (of_nat (unat plba + b * k) :: u64)" by simp
    then show ?thesis using l by (simp only: unat_of_nat take_bit_eq_mod) simp
  qed
  then show ?thesis unfolding w s_def[symmetric] using e by simp
qed

subsection \<open>A partition as a map of blocks\<close>

locale partition = block_device io view secsz cap dev_ok
  for io :: "'d block_io" and view secsz cap dev_ok +
  fixes plba :: u64 and dbs :: u32 and nb :: nat
begin

definition good :: "'d \<Rightarrow> bool" where
  "good d \<longleftrightarrow> dev_ok d \<and> geometry (secsz d) (cap d) plba dbs nb"

definition blk :: "'d \<Rightarrow> nat \<Rightarrow> bytes" where
  "blk d b = view_bytes (view d) (unat plba * unat dbs + b * 4096) 4096"

lemma length_blk [simp]: "length (blk d b) = 4096"
  by (simp add: blk_def)

lemma blk_cong: "view d' = view d \<Longrightarrow> blk d' = blk d"
  by (rule ext) (simp add: blk_def)

lemma dbs_nonzero: "good d \<Longrightarrow> dbs \<noteq> 0"
  by (auto simp: good_def geometry_def)

lemma read_blk:
  assumes "good d" "b < nb"
  shows "\<exists>d'. io_read io (plba + of_nat b * (4096 div ucast dbs)) 4096 d = (Ok (blk d b), d') \<and> good d' \<and> blk d' = blk d"
proof -
  have g: "geometry (secsz d) (cap d) plba dbs nb" "secsz d = unat dbs" "dev_ok d"
    using assms(1) by (auto simp: good_def geometry_def)
  note l = geometry_lba[OF g(1) assms(2)]
  have "unat plba * unat dbs + (b + 1) * 4096 \<le> unat plba * unat dbs + nb * 4096" using assms(2) by simp
  also have "\<dots> \<le> cap d" using g by (simp add: geometry_def)
  finally have "unat (plba + of_nat b * (4096 div ucast dbs)) * secsz d + 4096 \<le> cap d"
    unfolding g(2) l by simp
  from readE[OF g(3) this] obtain d' where
    r: "read_blocks io (plba + of_nat b * (4096 div ucast dbs)) 4096 d =
        (Some (view_bytes (view d) (unat (plba + of_nat b * (4096 div ucast dbs)) * secsz d) 4096), d')"
      "dev_ok d'" "secsz d' = secsz d" "cap d' = cap d" "view d' = view d" .
  have "read_blocks io (plba + of_nat b * (4096 div ucast dbs)) 4096 d = (Some (blk d b), d')"
    using r(1) unfolding g(2) l blk_def .
  then show ?thesis using g(1) r(2-4) blk_cong[OF r(5)] by (simp add: io_read_def good_def)
qed

lemma write_blk:
  assumes "good d" "b < nb" "length bs = 4096"
  shows "\<exists>d'. io_write io (plba + of_nat b * (4096 div ucast dbs)) bs d = (Ok (), d') \<and> good d' \<and>
    blk d' = (blk d)(b := bs)"
proof -
  have g: "geometry (secsz d) (cap d) plba dbs nb" "secsz d = unat dbs" "dev_ok d"
    using assms(1) by (auto simp: good_def geometry_def)
  note l = geometry_lba[OF g(1) assms(2)]
  have "unat plba * unat dbs + (b + 1) * 4096 \<le> unat plba * unat dbs + nb * 4096" using assms(2) by simp
  also have "\<dots> \<le> cap d" using g by (simp add: geometry_def)
  finally have "unat (plba + of_nat b * (4096 div ucast dbs)) * secsz d + length bs \<le> cap d"
    unfolding g(2) l using assms(3) by simp
  from writeE[OF g(3) this] obtain d' where
    r: "write_blocks io (plba + of_nat b * (4096 div ucast dbs)) bs d = (True, d')"
      "dev_ok d'" "secsz d' = secsz d" "cap d' = cap d"
      "view d' = view_write (view d) (unat (plba + of_nat b * (4096 div ucast dbs)) * secsz d) bs" .
  note v = r(5)[unfolded g(2) l]
  have "blk d' c = ((blk d)(b := bs)) c" for c
  proof (cases "c = b")
    case True
    then show ?thesis using view_bytes_write_same[of "view d" _ bs] assms(3) by (simp add: blk_def v)
  next
    case False
    define q where "q = unat plba * unat dbs"
    have "q + b * 4096 + length bs \<le> q + c * 4096 \<or> q + c * 4096 + 4096 \<le> q + b * 4096"
      using False assms(3) by linarith
    then show ?thesis using False by (simp add: blk_def v view_bytes_write_other flip: q_def)
  qed
  then show ?thesis using r g(1) by (auto simp: io_write_def good_def)
qed

lemma block_lba_eq:
  "dbs \<noteq> 0 \<Longrightarrow> block_lba plba (of_nat dsb) dbs (of_nat b) = Ok (plba + of_nat (dsb + b) * (4096 div ucast dbs))"
  by (simp add: block_lba_def sector_scale_def)

text \<open>Single sectors of a block.\<close>

lemma sector_addr:
  assumes "good d" "b < nb" "j < 4096 div unat dbs"
  shows "unat (plba + of_nat b * (4096 div ucast dbs) + of_nat j) * secsz d = unat plba * unat dbs + b * 4096 + j * unat dbs"
    and "j * unat dbs + unat dbs \<le> 4096" and "unat plba * unat dbs + b * 4096 + 4096 \<le> cap d"
proof -
  define L where "L = plba + of_nat b * (4096 div ucast dbs)"
  define s where "s = unat dbs"
  have g: "geometry (secsz d) (cap d) plba dbs nb" "secsz d = s" "s dvd 4096" "512 \<le> s"
    using assms(1) by (auto simp: good_def geometry_def s_def)
  have l: "unat L * s = unat plba * s + b * 4096"
    using geometry_lba[OF g(1) assms(2)] by (simp add: L_def s_def)
  from assms(3) have "Suc j \<le> 4096 div s" by (simp add: s_def)
  then have "Suc j * s \<le> 4096 div s * s" by (rule mult_right_mono) simp
  also have "\<dots> = 4096" using g(3) by (rule dvd_div_mult_self)
  finally have js: "j * s + s \<le> 4096" by simp
  have "unat plba * s + (b + 1) * 4096 \<le> unat plba * s + nb * 4096" using assms(2) by simp
  also have "\<dots> \<le> cap d" using g(1) by (simp add: geometry_def s_def)
  finally have c: "unat plba * s + b * 4096 + 4096 \<le> cap d" by simp
  have capU: "cap d \<le> U64" using g(1) by (simp add: geometry_def)
  have e: "(unat L + j) * s = unat plba * s + b * 4096 + j * s" using l by (simp add: algebra_simps)
  have "unat L + j \<le> (unat L + j) * s" using g(4) by (cases s) auto
  moreover have "(unat L + j) * s < U64" using e js c capU g(4) by linarith
  ultimately have "unat L + j < U64" by linarith
  moreover have "L + of_nat j = (of_nat (unat L + j) :: u64)" by simp
  ultimately have u: "unat (L + of_nat j) = unat L + j" by (simp only: unat_of_nat take_bit_eq_mod) simp
  show "unat (plba + of_nat b * (4096 div ucast dbs) + of_nat j) * secsz d = unat plba * unat dbs + b * 4096 + j * unat dbs"
    using u e g(2) by (simp add: L_def s_def)
  show "j * unat dbs + unat dbs \<le> 4096" "unat plba * unat dbs + b * 4096 + 4096 \<le> cap d"
    using js c by (simp_all add: s_def)
qed

lemma read_sector:
  assumes "good d" "b < nb" "j < 4096 div unat dbs"
  shows "\<exists>d'. io_read io (plba + of_nat b * (4096 div ucast dbs) + of_nat j) (unat dbs) d =
      (Ok (slice_of (blk d b) (j * unat dbs) (unat dbs)), d') \<and> good d' \<and> blk d' = blk d"
proof -
  let ?a = "plba + of_nat b * (4096 div ucast dbs) + of_nat j"
  note sa = sector_addr[OF assms]
  have g: "dev_ok d" using assms(1) by (simp add: good_def)
  have "unat ?a * secsz d + unat dbs \<le> cap d" unfolding sa(1) using sa(2,3) by linarith
  from readE[OF g this] obtain d' where
    r: "read_blocks io ?a (unat dbs) d = (Some (view_bytes (view d) (unat ?a * secsz d) (unat dbs)), d')"
      "dev_ok d'" "secsz d' = secsz d" "cap d' = cap d" "view d' = view d" .
  have "view_bytes (view d) (unat ?a * secsz d) (unat dbs) = slice_of (blk d b) (j * unat dbs) (unat dbs)"
    unfolding sa(1) blk_def using sa(2) by (subst slice_view_bytes) auto
  then show ?thesis using r assms(1) blk_cong[OF r(5)] by (auto simp: good_def io_read_def)
qed

lemma write_sector:
  assumes "good d" "b < nb" "j < 4096 div unat dbs" "length bs = unat dbs"
  shows "\<exists>d'. io_write io (plba + of_nat b * (4096 div ucast dbs) + of_nat j) bs d = (Ok (), d') \<and> good d' \<and>
      blk d' = (blk d)(b := splice (blk d b) (j * unat dbs) bs)"
proof -
  let ?a = "plba + of_nat b * (4096 div ucast dbs) + of_nat j"
  note sa = sector_addr[OF assms(1-3)]
  have g: "dev_ok d" using assms(1) by (simp add: good_def)
  have "unat ?a * secsz d + length bs \<le> cap d" unfolding sa(1) using sa(2,3) assms(4) by linarith
  from writeE[OF g this] obtain d' where
    r: "write_blocks io ?a bs d = (True, d')" "dev_ok d'" "secsz d' = secsz d" "cap d' = cap d"
      "view d' = view_write (view d) (unat ?a * secsz d) bs" .
  define q where "q = unat plba * unat dbs"
  have v: "view d' = view_write (view d) (q + b * 4096 + j * unat dbs) bs" using r(5) unfolding sa(1) q_def .
  have "blk d' c = ((blk d)(b := splice (blk d b) (j * unat dbs) bs)) c" for c
  proof (cases "c = b")
    case True
    have "view_bytes (view d') (q + b * 4096) 4096 = splice (view_bytes (view d) (q + b * 4096) 4096) (j * unat dbs) bs"
      using sa(2) assms(4) by (intro nth_equalityI) (auto simp: v view_write_def nth_splice)
    with True show ?thesis by (simp add: blk_def q_def)
  next
    case False
    then have "q + b * 4096 + j * unat dbs + length bs \<le> q + c * 4096 \<or> q + c * 4096 + 4096 \<le> q + b * 4096 + j * unat dbs"
      using sa(2) assms(4) by linarith
    then show ?thesis using False by (simp add: blk_def v view_bytes_write_other flip: q_def)
  qed
  then show ?thesis using r assms(1) by (auto simp: io_write_def good_def)
qed

text \<open>A block written sector by sector.\<close>

lemma write_block_sectors:
  assumes "good d" "b < nb" "length bs = 4096" "n \<le> 4096 div unat dbs"
  shows "\<exists>d'. for_each (\<lambda>j d. io_write io (plba + of_nat b * (4096 div ucast dbs) + of_nat j)
      (slice_of bs (j * unat dbs) (unat dbs)) d) [0..<n] d = (Ok (), d') \<and> good d' \<and>
    blk d' = (blk d)(b := take (n * unat dbs) bs @ drop (n * unat dbs) (blk d b))"
  using assms(4)
proof (induction n)
  case 0
  then show ?case using assms(1) by simp
next
  case (Suc n)
  let ?w = "\<lambda>j d. io_write io (plba + of_nat b * (4096 div ucast dbs) + of_nat j) (slice_of bs (j * unat dbs) (unat dbs)) d"
  have "n \<le> 4096 div unat dbs" using Suc.prems by simp
  from Suc.IH[OF this] obtain d1 where d1: "for_each ?w [0..<n] d = (Ok (), d1)" "good d1"
    "blk d1 = (blk d)(b := take (n * unat dbs) bs @ drop (n * unat dbs) (blk d b))" by blast
  have n: "n < 4096 div unat dbs" using Suc.prems by simp
  note sa = sector_addr(2)[OF d1(2) assms(2) n]
  have "length (slice_of bs (n * unat dbs) (unat dbs)) = unat dbs" using sa assms(3) by simp
  from write_sector[OF d1(2) assms(2) n this] obtain d2 where
    d2: "?w n d1 = (Ok (), d2)" "good d2"
      "blk d2 = (blk d1)(b := splice (blk d1 b) (n * unat dbs) (slice_of bs (n * unat dbs) (unat dbs)))" by blast
  have "splice (take (n * unat dbs) bs @ drop (n * unat dbs) (blk d b)) (n * unat dbs) (slice_of bs (n * unat dbs) (unat dbs))
      = take (Suc n * unat dbs) bs @ drop (Suc n * unat dbs) (blk d b)"
    using sa assms(3) by (intro nth_equalityI) (auto simp: nth_splice nth_append nth_slice)
  then show ?case using d1 d2 by (auto simp: for_each_append)
qed

lemma flush_blk:
  assumes "good d"
  shows "\<exists>d'. io_flush io d = (Ok (), d') \<and> good d' \<and> blk d' = blk d"
proof -
  have g: "dev_ok d" "geometry (secsz d) (cap d) plba dbs nb" using assms by (auto simp: good_def)
  from flushE[OF g(1)] obtain d' where r: "flush_dev io d = (True, d')"
    "dev_ok d'" "secsz d' = secsz d" "cap d' = cap d" "view d' = view d" .
  with g blk_cong[OF r(5)] show ?thesis by (simp add: io_flush_def good_def)
qed

end

interpretation mempart: partition mem_io mem_view mem_secsz mem_cap mem_ok plba dbs nb
  for plba dbs nb
  by unfold_locales

text \<open>A small partition, used to evaluate the definitions.\<close>

definition demo_dev :: mem_block_device where
  "demo_dev = \<lparr>md_mem = (\<lambda>_. 0), md_base = 0, md_sectors = 8192, md_sector_size = 512\<rparr>"

lemma demo_good: "mempart.good 0 512 1024 demo_dev"
  by (simp add: mempart.good_def geometry_def demo_dev_def mem_ok_def mem_cap_def mem_secsz_def)

end
