(* ===== verification/Helix_Log.thy ===== *)
theory Helix_Log
  imports Helix_Io
begin

text \<open>
  \<^verbatim>\<open>helix/src/log/mod.rs\<close>: the append-only ring of 1 MiB segments. The engine keeps the head
  segment in memory (\<open>lg_buf\<close>) and writes it out on \<open>flush\<close>; a record that does not fit
  moves the head to the next segment, unless that is the tail. \<open>scan_forward\<close> visits the
  records from a start segment to the head.

  Segment numbers, byte offsets and lengths are natural numbers; where the Rust type could
  wrap around, the reduction modulo its range is written out. A loop that need not end is a
  partial function into \<open>option\<close>, where \<open>None\<close> means that it runs forever, and its caller
  returns \<open>Diverges\<close>.
\<close>

record log_engine =
  lg_start :: u64
  lg_end :: u64
  lg_segs :: nat
  lg_head :: nat
  lg_off :: nat
  lg_tail :: nat
  lg_next_lsn :: u64
  lg_buf :: bytes
  lg_count :: u32
  lg_plba :: u64
  lg_dbs :: u32

definition log_new :: "superblock \<Rightarrow> u64 \<Rightarrow> u32 \<Rightarrow> log_engine" where
  "log_new sb partition_lba_start device_block_size =
     \<lparr>lg_start = sb_log_start_block sb, lg_end = sb_log_end_block sb,
      lg_segs = unat (sb_log_segment_count sb), lg_head = unat (sb_log_head_segment sb),
      lg_off = unat (sb_log_head_offset sb), lg_tail = unat (sb_log_tail_segment sb),
      lg_next_lsn = sb_committed_lsn sb + 1, lg_buf = replicate LOG_SEGMENT_BYTES 0, lg_count = 0,
      lg_plba = partition_lba_start, lg_dbs = device_block_size\<rparr>"

definition reset_ring :: "log_engine \<Rightarrow> log_engine" where
  "reset_ring l = l\<lparr>lg_tail := lg_head l\<rparr>"

definition log_utilization_pct :: "log_engine \<Rightarrow> nat" where
  "log_utilization_pct l =
     (let n = max (lg_segs l) 1;
          used = (if lg_head l \<ge> lg_tail l then (lg_head l - lg_tail l + 1) mod U64
                  else (n + U64 - lg_tail l + lg_head l + 1) mod U64)
      in (used * 100 mod U64) div n mod U32)"

definition segment_to_block :: "log_engine \<Rightarrow> nat \<Rightarrow> u64" where
  "segment_to_block l seg_idx = lg_start l + of_nat seg_idx * 256"

definition abs_lba :: "log_engine \<Rightarrow> u64 \<Rightarrow> u64" where
  "abs_lba l partition_block =
     (let blocks_per_sector = ucast (lg_dbs l) div 512 :: u64
      in if blocks_per_sector = 0 then lg_plba l + partition_block * (4096 div 512)
         else lg_plba l + partition_block * (4096 div ucast (lg_dbs l)))"

subsection \<open>Flushing the head segment\<close>

definition seal_header :: "log_engine \<Rightarrow> bytes" where
  "seal_header l =
     (if lg_off l > 64 then
        let buf = splice (lg_buf l) 24 (le_bytes 4 (lg_count l));
            buf = splice buf 28 (le_bytes 4 (of_nat (lg_off l - 64) :: u32));
            buf = splice buf 40 [0, 0, 0, 0]
        in splice buf 40 (le_bytes 4 (crc32c (take 40 buf)))
      else lg_buf l)"

definition write_seg_block :: "'d block_io \<Rightarrow> log_engine \<Rightarrow> u64 \<Rightarrow> nat \<Rightarrow> 'd \<Rightarrow> unit hres \<times> 'd" where
  "write_seg_block io l seg_start i d =
     (if i * 4096 + 4096 > length (lg_buf l) then (Panic, d)
      else io_write io (abs_lba l (seg_start + of_nat i)) (slice_of (lg_buf l) (i * 4096) 4096) d)"

definition log_flush :: "'d block_io \<Rightarrow> 'd \<times> log_engine \<Rightarrow> u64 hres \<times> ('d \<times> log_engine)" where
  "log_flush io = (\<lambda>(d, l).
     let l = l\<lparr>lg_buf := seal_header l\<rparr>;
         blocks_used = div_ceil (lg_off l) BLOCK_SIZE;
         seg_start = segment_to_block l (lg_head l)
     in case and_then (for_each (write_seg_block io l seg_start) [0..<blocks_used] d) (\<lambda>_ d.
          and_then (io_flush io d) (\<lambda>_ d. (Ok (lg_next_lsn l - 1), d))) of (r, d) \<Rightarrow> (r, (d, l)))"

subsection \<open>Appending a record\<close>

definition record_header :: "u64 \<Rightarrow> log_op \<Rightarrow> u8 \<Rightarrow> u64 \<Rightarrow> u64 \<Rightarrow> u64 \<Rightarrow> bytes \<Rightarrow> u64 \<Rightarrow> log_record_header" where
  "record_header lsn op flags path_hash secondary_hash tx_begin_lsn payload timestamp_ns =
     \<lparr>rh_lsn = lsn, rh_timestamp_ns = timestamp_ns, rh_op = op_u8 op, rh_flags = flags, rh_pad = 0,
      rh_payload_len = of_nat (length payload), rh_path_hash = path_hash,
      rh_payload_crc64 = (if payload = [] then 0 else crc64 payload), rh_secondary_hash = secondary_hash,
      rh_tx_begin_lsn = tx_begin_lsn, rh_record_crc32c = 0, rh_reserved = 0\<rparr>"

definition seal_record :: "log_record_header \<Rightarrow> bytes \<Rightarrow> log_record_header" where
  "seal_record h payload = h\<lparr>rh_record_crc32c := crc32c_two (rh_encode h) payload\<rparr>"

text \<open>The buffer of a fresh head segment: zeros and an unsealed segment header.\<close>

definition next_segment :: "log_engine \<Rightarrow> nat \<Rightarrow> u64 \<Rightarrow> u64 \<Rightarrow> log_engine" where
  "next_segment l next_seg lsn timestamp_ns =
     l\<lparr>lg_head := next_seg, lg_off := 64, lg_count := 0,
       lg_buf := splice (replicate (length (lg_buf l)) 0) 0
         (sh_encode \<lparr>sh_magic = LOG_SEGMENT_MAGIC, sh_pad_magic = 0, sh_sequence = of_nat next_seg,
            sh_lsn_start = lsn, sh_record_count = 0, sh_bytes_used = 0, sh_timestamp_ns = timestamp_ns,
            sh_crc32c = 0, sh_reserved = replicate 20 0\<rparr>)\<rparr>"

definition put_record :: "log_record_header \<Rightarrow> bytes \<Rightarrow> nat \<Rightarrow> 'd \<times> log_engine \<Rightarrow> u64 hres \<times> ('d \<times> log_engine)" where
  "put_record header payload total_size = (\<lambda>(d, l).
     let header = seal_record header payload; off = lg_off l
     in if off + 64 > length (lg_buf l) then (Panic, (d, l))
        else let buf = splice (lg_buf l) off (rh_encode header)
     in if payload \<noteq> [] \<and> off + 64 + length payload > length buf then (Panic, (d, l\<lparr>lg_buf := buf\<rparr>))
        else let buf = (if payload \<noteq> [] then splice buf (off + 64) payload else buf)
     in (Ok (lg_next_lsn l), (d, l\<lparr>lg_buf := buf, lg_off := (off + total_size) mod U32,
            lg_count := lg_count l + 1, lg_next_lsn := lg_next_lsn l + 1\<rparr>)))"

definition append_full ::
    "'d block_io \<Rightarrow> log_op \<Rightarrow> u8 \<Rightarrow> u64 \<Rightarrow> u64 \<Rightarrow> u64 \<Rightarrow> bytes \<Rightarrow> u64
     \<Rightarrow> 'd \<times> log_engine \<Rightarrow> u64 hres \<times> ('d \<times> log_engine)" where
  "append_full io op flags path_hash secondary_hash tx_begin_lsn payload timestamp_ns = (\<lambda>(d, l).
     let lsn = lg_next_lsn l;
         header = record_header lsn op flags path_hash secondary_hash tx_begin_lsn payload timestamp_ns;
         total_size = unat (rh_total_size header) mod U32
     in if (lg_off l + total_size) mod U32 > LOG_SEGMENT_BYTES then
          if lg_segs l = 0 then (Panic, (d, l))
          else let next_seg = (lg_head l + 1) mod U64 mod lg_segs l
          in if next_seg = lg_tail l then (Err LogFull, (d, l))
             else and_then (log_flush io (d, l)) (\<lambda>_ (d, l).
               put_record header payload total_size (d, next_segment l next_seg lsn timestamp_ns))
        else put_record header payload total_size (d, l))"

definition log_append ::
    "'d block_io \<Rightarrow> log_op \<Rightarrow> u64 \<Rightarrow> bytes \<Rightarrow> u64 \<Rightarrow> 'd \<times> log_engine \<Rightarrow> u64 hres \<times> ('d \<times> log_engine)" where
  "log_append io op path_hash payload timestamp_ns = append_full io op 0 path_hash 0 0 payload timestamp_ns"

subsection \<open>Reading one record from the device\<close>

definition read_seg_block :: "'d block_io \<Rightarrow> log_engine \<Rightarrow> u64 \<Rightarrow> nat \<Rightarrow> 'd \<Rightarrow> bytes hres \<times> 'd" where
  "read_seg_block io l seg_block i d = io_read io (abs_lba l (seg_block + of_nat i)) 4096 d"

text \<open>The payload loop: the chunk of each block, from \<open>payload_start + read\<close> on.\<close>

function read_payload ::
    "'d block_io \<Rightarrow> log_engine \<Rightarrow> u64 \<Rightarrow> nat \<Rightarrow> nat \<Rightarrow> nat \<Rightarrow> bytes \<Rightarrow> 'd \<Rightarrow> bytes hres \<times> 'd" where
  "read_payload io l seg_block payload_start payload_len got payload d =
     (if got < payload_len then
        let abs_off = payload_start + got;
            blk = abs_off div 4096;
            off_in_blk = abs_off mod 4096;
            chunk = min (4096 - off_in_blk) (payload_len - got)
        in and_then (read_seg_block io l seg_block blk d) (\<lambda>blk_buf d.
             read_payload io l seg_block payload_start payload_len (got + chunk)
               (splice payload got (slice_of blk_buf off_in_blk chunk)) d)
      else (Ok payload, d))"
  by pat_completeness auto
termination
  by (relation "measure (\<lambda>(io, l, sb, ps, pl, got, p, d). pl - got)") auto

declare read_payload.simps [simp del]

definition read_header :: "'d block_io \<Rightarrow> log_engine \<Rightarrow> u64 \<Rightarrow> nat \<Rightarrow> 'd \<Rightarrow> log_record_header hres \<times> 'd" where
  "read_header io l seg_block byte_offset d =
     (let block_idx = byte_offset div 4096; block_off = byte_offset mod 4096 in
      and_then (read_seg_block io l seg_block block_idx d) (\<lambda>buf d.
        if block_off + 64 \<le> 4096 then (Ok (rh_decode (slice_of buf block_off 64)), d)
        else let first_part = 4096 - block_off in
          and_then (read_seg_block io l seg_block (block_idx + 1) d) (\<lambda>buf2 d.
            (Ok (rh_decode (drop block_off buf @ take (64 - first_part) buf2)), d))))"

definition read_record ::
    "'d block_io \<Rightarrow> log_engine \<Rightarrow> nat \<Rightarrow> nat \<Rightarrow> 'd \<Rightarrow> (log_record_header \<times> bytes) hres \<times> 'd" where
  "read_record io l segment_idx byte_offset d =
     (let seg_block = segment_to_block l segment_idx in
      and_then (read_header io l seg_block byte_offset d) (\<lambda>header d.
        if op_from_u8 (rh_op header) = None then (Err LogCrcMismatch, d)
        else let payload_len = unat (rh_payload_len header);
                 max_payload = LOG_SEGMENT_BYTES - (byte_offset + 64)
        in if payload_len > max_payload then (Err LogCrcMismatch, d)
           else and_then (read_payload io l seg_block (byte_offset + 64) payload_len 0 (replicate payload_len 0) d)
             (\<lambda>payload d.
               if crc32c (rh_encode (header\<lparr>rh_record_crc32c := 0\<rparr>) @ payload) \<noteq> rh_record_crc32c header
               then (Err LogCrcMismatch, d) else (Ok (header, payload), d))))"

subsection \<open>Reloading the head segment at mount\<close>

definition read_into_buf ::
    "'d block_io \<Rightarrow> log_engine \<Rightarrow> u64 \<Rightarrow> nat \<Rightarrow> 'd \<times> bytes \<Rightarrow> unit hres \<times> ('d \<times> bytes)" where
  "read_into_buf io l seg_start i = (\<lambda>(d, buf).
     if i * 4096 + 4096 > length buf then (Panic, (d, buf))
     else case read_seg_block io l seg_start i d of
       (Ok b, d) \<Rightarrow> (Ok (), (d, splice buf (i * 4096) b))
     | (Err e, d) \<Rightarrow> (Err e, (d, buf)) | (Panic, d) \<Rightarrow> (Panic, (d, buf)) | (Diverges, d) \<Rightarrow> (Diverges, (d, buf)))"

text \<open>
  The loop that recounts the records. The size in a corrupt header can be a multiple of
  \<open>2 ^ 32\<close>, which \<open>as u32\<close> turns into zero; then the loop does not end.
\<close>

partial_function (option) count_records :: "bytes \<Rightarrow> nat \<Rightarrow> nat \<Rightarrow> u32 \<Rightarrow> u32 option" where
  "count_records buf head_offset offset count =
     (if offset < head_offset then
        if offset + 64 > length buf then Some count
        else let hdr = rh_decode (slice_of buf offset 64) in
          if op_from_u8 (rh_op hdr) = None then Some count
          else count_records buf head_offset ((offset + unat (rh_total_size hdr) mod U32) mod U32) (count + 1)
      else Some count)"

definition reload_head_segment :: "'d block_io \<Rightarrow> 'd \<times> log_engine \<Rightarrow> unit hres \<times> ('d \<times> log_engine)" where
  "reload_head_segment io = (\<lambda>(d, l).
     let seg_start = segment_to_block l (lg_head l);
         blocks_to_read = min (max (div_ceil (lg_off l) BLOCK_SIZE) 1) LOG_SEGMENT_BLOCKS
     in case for_each (read_into_buf io l seg_start) [0..<blocks_to_read] (d, lg_buf l) of
          (Ok _, (d, buf)) \<Rightarrow>
            (case count_records buf (lg_off l) 64 0 of
               Some count \<Rightarrow> (Ok (), (d, l\<lparr>lg_buf := buf, lg_count := count\<rparr>))
             | None \<Rightarrow> (Diverges, (d, l\<lparr>lg_buf := buf\<rparr>)))
        | (Err e, (d, buf)) \<Rightarrow> (Err e, (d, l\<lparr>lg_buf := buf\<rparr>))
        | (Panic, (d, buf)) \<Rightarrow> (Panic, (d, l\<lparr>lg_buf := buf\<rparr>))
        | (Diverges, (d, buf)) \<Rightarrow> (Diverges, (d, l\<lparr>lg_buf := buf\<rparr>)))"

subsection \<open>Scanning the ring\<close>

text \<open>
  The inner loop over the records of one segment image. It threads the visitor's state and the
  highest LSN and ends with the visitor's error, if any. Reading a header past the end of the
  buffer is an out-of-range access, counted as \<open>Panic\<close>.
\<close>

type_synonym 's visitor = "log_record_header \<Rightarrow> bytes \<Rightarrow> 's \<Rightarrow> unit hres \<times> 's"

partial_function (option) scan_records ::
    "'s visitor \<Rightarrow> bytes \<Rightarrow> nat \<Rightarrow> nat \<Rightarrow> u64 \<Rightarrow> 's \<Rightarrow> (unit hres \<times> u64 \<times> 's) option" where
  "scan_records visitor buf limit offset highest_lsn s =
     (if offset + 64 > limit then Some (Ok (), highest_lsn, s)
      else if offset + 64 > length buf then Some (Panic, highest_lsn, s)
      else let header = rh_decode (slice_of buf offset 64) in
        if op_from_u8 (rh_op header) = None then Some (Ok (), highest_lsn, s)
        else let tot = unat (rh_total_size header) mod U32;
                 payload_len = unat (rh_payload_len header);
                 payload_start = offset + 64;
                 payload_end = payload_start + payload_len
        in if payload_end > length buf \<or> (offset + tot) mod U32 > LOG_SEGMENT_BYTES
           then Some (Ok (), highest_lsn, s)
           else let payload = slice_of buf payload_start payload_len in
             if crc32c_two (rh_encode (header\<lparr>rh_record_crc32c := 0\<rparr>)) payload \<noteq> rh_record_crc32c header
             then Some (Ok (), highest_lsn, s)
             else case visitor header payload s of (r, s) \<Rightarrow>
               if r = Ok () then scan_records visitor buf limit ((offset + tot) mod U32) (rh_lsn header) s
               else Some (r, rh_lsn header, s))"

text \<open>The outer loop over the segments; \<open>seg_buf\<close> is the reused buffer of the non-head segments.\<close>

partial_function (option) scan_segments ::
    "'d block_io \<Rightarrow> log_engine \<Rightarrow> nat \<Rightarrow> nat \<Rightarrow> 's visitor \<Rightarrow> nat \<Rightarrow> bytes \<Rightarrow> u64 \<Rightarrow> 'd \<Rightarrow> 's
     \<Rightarrow> (u64 hres \<times> 'd \<times> 's) option" where
  "scan_segments io l start_segment start_offset visitor seg seg_buf highest_lsn d s =
     (let is_head = (seg = lg_head l);
          limit = (if is_head then lg_off l else LOG_SEGMENT_BYTES);
          first_offset = (if seg = start_segment then start_offset else 64)
      in if first_offset \<ge> limit then
           (if is_head then Some (Ok highest_lsn, d, s)
            else if lg_segs l = 0 then Some (Panic, d, s)
            else scan_segments io l start_segment start_offset visitor
                   ((seg + 1) mod U64 mod lg_segs l) seg_buf highest_lsn d s)
         else if is_head then
           Option.bind (scan_records visitor (lg_buf l) limit first_offset highest_lsn s) (\<lambda>(r, h, s).
             Some (res_bind r (\<lambda>_. Ok h), d, s))
         else (case for_each (read_into_buf io l (segment_to_block l seg)) [0..<div_ceil limit BLOCK_SIZE] (d, seg_buf) of
             (r, (d, seg_buf)) \<Rightarrow>
               if r = Ok () then
                 Option.bind (scan_records visitor seg_buf limit first_offset highest_lsn s) (\<lambda>(r, h, s).
                   if r = Ok () then
                     if lg_segs l = 0 then Some (Panic, d, s)
                     else scan_segments io l start_segment start_offset visitor
                       ((seg + 1) mod U64 mod lg_segs l) seg_buf h d s
                   else Some (res_bind r (\<lambda>_. Ok h), d, s))
               else Some (res_bind r (\<lambda>_. Ok highest_lsn), d, s)))"

definition scan_forward ::
    "'d block_io \<Rightarrow> log_engine \<Rightarrow> nat \<Rightarrow> nat \<Rightarrow> 's visitor \<Rightarrow> 'd \<Rightarrow> 's \<Rightarrow> u64 hres \<times> 'd \<times> 's" where
  "scan_forward io l start_segment start_offset visitor d s =
     (case scan_segments io l start_segment start_offset visitor start_segment
        (replicate LOG_SEGMENT_BYTES 0) 0 d s of
        Some x \<Rightarrow> x | None \<Rightarrow> (Diverges, d, s))"

subsection \<open>The records of a segment image\<close>

type_synonym log_record = "log_record_header \<times> bytes"

definition rec_bytes :: "log_record \<Rightarrow> bytes" where
  "rec_bytes r = rh_encode (fst r) @ snd r @ replicate (record_size (length (snd r)) - 64 - length (snd r)) 0"

definition rec_ok :: "log_record \<Rightarrow> bool" where
  "rec_ok r \<longleftrightarrow> op_from_u8 (rh_op (fst r)) \<noteq> None \<and> rh_payload_len (fst r) = of_nat (length (snd r)) \<and>
     rh_record_crc32c (fst r) = crc32c_two (rh_encode ((fst r)\<lparr>rh_record_crc32c := 0\<rparr>)) (snd r)"

definition img :: "log_record list \<Rightarrow> bytes" where
  "img rs = concat (map rec_bytes rs)"

fun visit_all :: "'s visitor \<Rightarrow> log_record list \<Rightarrow> u64 \<Rightarrow> 's \<Rightarrow> unit hres \<times> u64 \<times> 's" where
  "visit_all visitor [] highest s = (Ok (), highest, s)"
| "visit_all visitor ((h, p) # rs) highest s = (case visitor h p s of (r, s) \<Rightarrow>
     if r = Ok () then visit_all visitor rs (rh_lsn h) s else (r, rh_lsn h, s))"

definition seg_holds :: "bytes \<Rightarrow> log_record list \<Rightarrow> bool" where
  "seg_holds buf rs \<longleftrightarrow> length buf = LOG_SEGMENT_BYTES \<and> 64 + length (img rs) \<le> LOG_SEGMENT_BYTES \<and>
     drop 64 buf = img rs @ replicate (LOG_SEGMENT_BYTES - 64 - length (img rs)) 0 \<and> (\<forall>r\<in>set rs. rec_ok r)"

lemma img_simps [simp]: "img [] = []" "img (r # rs) = rec_bytes r @ img rs" "img (rs @ rs') = img rs @ img rs'"
  by (simp_all add: img_def)

lemma length_rec_bytes [simp]: "length (rec_bytes r) = record_size (length (snd r))"
  using record_size_bounds[of "length (snd r)"] by (simp add: rec_bytes_def)

lemma slice_drop: "slice_of xs (a + b) n = slice_of (drop a xs) b n"
  by (simp add: slice_of_def add.commute)

lemma rh_decode_zero: "op_from_u8 (rh_op (rh_decode (replicate 64 0))) = None"
  by (simp add: rh_decode_def slice_of_def numeral_eq_Suc)

lemma scan_records_step:
  assumes buf: "length buf = LOG_SEGMENT_BYTES" and d: "drop off buf = rec_bytes r @ rest" and ok: "rec_ok r"
    and lim: "off + length (rec_bytes r) \<le> limit" "limit \<le> LOG_SEGMENT_BYTES"
  shows "scan_records visitor buf limit off highest s =
     (case visitor (fst r) (snd r) s of (x, s) \<Rightarrow>
        if x = Ok () then scan_records visitor buf limit (off + length (rec_bytes r)) (rh_lsn (fst r)) s
        else Some (x, rh_lsn (fst r), s))"
proof -
  obtain h p where r: "r = (h, p)" by (cases r)
  note b = record_size_bounds[of "length p"]
  have pl: "length p < U32" using lim b by (simp add: r)
  have h: "rh_decode (slice_of buf off 64) = h"
    using slice_drop[of buf off 0 64] by (simp add: d r rec_bytes_def slice_append1 slice_full)
  have len: "unat (rh_payload_len h) = length p"
    using ok pl by (simp add: rec_ok_def r unat_of_nat take_bit_eq_mod)
  then have tot: "unat (rh_total_size h) mod U32 = record_size (length p)"
    using lim b by (simp add: unat_rh_total_size r)
  have p: "slice_of buf (off + 64) (length p) = p"
    using slice_drop[of buf off 64 "length p"]
    by (simp add: d r rec_bytes_def slice_append1 slice_append2 slice_full)
  obtain op where op: "op_from_u8 (rh_op h) = Some op" using ok by (auto simp: rec_ok_def r)
  have crc: "rh_record_crc32c h = crc32c_two (rh_encode (h\<lparr>rh_record_crc32c := 0\<rparr>)) p"
    using ok by (simp add: rec_ok_def r)
  have lim': "off + record_size (length p) \<le> limit" using lim(1) by (simp add: r)
  have "\<not> off + 64 > limit" "\<not> off + 64 > length buf" "\<not> off + 64 + length p > length buf"
    "(off + record_size (length p)) mod U32 = off + record_size (length p)"
    "\<not> off + record_size (length p) > LOG_SEGMENT_BYTES"
    using lim' lim(2) b buf by simp_all
  then show ?thesis
    using op by (subst scan_records.simps) (simp add: Let_def h len tot p r crc[symmetric] split: prod.splits)
qed

lemma scan_records_end:
  assumes "length buf = LOG_SEGMENT_BYTES" "limit \<le> LOG_SEGMENT_BYTES"
    "off + 64 > limit \<or> (\<exists>n. drop off buf = replicate n 0)"
  shows "scan_records visitor buf limit off highest s = Some (Ok (), highest, s)"
proof (cases "off + 64 > limit")
  case True
  then show ?thesis by (subst scan_records.simps) simp
next
  case False
  then obtain n where n: "drop off buf = replicate n 0" using assms(3) by auto
  moreover have "n = length buf - off" using arg_cong[OF n, of length] by simp
  ultimately have "slice_of buf off 64 = replicate 64 0"
    using False assms(1,2) by (simp add: slice_of_def)
  then show ?thesis using False assms by (subst scan_records.simps) (simp add: Let_def rh_decode_zero)
qed

lemma scan_records_all:
  assumes "length buf = LOG_SEGMENT_BYTES" "limit \<le> LOG_SEGMENT_BYTES"
    "drop off buf = img rs @ replicate n 0" "\<forall>r\<in>set rs. rec_ok r" "off + length (img rs) \<le> limit"
  shows "scan_records visitor buf limit off highest s = Some (visit_all visitor rs highest s)"
  using assms(3-5)
proof (induction rs arbitrary: off highest s)
  case Nil
  then show ?case using scan_records_end[OF assms(1,2), of off] by auto
next
  case (Cons r rs)
  have "drop (off + length (rec_bytes r)) buf = img rs @ replicate n 0"
    using Cons.prems(1) by (metis append.assoc append_eq_conv_conj drop_drop add.commute img_simps(2))
  then have IH: "scan_records visitor buf limit (off + length (rec_bytes r)) h' s' =
      Some (visit_all visitor rs h' s')" for h' s'
    using Cons.prems by (intro Cons.IH) auto
  have "drop off buf = rec_bytes r @ (img rs @ replicate n 0)" using Cons.prems(1) by simp
  note step = scan_records_step[OF assms(1) this _ _ assms(2)]
  obtain h p where r: "r = (h, p)" by (cases r)
  have "scan_records visitor buf limit off highest s = (case visitor h p s of (x, s) \<Rightarrow>
      if x = Ok () then Some (visit_all visitor rs (rh_lsn h) s) else Some (x, rh_lsn h, s))"
    using step[of visitor highest s] Cons.prems(2,3) unfolding IH by (simp add: r split: prod.splits)
  then show ?case by (simp add: r split: prod.splits)
qed

subsection \<open>Reading and writing whole segments\<close>

definition seg_base :: "log_engine \<Rightarrow> nat \<Rightarrow> nat" where
  "seg_base l s = unat (lg_start l) + s * 256"

definition seg_img :: "(nat \<Rightarrow> bytes) \<Rightarrow> log_engine \<Rightarrow> nat \<Rightarrow> bytes" where
  "seg_img bm l s = concat (map (\<lambda>i. bm (seg_base l s + i)) [0..<256])"

lemma length_concat_blocks: "(\<And>i. length (f i) = k) \<Longrightarrow> length (concat (map f [0..<n])) = n * k"
  by (induction n) auto

lemma concat_slices: "n * k \<le> length xs \<Longrightarrow> concat (map (\<lambda>i. slice_of xs (i * k) k) [0..<n]) = take (n * k) xs"
proof (induction n)
  case (Suc n)
  then show ?case using take_add[of "n * k" k xs] by (simp add: slice_of_def add.commute)
qed simp

lemma segment_to_block_nat: "segment_to_block l s + of_nat i = of_nat (seg_base l s + i)"
  by (simp add: segment_to_block_def seg_base_def algebra_simps)

text \<open>The geometry of the ring inside a partition of \<open>nb\<close> blocks.\<close>

definition log_ok :: "u64 \<Rightarrow> u32 \<Rightarrow> nat \<Rightarrow> log_engine \<Rightarrow> bool" where
  "log_ok plba dbs nb l \<longleftrightarrow> lg_plba l = plba \<and> lg_dbs l = dbs \<and> lg_head l < lg_segs l \<and> lg_tail l < lg_segs l \<and>
     seg_base l (lg_segs l) \<le> nb \<and> lg_segs l < U64 \<and> length (lg_buf l) = LOG_SEGMENT_BYTES"

lemma seg_base_bound: "log_ok plba dbs nb l \<Longrightarrow> s < lg_segs l \<Longrightarrow> i < 256 \<Longrightarrow> seg_base l s + i < nb"
proof -
  assume a: "log_ok plba dbs nb l" "s < lg_segs l" "i < 256"
  then have "(s + 1) * 256 \<le> lg_segs l * 256" by (intro mult_right_mono) auto
  with a show ?thesis by (simp add: log_ok_def seg_base_def)
qed

lemma seg_base_disjoint:
  "s \<noteq> s' \<Longrightarrow> i < 256 \<Longrightarrow> j < 256 \<Longrightarrow> seg_base l s + i \<noteq> seg_base l s' + j"
  by (simp add: seg_base_def)

context partition
begin

lemma abs_lba_blk:
  assumes "good d" "lg_plba l = plba" "lg_dbs l = dbs"
  shows "abs_lba l (of_nat b) = plba + of_nat b * (4096 div ucast dbs)"
proof -
  have "512 \<le> unat dbs" using assms(1) by (simp add: good_def geometry_def)
  then have "unat (ucast dbs div 512 :: u64) \<noteq> 0"
    using unsigned_less[of dbs, where ?'a = nat]
    by (simp add: unat_div_distrib unsigned_ucast_eq take_bit_eq_mod)
  then have "(ucast dbs div 512 :: u64) \<noteq> 0" by auto
  then show ?thesis using assms(2,3) by (simp add: abs_lba_def Let_def)
qed

lemma read_seg_block_ok:
  assumes "good d" "log_ok plba dbs nb l" "s < lg_segs l" "i < 256"
  shows "\<exists>d'. read_seg_block io l (segment_to_block l s) i d = (Ok (blk d (seg_base l s + i)), d') \<and>
    good d' \<and> blk d' = blk d"
proof -
  have a: "abs_lba l (of_nat (seg_base l s + i)) = plba + of_nat (seg_base l s + i) * (4096 div ucast dbs)"
    using assms(2) by (intro abs_lba_blk[OF assms(1)]) (simp_all add: log_ok_def)
  show ?thesis
    unfolding read_seg_block_def segment_to_block_nat a
    by (rule read_blk[OF assms(1) seg_base_bound[OF assms(2-4)]])
qed

lemma read_loop:
  assumes "good d" "log_ok plba dbs nb l" "s < lg_segs l" "n \<le> 256" "length buf = LOG_SEGMENT_BYTES"
  shows "\<exists>d'. for_each (read_into_buf io l (segment_to_block l s)) [0..<n] (d, buf) =
      (Ok (), (d', concat (map (\<lambda>i. blk d (seg_base l s + i)) [0..<n]) @ drop (n * 4096) buf)) \<and>
    good d' \<and> blk d' = blk d"
  using assms(4)
proof (induction n)
  case 0
  then show ?case using assms by simp
next
  case (Suc n)
  then obtain d1 where d1: "for_each (read_into_buf io l (segment_to_block l s)) [0..<n] (d, buf) =
      (Ok (), (d1, concat (map (\<lambda>i. blk d (seg_base l s + i)) [0..<n]) @ drop (n * 4096) buf))"
      "good d1" "blk d1 = blk d" by auto
  let ?b = "concat (map (\<lambda>i. blk d (seg_base l s + i)) [0..<n])"
  have lb: "length ?b = n * 4096" by (rule length_concat_blocks) simp
  from Suc have n: "n < 256" by simp
  from read_seg_block_ok[OF d1(2) assms(2,3) n] obtain d2 where
    d2: "read_seg_block io l (segment_to_block l s) n d1 = (Ok (blk d (seg_base l s + n)), d2)" "good d2" "blk d2 = blk d"
    using d1(3) by auto
  have fit: "\<not> n * 4096 + 4096 > length (?b @ drop (n * 4096) buf)"
    unfolding length_append lb using n assms(5) by simp
  have sp: "splice (?b @ drop (n * 4096) buf) (n * 4096) (blk d (seg_base l s + n)) =
      (?b @ blk d (seg_base l s + n)) @ drop (Suc n * 4096) buf"
    using lb n assms(5) by (simp add: splice_def add.commute)
  have "read_into_buf io l (segment_to_block l s) n (d1, ?b @ drop (n * 4096) buf) =
      (Ok (), (d2, (?b @ blk d (seg_base l s + n)) @ drop (Suc n * 4096) buf))"
    unfolding read_into_buf_def split using fit sp by (simp add: d2(1) del: append_assoc)
  then show ?case using d1(1) d2 by (simp add: for_each_append)
qed

lemma write_seg_block_ok:
  assumes "good d" "log_ok plba dbs nb l" "s < lg_segs l" "i < 256"
  shows "\<exists>d'. write_seg_block io l (segment_to_block l s) i d = (Ok (), d') \<and> good d' \<and>
    blk d' = (blk d)(seg_base l s + i := slice_of (lg_buf l) (i * 4096) 4096)"
proof -
  have b: "length (lg_buf l) = LOG_SEGMENT_BYTES" using assms(2) by (simp add: log_ok_def)
  then have "length (slice_of (lg_buf l) (i * 4096) 4096) = 4096" using assms(4) by simp
  note w = write_blk[OF assms(1) seg_base_bound[OF assms(2-4)] this]
  have a: "abs_lba l (of_nat (seg_base l s + i)) = plba + of_nat (seg_base l s + i) * (4096 div ucast dbs)"
    using assms(2) by (intro abs_lba_blk[OF assms(1)]) (simp_all add: log_ok_def)
  have "\<not> i * 4096 + 4096 > length (lg_buf l)" using b assms(4) by simp
  then show ?thesis
    unfolding write_seg_block_def segment_to_block_nat a using w by simp
qed

lemma write_loop:
  assumes "good d" "log_ok plba dbs nb l" "s < lg_segs l" "n \<le> 256"
  shows "\<exists>d'. for_each (write_seg_block io l (segment_to_block l s)) [0..<n] d = (Ok (), d') \<and> good d' \<and>
    blk d' = (\<lambda>b. if seg_base l s \<le> b \<and> b < seg_base l s + n
      then slice_of (lg_buf l) ((b - seg_base l s) * 4096) 4096 else blk d b)"
  using assms(4)
proof (induction n)
  case 0
  have "blk d = (\<lambda>b. if seg_base l s \<le> b \<and> b < seg_base l s + 0
      then slice_of (lg_buf l) ((b - seg_base l s) * 4096) 4096 else blk d b)" by (rule ext) auto
  then show ?case using assms(1) by simp
next
  case (Suc n)
  then obtain d1 where d1: "for_each (write_seg_block io l (segment_to_block l s)) [0..<n] d = (Ok (), d1)" "good d1"
    "blk d1 = (\<lambda>b. if seg_base l s \<le> b \<and> b < seg_base l s + n
      then slice_of (lg_buf l) ((b - seg_base l s) * 4096) 4096 else blk d b)" by auto
  from Suc have n: "n < 256" by simp
  from write_seg_block_ok[OF d1(2) assms(2,3) n] obtain d2 where
    d2: "write_seg_block io l (segment_to_block l s) n d1 = (Ok (), d2)" "good d2"
      "blk d2 = (blk d1)(seg_base l s + n := slice_of (lg_buf l) (n * 4096) 4096)" by auto
  have "blk d2 = (\<lambda>b. if seg_base l s \<le> b \<and> b < seg_base l s + Suc n
      then slice_of (lg_buf l) ((b - seg_base l s) * 4096) 4096 else blk d b)"
    by (rule ext) (auto simp: d1(3) d2(3))
  with d1 d2 show ?case by (simp add: for_each_append)
qed

end

subsection \<open>The ring of segments\<close>

definition ring_dist :: "log_engine \<Rightarrow> nat" where
  "ring_dist l = (lg_head l + lg_segs l - lg_tail l) mod lg_segs l"

definition ring_seg :: "log_engine \<Rightarrow> nat \<Rightarrow> nat" where
  "ring_seg l i = (lg_tail l + i) mod lg_segs l"

definition log_rep :: "(nat \<Rightarrow> bytes) \<Rightarrow> log_engine \<Rightarrow> log_record list list \<Rightarrow> bool" where
  "log_rep bm l rss \<longleftrightarrow> length rss = ring_dist l + 1 \<and>
     (\<forall>i<ring_dist l. seg_holds (seg_img bm l (ring_seg l i)) (rss ! i)) \<and>
     seg_holds (lg_buf l) (last rss) \<and> lg_off l = 64 + length (img (last rss))"

lemma mod_add_small: "a < n \<Longrightarrow> b < n \<Longrightarrow> (a + b) mod n = (if a + b < n then a + b else a + b - (n::nat))"
  by (simp add: mod_if le_mod_geq)

lemma ring_dist_cases:
  "lg_head l < lg_segs l \<Longrightarrow> lg_tail l < lg_segs l \<Longrightarrow>
   ring_dist l = (if lg_tail l \<le> lg_head l then lg_head l - lg_tail l else lg_head l + lg_segs l - lg_tail l)"
  by (auto simp: ring_dist_def le_mod_geq)

lemma ring_seg_cases:
  "lg_tail l < lg_segs l \<Longrightarrow> i < lg_segs l \<Longrightarrow>
   ring_seg l i = (if lg_tail l + i < lg_segs l then lg_tail l + i else lg_tail l + i - lg_segs l)"
  by (simp add: ring_seg_def mod_add_small)

lemma ring_seg_less: "lg_tail l < lg_segs l \<Longrightarrow> ring_seg l i < lg_segs l"
  by (simp add: ring_seg_def)

lemma ring_dist_less: "lg_tail l < lg_segs l \<Longrightarrow> ring_dist l < lg_segs l"
  by (simp add: ring_dist_def)

lemma ring_seg_dist:
  assumes "lg_head l < lg_segs l" "lg_tail l < lg_segs l"
  shows "ring_seg l (ring_dist l) = lg_head l"
  using ring_seg_cases[OF assms(2) ring_dist_less[OF assms(2)]] ring_dist_cases[OF assms] assms by auto

lemma ring_seg_inj:
  assumes "lg_tail l < lg_segs l" "i < lg_segs l" "j < lg_segs l" "ring_seg l i = ring_seg l j"
  shows "i = j"
  using assms(4) ring_seg_cases[OF assms(1,2)] ring_seg_cases[OF assms(1,3)] assms(1-3)
  by (auto split: if_splits)

lemma ring_seg_Suc: "(ring_seg l i + 1) mod lg_segs l = ring_seg l (i + 1)"
  by (simp add: ring_seg_def mod_simps)

lemma ring_next:
  assumes "lg_head l < lg_segs l" "lg_tail l < lg_segs l" "(lg_head l + 1) mod lg_segs l \<noteq> lg_tail l"
  shows "ring_dist l + 1 < lg_segs l" "ring_seg l (ring_dist l + 1) = (lg_head l + 1) mod lg_segs l"
proof -
  have s: "ring_seg l (ring_dist l + 1) = (lg_head l + 1) mod lg_segs l"
    using ring_seg_Suc[of l "ring_dist l"] ring_seg_dist[OF assms(1,2)] by simp
  have "ring_dist l + 1 \<noteq> lg_segs l"
  proof
    assume "ring_dist l + 1 = lg_segs l"
    then have "ring_seg l (ring_dist l + 1) = lg_tail l" using assms(2) by (simp add: ring_seg_def)
    with s assms(3) show False by simp
  qed
  then show "ring_dist l + 1 < lg_segs l" using ring_dist_less[OF assms(2)] by simp
  show "ring_seg l (ring_dist l + 1) = (lg_head l + 1) mod lg_segs l" by (rule s)
qed

lemma ring_dist_advance:
  assumes "lg_head l < lg_segs l" "lg_tail l < lg_segs l" "(lg_head l + 1) mod lg_segs l \<noteq> lg_tail l"
    "lg_segs l' = lg_segs l" "lg_tail l' = lg_tail l" "lg_head l' = (lg_head l + 1) mod lg_segs l"
  shows "ring_dist l' = ring_dist l + 1"
proof (rule ring_seg_inj[of l])
  have h: "lg_head l' < lg_segs l'" using assms by simp
  have eq: "ring_seg l' = ring_seg l" by (simp add: fun_eq_iff ring_seg_def assms)
  show "ring_seg l (ring_dist l') = ring_seg l (ring_dist l + 1)"
    using ring_seg_dist[OF h] ring_next(2)[OF assms(1-3)] assms(2,4-6) by (simp add: eq)
  show "ring_dist l' < lg_segs l" using ring_dist_less[of l'] assms by simp
  show "ring_dist l + 1 < lg_segs l" by (rule ring_next(1)[OF assms(1-3)])
qed (rule assms(2))

lemma drop_splice_before: "a + length ys \<le> n \<Longrightarrow> a + length ys \<le> length xs \<Longrightarrow> drop n (splice xs a ys) = drop n xs"
  by (simp add: splice_def)

lemma length_seal_header [simp]: "length (lg_buf l) = LOG_SEGMENT_BYTES \<Longrightarrow> length (seal_header l) = LOG_SEGMENT_BYTES"
  by (simp add: seal_header_def Let_def)

lemma drop_seal_header: "length (lg_buf l) = LOG_SEGMENT_BYTES \<Longrightarrow> drop 64 (seal_header l) = drop 64 (lg_buf l)"
  by (simp add: seal_header_def Let_def drop_splice_before)

lemma seg_holds_seal:
  "length (lg_buf l) = LOG_SEGMENT_BYTES \<Longrightarrow> seg_holds (seal_header l) rs \<longleftrightarrow> seg_holds (lg_buf l) rs"
  by (simp add: seg_holds_def drop_seal_header)

lemma seg_img_cong: "lg_start l' = lg_start l \<Longrightarrow> seg_img bm l' s = seg_img bm l s"
  by (simp add: seg_img_def seg_base_def)

lemma seg_img_upd:
  assumes "length buf = LOG_SEGMENT_BYTES"
    "bm' = (\<lambda>b. if seg_base l s \<le> b \<and> b < seg_base l s + n then slice_of buf ((b - seg_base l s) * 4096) 4096 else bm b)"
  shows "n = 256 \<Longrightarrow> seg_img bm' l s = buf" "n \<le> 256 \<Longrightarrow> s' \<noteq> s \<Longrightarrow> seg_img bm' l s' = seg_img bm l s'"
proof -
  assume n: "n = 256"
  have "seg_img bm' l s = concat (map (\<lambda>i. slice_of buf (i * 4096) 4096) [0..<256])"
    unfolding seg_img_def assms(2) using n by (intro arg_cong[of _ _ concat] map_cong) auto
  also have "\<dots> = buf" using concat_slices[of 256 4096 buf] assms(1) by simp
  finally show "seg_img bm' l s = buf" .
next
  assume n: "n \<le> 256" "s' \<noteq> s"
  have "bm' (seg_base l s' + i) = bm (seg_base l s' + i)" if "i < 256" for i
  proof -
    have "\<not> (seg_base l s \<le> seg_base l s' + i \<and> seg_base l s' + i < seg_base l s + n)"
      unfolding seg_base_def using n that by linarith
    then show ?thesis unfolding assms(2) by (rule if_not_P)
  qed
  then show "seg_img bm' l s' = seg_img bm l s'"
    unfolding seg_img_def by (intro arg_cong[of _ _ concat] map_cong) auto
qed

subsection \<open>Appending and flushing\<close>

lemma splice_Nil [simp]: "splice xs n [] = xs"
  by (simp add: splice_def)

lemma splice_zeros: "length a = n \<Longrightarrow> length ys \<le> k \<Longrightarrow> splice (a @ replicate k z) n ys = a @ ys @ replicate (k - length ys) z"
  by (simp add: splice_def)

lemma rec_ok_seal:
  "length payload < U32 \<Longrightarrow> rec_ok (seal_record (record_header lsn op fl ph sh tx payload ts) payload, payload)"
  by (simp add: rec_ok_def seal_record_def record_header_def)

lemma rh_encode_crc_length: "length (rh_encode (seal_record h payload)) = 64"
  by simp

lemma put_record_ok:
  assumes "seg_holds (lg_buf l) rs" "lg_off l = 64 + length (img rs)"
    "lg_off l + record_size (length payload) \<le> LOG_SEGMENT_BYTES" "rec_ok (seal_record h payload, payload)"
  shows "\<exists>buf'. put_record h payload (record_size (length payload)) (d, l) =
      (Ok (lg_next_lsn l), (d, l\<lparr>lg_buf := buf', lg_off := lg_off l + record_size (length payload),
         lg_count := lg_count l + 1, lg_next_lsn := lg_next_lsn l + 1\<rparr>)) \<and>
    seg_holds buf' (rs @ [(seal_record h payload, payload)])"
proof -
  define a where "a = take 64 (lg_buf l) @ img rs"
  define k where "k = LOG_SEGMENT_BYTES - lg_off l"
  define enc where "enc = rh_encode (seal_record h payload)"
  note b = record_size_bounds[of "length payload"]
  have lb: "length (lg_buf l) = LOG_SEGMENT_BYTES" using assms(1) by (simp add: seg_holds_def)
  have "drop 64 (lg_buf l) = img rs @ replicate k 0"
    using assms(1,2) by (simp add: seg_holds_def k_def)
  then have buf: "lg_buf l = a @ replicate k 0"
    unfolding a_def by (metis append.assoc append_take_drop_id)
  have la: "length a = lg_off l" using lb assms(2) by (simp add: a_def)
  have le: "length enc = 64" by (simp add: enc_def)
  have kk: "64 + length payload \<le> k" using assms(3) b by (simp add: k_def)
  have s1: "splice (lg_buf l) (lg_off l) enc = a @ enc @ replicate (k - 64) 0"
    unfolding buf using splice_zeros[of a "lg_off l" enc k 0] la le kk by simp
  have "splice ((a @ enc) @ replicate (k - 64) 0) (lg_off l + 64) payload =
      (a @ enc) @ payload @ replicate (k - 64 - length payload) 0"
    using la le kk by (intro splice_zeros) auto
  then have s2: "splice (splice (lg_buf l) (lg_off l) enc) (lg_off l + 64) payload =
      a @ enc @ payload @ replicate (k - 64 - length payload) 0" by (simp add: s1)
  define buf' where "buf' = splice (splice (lg_buf l) (lg_off l) enc) (lg_off l + 64) payload"
  have off: "(lg_off l + record_size (length payload)) mod U32 = lg_off l + record_size (length payload)"
    using assms(3) by simp
  have ls: "length (splice (lg_buf l) (lg_off l) enc) = LOG_SEGMENT_BYTES"
    using lb le assms(3) b by simp
  have "put_record h payload (record_size (length payload)) (d, l) =
      (Ok (lg_next_lsn l), (d, l\<lparr>lg_buf := buf', lg_off := lg_off l + record_size (length payload),
         lg_count := lg_count l + 1, lg_next_lsn := lg_next_lsn l + 1\<rparr>))"
  proof -
    have "\<not> lg_off l + 64 > length (lg_buf l)" "\<not> lg_off l + 64 + length payload > LOG_SEGMENT_BYTES"
      using lb assms(3) b by simp_all
    then show ?thesis
      by (simp add: put_record_def Let_def off buf'_def flip: enc_def) (use ls in simp)
  qed
  moreover have "seg_holds buf' (rs @ [(seal_record h payload, payload)])"
  proof -
    define pad where "pad = record_size (length payload) - 64 - length payload"
    have sz: "pad + (k - record_size (length payload)) = k - 64 - length payload"
      using assms(3) b by (simp add: pad_def k_def)
    then have z: "replicate (k - 64 - length payload) (0 :: u8) = replicate pad 0 @ replicate (k - record_size (length payload)) 0"
      by (simp only: replicate_add[symmetric])
    have la64: "64 \<le> length (take 64 (lg_buf l))" using lb by simp
    have "drop 64 buf' = img rs @ enc @ payload @ replicate (k - 64 - length payload) 0"
      unfolding buf'_def s2 a_def using la64 lb by simp
    also have "\<dots> = img (rs @ [(seal_record h payload, payload)]) @ replicate (k - record_size (length payload)) 0"
      unfolding z by (simp add: rec_bytes_def enc_def pad_def)
    finally have "drop 64 buf' = img (rs @ [(seal_record h payload, payload)]) @
      replicate (LOG_SEGMENT_BYTES - 64 - length (img (rs @ [(seal_record h payload, payload)]))) 0"
      using assms(2,3) by (simp add: k_def)
    moreover have "length buf' = LOG_SEGMENT_BYTES" unfolding buf'_def using ls assms(3) b by simp
    ultimately show ?thesis using assms by (simp add: seg_holds_def)
  qed
  ultimately show ?thesis by blast
qed

context partition
begin

lemma log_flush_ok:
  assumes "good d" "log_ok plba dbs nb l" "lg_off l \<le> LOG_SEGMENT_BYTES"
  shows "\<exists>d'. log_flush io (d, l) = (Ok (lg_next_lsn l - 1), (d', l\<lparr>lg_buf := seal_header l\<rparr>)) \<and> good d' \<and>
    blk d' = (\<lambda>b. if seg_base l (lg_head l) \<le> b \<and> b < seg_base l (lg_head l) + div_ceil (lg_off l) BLOCK_SIZE
      then slice_of (seal_header l) ((b - seg_base l (lg_head l)) * 4096) 4096 else blk d b)"
proof -
  let ?l = "l\<lparr>lg_buf := seal_header l\<rparr>"
  have ok: "log_ok plba dbs nb ?l" and h: "lg_head ?l < lg_segs ?l"
    using assms(2) by (auto simp: log_ok_def seg_base_def)
  have n: "div_ceil (lg_off l) BLOCK_SIZE \<le> 256"
    using div_ceil_mono[of 4096 "lg_off l" "256 * 4096"] assms(3) by (simp add: div_ceil_def)
  have sb: "seg_base ?l (lg_head ?l) = seg_base l (lg_head l)" "lg_buf ?l = seal_header l" by (simp_all add: seg_base_def)
  from write_loop[OF assms(1) ok h n, unfolded sb] obtain d1 where d1:
    "for_each (write_seg_block io ?l (segment_to_block ?l (lg_head ?l))) [0..<div_ceil (lg_off l) BLOCK_SIZE] d = (Ok (), d1)"
    "good d1" "blk d1 = (\<lambda>b. if seg_base l (lg_head l) \<le> b \<and> b < seg_base l (lg_head l) + div_ceil (lg_off l) BLOCK_SIZE
      then slice_of (seal_header l) ((b - seg_base l (lg_head l)) * 4096) 4096 else blk d b)"
    by blast
  from flush_blk[OF d1(2)] obtain d2 where d2: "io_flush io d1 = (Ok (), d2)" "good d2" "blk d2 = blk d1" by auto
  have "log_flush io (d, l) = (Ok (lg_next_lsn l - 1), (d2, ?l))"
    using d1(1) d2(1) by (simp add: log_flush_def Let_def)
  then show ?thesis using d2 d1(3) by auto
qed

end

definition log_frame :: "log_engine \<Rightarrow> (nat \<Rightarrow> bytes) \<Rightarrow> (nat \<Rightarrow> bytes) \<Rightarrow> bool" where
  "log_frame l bm bm' \<longleftrightarrow> (\<forall>b. b < seg_base l 0 \<or> seg_base l (lg_segs l) \<le> b \<longrightarrow> bm' b = bm b)"

definition same_ring :: "log_engine \<Rightarrow> log_engine \<Rightarrow> bool" where
  "same_ring l l' \<longleftrightarrow> lg_start l' = lg_start l \<and> lg_end l' = lg_end l \<and> lg_segs l' = lg_segs l \<and>
     lg_plba l' = lg_plba l \<and> lg_dbs l' = lg_dbs l"

lemma log_rep_off: "log_rep bm l rss \<Longrightarrow> 64 \<le> lg_off l \<and> lg_off l \<le> LOG_SEGMENT_BYTES"
  by (simp add: log_rep_def seg_holds_def)

lemma log_frame_head:
  assumes "lg_head l < lg_segs l" "n \<le> 256"
    "bm' = (\<lambda>b. if seg_base l (lg_head l) \<le> b \<and> b < seg_base l (lg_head l) + n then f b else bm b)"
  shows "log_frame l bm bm'"
proof -
  have "lg_head l * 256 + 256 \<le> lg_segs l * 256" using assms(1) by linarith
  then show ?thesis using assms(2) unfolding log_frame_def assms(3) by (auto simp: seg_base_def)
qed

context partition
begin

lemma log_flush_rep:
  assumes "good d" "log_ok plba dbs nb l" "log_rep (blk d) l rss"
  shows "\<exists>d'. log_flush io (d, l) = (Ok (lg_next_lsn l - 1), (d', l\<lparr>lg_buf := seal_header l\<rparr>)) \<and> good d' \<and>
    log_ok plba dbs nb (l\<lparr>lg_buf := seal_header l\<rparr>) \<and> log_rep (blk d') (l\<lparr>lg_buf := seal_header l\<rparr>) rss \<and>
    log_frame l (blk d) (blk d') \<and>
    take (div_ceil (lg_off l) BLOCK_SIZE * 4096) (seg_img (blk d') l (lg_head l)) =
      take (div_ceil (lg_off l) BLOCK_SIZE * 4096) (seal_header l)"
proof -
  let ?l = "l\<lparr>lg_buf := seal_header l\<rparr>" and ?n = "div_ceil (lg_off l) BLOCK_SIZE"
  have off: "lg_off l \<le> LOG_SEGMENT_BYTES" using log_rep_off[OF assms(3)] by simp
  have buf: "length (lg_buf l) = LOG_SEGMENT_BYTES" and ht: "lg_head l < lg_segs l" "lg_tail l < lg_segs l"
    using assms(2) by (auto simp: log_ok_def)
  have n: "?n \<le> 256"
    using div_ceil_mono[of 4096 "lg_off l" "256 * 4096"] off by (simp add: div_ceil_def)
  from log_flush_ok[OF assms(1,2) off] obtain d' where d': "log_flush io (d, l) = (Ok (lg_next_lsn l - 1), (d', ?l))"
    "good d'" "blk d' = (\<lambda>b. if seg_base l (lg_head l) \<le> b \<and> b < seg_base l (lg_head l) + ?n
      then slice_of (seal_header l) ((b - seg_base l (lg_head l)) * 4096) 4096 else blk d b)" by blast
  have sl: "length (seal_header l) = LOG_SEGMENT_BYTES" using buf by simp
  have rd: "ring_dist ?l = ring_dist l" "ring_seg ?l = ring_seg l"
    by (simp_all add: ring_dist_def ring_seg_def fun_eq_iff)
  have "seg_img (blk d') ?l (ring_seg l i) = seg_img (blk d) l (ring_seg l i)" if "i < ring_dist l" for i
  proof -
    have "ring_seg l i \<noteq> lg_head l"
      using ring_seg_inj[OF ht(2), of i "ring_dist l"] that ring_seg_dist[OF ht] ring_dist_less[OF ht(2)] by auto
    then show ?thesis
      using seg_img_upd(2)[OF sl d'(3) n] by (simp add: seg_img_cong[of ?l l])
  qed
  then have "log_rep (blk d') ?l rss"
    using assms(3) buf by (simp add: log_rep_def rd seg_holds_seal)
  moreover have "log_ok plba dbs nb ?l" using assms(2) by (simp add: log_ok_def seg_base_def)
  moreover have "log_frame l (blk d) (blk d')" by (rule log_frame_head[OF ht(1) n d'(3)])
  moreover have "take (?n * 4096) (seg_img (blk d') l (lg_head l)) = take (?n * 4096) (seal_header l)"
  proof -
    have "seg_img (blk d') l (lg_head l) = concat (map (\<lambda>i. blk d' (seg_base l (lg_head l) + i)) ([0..<?n] @ [?n..<256]))"
      unfolding seg_img_def using n by (metis le_add_diff_inverse upt_add_eq_append zero_le)
    also have "\<dots> = concat (map (\<lambda>i. blk d' (seg_base l (lg_head l) + i)) [0..<?n]) @
        concat (map (\<lambda>i. blk d' (seg_base l (lg_head l) + i)) [?n..<256])" by simp
    also have "concat (map (\<lambda>i. blk d' (seg_base l (lg_head l) + i)) [0..<?n]) =
        concat (map (\<lambda>i. slice_of (seal_header l) (i * 4096) 4096) [0..<?n])"
      by (intro arg_cong[of _ _ concat] map_cong) (auto simp: d'(3))
    also have "\<dots> = take (?n * 4096) (seal_header l)"
      using n sl by (intro concat_slices) auto
    finally show ?thesis using n sl by simp
  qed
  ultimately show ?thesis using d'(1,2) by blast
qed

lemma append_fits:
  assumes "log_ok plba dbs nb l" "log_rep (blk d) l rss" "good d"
    "lg_off l + record_size (length payload) \<le> LOG_SEGMENT_BYTES"
    "r = (seal_record (record_header (lg_next_lsn l) op fl ph sh tx payload ts) payload, payload)"
  shows "\<exists>l'. append_full io op fl ph sh tx payload ts (d, l) = (Ok (lg_next_lsn l), (d, l')) \<and>
    log_ok plba dbs nb l' \<and> log_rep (blk d) l' (butlast rss @ [last rss @ [r]]) \<and>
    lg_next_lsn l' = lg_next_lsn l + 1 \<and> same_ring l l' \<and> lg_tail l' = lg_tail l \<and>
    lg_off l' = lg_off l + record_size (length payload) \<and> lg_head l' = lg_head l"
proof -
  let ?h = "record_header (lg_next_lsn l) op fl ph sh tx payload ts"
  note b = record_size_bounds[of "length payload"]
  have pl: "length payload < U32" using assms(4) b by simp
  then have "unat (rh_payload_len ?h) = length payload"
    by (simp add: record_header_def unat_of_nat take_bit_eq_mod)
  then have tot: "unat (rh_total_size ?h) mod U32 = record_size (length payload)"
    using assms(4) by (simp add: unat_rh_total_size)
  have rep: "seg_holds (lg_buf l) (last rss)" "lg_off l = 64 + length (img (last rss))"
    using assms(2) by (auto simp: log_rep_def)
  from put_record_ok[OF rep assms(4) rec_ok_seal[OF pl], of "lg_next_lsn l" op fl ph sh tx ts d]
  obtain buf' where p: "put_record ?h payload (record_size (length payload)) (d, l) =
      (Ok (lg_next_lsn l), (d, l\<lparr>lg_buf := buf', lg_off := lg_off l + record_size (length payload),
         lg_count := lg_count l + 1, lg_next_lsn := lg_next_lsn l + 1\<rparr>))"
    and h: "seg_holds buf' (last rss @ [r])" unfolding assms(5) by blast
  define l' where "l' = l\<lparr>lg_buf := buf', lg_off := lg_off l + record_size (length payload),
         lg_count := lg_count l + 1, lg_next_lsn := lg_next_lsn l + 1\<rparr>"
  have "append_full io op fl ph sh tx payload ts (d, l) = (Ok (lg_next_lsn l), (d, l'))"
    using assms(4) p by (simp add: append_full_def Let_def tot l'_def)
  moreover have "log_ok plba dbs nb l'" using assms(1) h by (simp add: log_ok_def l'_def seg_base_def seg_holds_def)
  moreover have "log_rep (blk d) l' (butlast rss @ [last rss @ [r]])"
  proof -
    have rd: "ring_dist l' = ring_dist l" "ring_seg l' = ring_seg l" "seg_img (blk d) l' = seg_img (blk d) l"
      by (simp_all add: ring_dist_def ring_seg_def fun_eq_iff l'_def seg_img_def seg_base_def)
    have len: "length rss = ring_dist l + 1" using assms(2) by (simp add: log_rep_def)
    have "(butlast rss @ [last rss @ [r]]) ! i = rss ! i" if "i < ring_dist l" for i
      using that len by (simp add: nth_append nth_butlast)
    then show ?thesis
      using assms(2) h len rep(2) unfolding log_rep_def rd by (simp add: l'_def assms(5))
  qed
  ultimately show ?thesis by (auto simp: l'_def same_ring_def)
qed

end

lemma length_sh_encode: "length (sh_magic h) = 4 \<Longrightarrow> length (sh_reserved h) = 20 \<Longrightarrow> length (sh_encode h) = 64"
  by (simp add: sh_encode_def)

lemma next_segment_empty:
  "length (lg_buf l) = LOG_SEGMENT_BYTES \<Longrightarrow> seg_holds (lg_buf (next_segment l s lsn ts)) []"
  by (simp add: seg_holds_def next_segment_def drop_splice_before length_sh_encode LOG_SEGMENT_MAGIC_def ascii_def)

context partition
begin

lemma append_switch:
  assumes "good d" "log_ok plba dbs nb l" "log_rep (blk d) l rss" "record_size (length payload) \<le> 4096"
    "lg_off l + record_size (length payload) > LOG_SEGMENT_BYTES" "(lg_head l + 1) mod lg_segs l \<noteq> lg_tail l"
    "r = (seal_record (record_header (lg_next_lsn l) op fl ph sh tx payload ts) payload, payload)"
  shows "\<exists>d' l'. append_full io op fl ph sh tx payload ts (d, l) = (Ok (lg_next_lsn l), (d', l')) \<and> good d' \<and>
    log_ok plba dbs nb l' \<and> log_rep (blk d') l' (rss @ [[r]]) \<and> log_frame l (blk d) (blk d') \<and>
    lg_next_lsn l' = lg_next_lsn l + 1 \<and> same_ring l l' \<and> lg_tail l' = lg_tail l"
proof -
  let ?h = "record_header (lg_next_lsn l) op fl ph sh tx payload ts"
  let ?ls = "l\<lparr>lg_buf := seal_header l\<rparr>" and ?nx = "(lg_head l + 1) mod lg_segs l"
  note b = record_size_bounds[of "length payload"]
  have pl: "length payload < U32" using assms(4) b by simp
  then have "unat (rh_payload_len ?h) = length payload"
    by (simp add: record_header_def unat_of_nat take_bit_eq_mod)
  then have tot: "unat (rh_total_size ?h) mod U32 = record_size (length payload)"
    using assms(4) by (simp add: unat_rh_total_size)
  have off: "64 \<le> lg_off l" "lg_off l \<le> LOG_SEGMENT_BYTES" using log_rep_off[OF assms(3)] by auto
  have buf: "length (lg_buf l) = LOG_SEGMENT_BYTES" and ht: "lg_head l < lg_segs l" "lg_tail l < lg_segs l"
    and segs: "lg_segs l < U64"
    using assms(2) by (auto simp: log_ok_def)
  have "255 * 4096 < lg_off l" using assms(4,5) by simp
  then have dc: "div_ceil (lg_off l) BLOCK_SIZE = 256"
    using off(2) div_ceil_bounds[of 4096 "lg_off l"] by simp
  from log_flush_rep[OF assms(1-3), unfolded dc] obtain d' where
    d': "log_flush io (d, l) = (Ok (lg_next_lsn l - 1), (d', ?ls))" "good d'" "log_rep (blk d') ?ls rss"
      "log_frame l (blk d) (blk d')" "take (256 * 4096) (seg_img (blk d') l (lg_head l)) = take (256 * 4096) (seal_header l)"
    by blast
  have li: "length (seg_img (blk d') l s) = LOG_SEGMENT_BYTES" for s
    unfolding seg_img_def by (subst length_concat_blocks[where k = 4096]) auto
  have himg: "seg_img (blk d') l (lg_head l) = seal_header l"
    using d'(5) li[of "lg_head l"] buf by simp
  define l1 where "l1 = next_segment ?ls ?nx (lg_next_lsn l) ts"
  have e: "seg_holds (lg_buf l1) []" unfolding l1_def by (rule next_segment_empty) (simp add: buf)
  have o1: "lg_off l1 = 64 + length (img [])" by (simp add: l1_def next_segment_def)
  have f1: "lg_off l1 + record_size (length payload) \<le> LOG_SEGMENT_BYTES" using assms(4) by (simp add: o1)
  from put_record_ok[OF e o1 f1 rec_ok_seal[OF pl], of "lg_next_lsn l" op fl ph sh tx ts d']
  obtain buf' where p: "put_record ?h payload (record_size (length payload)) (d', l1) =
      (Ok (lg_next_lsn l1), (d', l1\<lparr>lg_buf := buf', lg_off := lg_off l1 + record_size (length payload),
         lg_count := lg_count l1 + 1, lg_next_lsn := lg_next_lsn l1 + 1\<rparr>))"
    and h: "seg_holds buf' [r]" unfolding assms(7) by auto
  define l' where "l' = l1\<lparr>lg_buf := buf', lg_off := lg_off l1 + record_size (length payload),
         lg_count := lg_count l1 + 1, lg_next_lsn := lg_next_lsn l1 + 1\<rparr>"
  have fields: "lg_start l' = lg_start l" "lg_segs l' = lg_segs l" "lg_tail l' = lg_tail l" "lg_head l' = ?nx"
    "lg_next_lsn l' = lg_next_lsn l + 1" "lg_plba l' = lg_plba l" "lg_dbs l' = lg_dbs l" "lg_end l' = lg_end l"
    "lg_buf l' = buf'" "lg_off l' = 64 + record_size (length payload)"
    by (simp_all add: l'_def l1_def next_segment_def)
  have nx: "Suc (lg_head l) mod U64 = Suc (lg_head l)" using ht segs by simp
  have "append_full io op fl ph sh tx payload ts (d, l) = (Ok (lg_next_lsn l), (d', l'))"
    using assms(4-6) off(2) ht p d'(1) fields(5)
    by (simp add: append_full_def Let_def tot nx l'_def l1_def)
  moreover have "log_ok plba dbs nb l'"
    using assms(2) h ht by (simp add: log_ok_def fields seg_base_def seg_holds_def)
  moreover have "log_rep (blk d') l' (rss @ [[r]])"
  proof -
    have rd: "ring_dist l' = ring_dist l + 1" by (rule ring_dist_advance[OF ht assms(6)]) (simp_all add: fields)
    have rs: "ring_seg l' = ring_seg l" by (simp add: ring_seg_def fun_eq_iff fields)
    have si: "seg_img (blk d') l' = seg_img (blk d') l" by (simp add: fun_eq_iff seg_img_def seg_base_def fields)
    have len: "length rss = ring_dist l + 1" using assms(3) by (simp add: log_rep_def)
    have old: "seg_holds (seg_img (blk d') l (ring_seg l i)) (rss ! i)" if "i < ring_dist l + 1" for i
    proof (cases "i = ring_dist l")
      case True
      have "rss ! i = last rss" using True len by (metis add_diff_cancel_right' last_conv_nth length_0_conv add_is_0 one_neq_zero)
      moreover have "seg_holds (seal_header l) (last rss)" using d'(3) by (simp add: log_rep_def)
      ultimately show ?thesis using True himg ring_seg_dist[OF ht] by simp
    next
      case False
      have "ring_dist ?ls = ring_dist l" "ring_seg ?ls = ring_seg l" "seg_img (blk d') ?ls = seg_img (blk d') l"
        by (simp_all add: ring_dist_def ring_seg_def fun_eq_iff seg_img_def seg_base_def)
      with d'(3) False that show ?thesis by (simp add: log_rep_def)
    qed
    have sr: "snd r = payload" by (simp add: assms(7))
    show ?thesis
      unfolding log_rep_def rd rs si
    proof (intro conjI allI impI)
      fix i assume "i < ring_dist l + 1"
      then show "seg_holds (seg_img (blk d') l (ring_seg l i)) ((rss @ [[r]]) ! i)"
        using old[of i] len by (simp add: nth_append)
    qed (simp_all add: len fields h sr)
  qed
  ultimately show ?thesis using d'(2,4) fields by (auto simp: same_ring_def)
qed

lemma append_full_err:
  assumes "log_ok plba dbs nb l" "log_rep bm l rss" "record_size (length payload) \<le> 4096"
    "lg_off l + record_size (length payload) > LOG_SEGMENT_BYTES" "(lg_head l + 1) mod lg_segs l = lg_tail l"
  shows "append_full io op fl ph sh tx payload ts (d, l) = (Err LogFull, (d, l))"
proof -
  let ?h = "record_header (lg_next_lsn l) op fl ph sh tx payload ts"
  note b = record_size_bounds[of "length payload"]
  have "length payload < U32" using assms(3) b by simp
  then have "unat (rh_payload_len ?h) = length payload"
    by (simp add: record_header_def unat_of_nat take_bit_eq_mod)
  then have tot: "unat (rh_total_size ?h) mod U32 = record_size (length payload)"
    using assms(3) by (simp add: unat_rh_total_size)
  have "lg_head l < lg_segs l" "lg_segs l < U64" using assms(1) by (auto simp: log_ok_def)
  then show ?thesis
    using assms(3-5) log_rep_off[OF assms(2)] by (simp add: append_full_def Let_def tot)
qed

end

subsection \<open>Scanning visits the records in order\<close>

lemma visit_all_append:
  "visit_all v (xs @ ys) h s = (case visit_all v xs h s of (r, h', s') \<Rightarrow>
     if r = Ok () then visit_all v ys h' s' else (r, h', s'))"
  by (induction v xs h s rule: visit_all.induct) (auto split: prod.splits)

lemma img_Nil_iff: "img rs = [] \<longleftrightarrow> rs = []"
proof (cases rs)
  case (Cons r rs')
  have "length (rec_bytes r) > 0" using record_size_bounds(3)[of "length (snd r)"] by (simp only: length_rec_bytes)
  then have "rec_bytes r \<noteq> []" by (metis list.size(3) less_irrefl)
  then show ?thesis using Cons by simp
qed simp

lemma seg_holds_scan:
  assumes "seg_holds buf rs" "64 + length (img rs) \<le> limit" "limit \<le> LOG_SEGMENT_BYTES"
  shows "scan_records visitor buf limit 64 h s = Some (visit_all visitor rs h s)"
  using assms by (intro scan_records_all[where n = "LOG_SEGMENT_BYTES - 64 - length (img rs)"]) (auto simp: seg_holds_def)

context partition
begin

lemma scan_head:
  assumes "log_rep bm l rss" "seg = lg_head l" "last rss = rs" "visit_all visitor rs h s = (r, h', s')"
  shows "scan_segments io l start 64 visitor seg seg_buf h d s = Some (res_bind r (\<lambda>_. Ok h'), d, s')"
proof -
  have rep: "seg_holds (lg_buf l) rs" "lg_off l = 64 + length (img rs)" using assms by (auto simp: log_rep_def)
  show ?thesis
  proof (cases "rs = []")
    case True
    then show ?thesis using rep assms(2,4) by (subst scan_segments.simps) (auto simp: Let_def)
  next
    case False
    then have "0 < length (img rs)" using img_Nil_iff[of rs] by simp
    moreover have "lg_off l \<le> LOG_SEGMENT_BYTES" using rep by (simp add: seg_holds_def)
    then have "scan_records visitor (lg_buf l) (lg_off l) 64 h s = Some (r, h', s')"
      using seg_holds_scan[OF rep(1), of "lg_off l" visitor h s] rep(2) assms(4) by simp
    ultimately show ?thesis using assms(2) rep(2) by (subst scan_segments.simps) (simp add: Let_def)
  qed
qed

lemma read_segment:
  assumes "good d" "log_ok plba dbs nb l" "s < lg_segs l" "length buf = LOG_SEGMENT_BYTES"
  shows "\<exists>d'. for_each (read_into_buf io l (segment_to_block l s)) [0..<div_ceil LOG_SEGMENT_BYTES BLOCK_SIZE] (d, buf) =
      (Ok (), (d', seg_img (blk d) l s)) \<and> good d' \<and> blk d' = blk d"
proof -
  have dc: "div_ceil LOG_SEGMENT_BYTES BLOCK_SIZE = 256" by (simp add: div_ceil_def)
  have z: "drop (256 * 4096) buf = []" using assms(4) by simp
  from read_loop[OF assms(1-3) order_refl assms(4)] show ?thesis
    unfolding dc z seg_img_def by simp
qed

lemma scan_segments_rep:
  assumes "log_ok plba dbs nb l" "log_rep bm l rss" "i \<le> ring_dist l" "good d" "blk d = bm"
    "length seg_buf = LOG_SEGMENT_BYTES" "visit_all visitor (concat (drop i rss)) h s = (r, h', s')"
  shows "\<exists>d'. scan_segments io l (lg_tail l) 64 visitor (ring_seg l i) seg_buf h d s =
      Some (res_bind r (\<lambda>_. Ok h'), d', s') \<and> good d' \<and> blk d' = bm"
  using assms(3-7)
proof (induction "ring_dist l - i" arbitrary: i d seg_buf h s)
  case 0
  then have i: "i = ring_dist l" by simp
  have ht: "lg_head l < lg_segs l" "lg_tail l < lg_segs l" using assms(1) by (auto simp: log_ok_def)
  have len: "length rss = ring_dist l + 1" using assms(2) by (simp add: log_rep_def)
  then have "drop i rss = [last rss]"
    unfolding i by (metis add_diff_cancel_right' append_butlast_last_id append_eq_conv_conj length_0_conv length_butlast add_is_0 one_neq_zero)
  then have v: "visit_all visitor (last rss) h s = (r, h', s')" using 0 by simp
  have "scan_segments io l (lg_tail l) 64 visitor (ring_seg l i) seg_buf h d s = Some (res_bind r (\<lambda>_. Ok h'), d, s')"
    by (rule scan_head[OF assms(2) _ refl v]) (simp add: i ring_seg_dist[OF ht])
  then show ?case using 0 by blast
next
  case (Suc n)
  have ht: "lg_head l < lg_segs l" "lg_tail l < lg_segs l" and segs: "lg_segs l < U64" using assms(1) by (auto simp: log_ok_def)
  have i: "i < ring_dist l" using Suc.hyps(2) by simp
  have len: "length rss = ring_dist l + 1" using assms(2) by (simp add: log_rep_def)
  have sl: "ring_seg l i < lg_segs l" by (rule ring_seg_less[OF ht(2)])
  have nh: "ring_seg l i \<noteq> lg_head l"
    using ring_seg_inj[OF ht(2), of i "ring_dist l"] i ring_seg_dist[OF ht] ring_dist_less[OF ht(2)] by auto
  have hold: "seg_holds (seg_img bm l (ring_seg l i)) (rss ! i)" using assms(2) i by (simp add: log_rep_def)
  from read_segment[OF Suc.prems(2) assms(1) sl Suc.prems(4)] obtain d1 where
    d1: "for_each (read_into_buf io l (segment_to_block l (ring_seg l i))) [0..<div_ceil LOG_SEGMENT_BYTES BLOCK_SIZE] (d, seg_buf) =
      (Ok (), (d1, seg_img bm l (ring_seg l i)))" "good d1" "blk d1 = bm" using Suc.prems(3) by auto
  obtain r1 h1 s1 where v1: "visit_all visitor (rss ! i) h s = (r1, h1, s1)" by (cases "visit_all visitor (rss ! i) h s")
  have sc: "scan_records visitor (seg_img bm l (ring_seg l i)) LOG_SEGMENT_BYTES 64 h s = Some (r1, h1, s1)"
    using seg_holds_scan[OF hold _ order_refl, of visitor h s] hold v1 by (simp add: seg_holds_def)
  have dr: "drop i rss = rss ! i # drop (i + 1) rss" using i len by (simp add: Cons_nth_drop_Suc)
  have va: "(if r1 = Ok () then visit_all visitor (concat (drop (i + 1) rss)) h1 s1 else (r1, h1, s1)) = (r, h', s')"
    using Suc.prems(5) v1 unfolding dr by (simp add: visit_all_append split: if_splits)
  have nx: "(ring_seg l i + 1) mod U64 mod lg_segs l = ring_seg l (i + 1)"
    using ring_seg_Suc[of l i] sl segs by simp
  have li: "length (seg_img bm l (ring_seg l i)) = LOG_SEGMENT_BYTES" using hold by (simp add: seg_holds_def)
  show ?case
  proof (cases "r1 = Ok ()")
    case True
    then have v2: "visit_all visitor (concat (drop (i + 1) rss)) h1 s1 = (r, h', s')" using va by simp
    have "\<exists>d'. scan_segments io l (lg_tail l) 64 visitor (ring_seg l (i + 1)) (seg_img bm l (ring_seg l i)) h1 d1 s1 =
      Some (res_bind r (\<lambda>_. Ok h'), d', s') \<and> good d' \<and> blk d' = bm"
      using Suc.hyps(2) i by (intro Suc.hyps(1) d1(2,3) li v2) auto
    moreover have "scan_segments io l (lg_tail l) 64 visitor (ring_seg l i) seg_buf h d s =
        scan_segments io l (lg_tail l) 64 visitor (ring_seg l (i + 1)) (seg_img bm l (ring_seg l i)) h1 d1 s1"
      using nh ht(1) nx True by (subst scan_segments.simps) (simp add: Let_def d1(1) sc)
    ultimately show ?thesis by simp
  next
    case False
    then have "scan_segments io l (lg_tail l) 64 visitor (ring_seg l i) seg_buf h d s =
        Some (res_bind r1 (\<lambda>_. Ok h1), d1, s1)"
      using nh by (subst scan_segments.simps) (simp add: Let_def d1(1) sc)
    then show ?thesis using va False d1(2,3) by auto
  qed
qed

lemma scan_forward_rep:
  assumes "good d" "log_ok plba dbs nb l" "log_rep (blk d) l rss"
    "visit_all visitor (concat rss) 0 s = (r, h', s')"
  shows "\<exists>d'. scan_forward io l (lg_tail l) 64 visitor d s = (res_bind r (\<lambda>_. Ok h'), d', s') \<and> good d' \<and> blk d' = blk d"
proof -
  have "lg_tail l < lg_segs l" using assms(2) by (simp add: log_ok_def)
  then have "ring_seg l 0 = lg_tail l" by (simp add: ring_seg_def)
  then show ?thesis
    using scan_segments_rep[OF assms(2,3), of 0 d "replicate LOG_SEGMENT_BYTES 0" visitor 0 s r h' s'] assms
    by (auto simp: scan_forward_def)
qed

end

subsection \<open>Reloading the head segment\<close>

lemma count_records_all:
  assumes "length buf = LOG_SEGMENT_BYTES" "drop off buf = img rs @ replicate n 0" "\<forall>r\<in>set rs. rec_ok r"
    "lim = off + length (img rs)" "lim \<le> LOG_SEGMENT_BYTES"
  shows "count_records buf lim off c = Some (c + of_nat (length rs))"
  using assms(2-4)
proof (induction rs arbitrary: off c)
  case Nil
  then show ?case by (subst count_records.simps) simp
next
  case (Cons r rs)
  obtain h p where r: "r = (h, p)" by (cases r)
  note b = record_size_bounds[of "length p"]
  have lim: "off + record_size (length p) \<le> LOG_SEGMENT_BYTES" "off < lim"
    using Cons.prems(3) assms(5) b by (simp_all add: r)
  have h: "rh_decode (slice_of buf off 64) = h"
    using slice_drop[of buf off 0 64] by (simp add: Cons.prems(1) r rec_bytes_def slice_append1 slice_full)
  obtain op where op: "op_from_u8 (rh_op h) = Some op" using Cons.prems(2) by (auto simp: rec_ok_def r)
  have "length p < U32" using lim b by simp
  then have "unat (rh_payload_len h) = length p"
    using Cons.prems(2) by (simp add: rec_ok_def r unat_of_nat take_bit_eq_mod)
  then have tot: "unat (rh_total_size h) mod U32 = record_size (length p)"
    using lim by (simp add: unat_rh_total_size)
  have "drop (off + length (rec_bytes r)) buf = img rs @ replicate n 0"
    using Cons.prems(1) by (metis append.assoc append_eq_conv_conj drop_drop add.commute img_simps(2))
  then have d: "drop (off + record_size (length p)) buf = img rs @ replicate n 0" by (simp add: r)
  have "count_records buf lim off c = count_records buf lim (off + record_size (length p)) (c + 1)"
    using lim b assms(1) by (subst count_records.simps) (simp add: Let_def h op tot)
  also have "\<dots> = Some (c + 1 + of_nat (length rs))"
    using Cons.prems by (intro Cons.IH d) (auto simp: r)
  finally show ?case by (simp add: algebra_simps)
qed

lemma seg_holds_zero_tail:
  assumes "seg_holds buf rs" "64 + length (img rs) \<le> k" "k \<le> LOG_SEGMENT_BYTES"
  shows "drop k buf = replicate (LOG_SEGMENT_BYTES - k) 0"
proof -
  have "drop k buf = drop (k - 64) (drop 64 buf)" using assms(2) by simp
  also have "\<dots> = replicate (LOG_SEGMENT_BYTES - k) 0" using assms by (simp add: seg_holds_def)
  finally show ?thesis .
qed

context partition
begin

lemma reload_ok:
  assumes "good d" "log_ok plba dbs nb l" "lg_buf l = replicate LOG_SEGMENT_BYTES 0" "seg_holds buf rs"
    "lg_off l = 64 + length (img rs)"
    "take (div_ceil (lg_off l) BLOCK_SIZE * 4096) (seg_img (blk d) l (lg_head l)) =
     take (div_ceil (lg_off l) BLOCK_SIZE * 4096) buf"
  shows "\<exists>d'. reload_head_segment io (d, l) = (Ok (), (d', l\<lparr>lg_buf := buf, lg_count := of_nat (length rs)\<rparr>)) \<and>
    good d' \<and> blk d' = blk d"
proof -
  let ?n = "div_ceil (lg_off l) BLOCK_SIZE"
  have off: "64 \<le> lg_off l" "lg_off l \<le> LOG_SEGMENT_BYTES" using assms(4,5) by (auto simp: seg_holds_def)
  have n: "?n \<le> 256"
    using div_ceil_mono[of 4096 "lg_off l" "256 * 4096"] off by (simp add: div_ceil_def)
  have nb: "lg_off l \<le> ?n * 4096" by (rule div_ceil_bounds(1)) simp
  then have n1: "1 \<le> ?n" using off by (cases ?n) auto
  have lb: "length buf = LOG_SEGMENT_BYTES" using assms(4) by (simp add: seg_holds_def)
  have h: "lg_head l < lg_segs l" using assms(2) by (simp add: log_ok_def)
  let ?img = "\<lambda>n. concat (map (\<lambda>i. blk d (seg_base l (lg_head l) + i)) [0..<n])"
  have li: "length (?img n) = n * 4096" for n by (rule length_concat_blocks) simp
  have "seg_img (blk d) l (lg_head l) = ?img ?n @ concat (map (\<lambda>i. blk d (seg_base l (lg_head l) + i)) [?n..<256])"
  proof -
    have "[0..<256] = [0..<?n] @ [?n..<256]" using n by (metis le_add_diff_inverse upt_add_eq_append zero_le)
    then show ?thesis by (simp add: seg_img_def del: upt_conv_Nil)
  qed
  then have "?img ?n = take (?n * 4096) (seg_img (blk d) l (lg_head l))" by (simp add: li)
  then have pre: "?img ?n = take (?n * 4096) buf" using assms(6) by simp
  have "drop (?n * 4096) (lg_buf l) = drop (?n * 4096) buf"
    using seg_holds_zero_tail[OF assms(4), of "?n * 4096"] nb n assms(5) by (simp add: assms(3))
  then have all: "?img ?n @ drop (?n * 4096) (lg_buf l) = buf" by (simp add: pre)
  have "length (lg_buf l) = LOG_SEGMENT_BYTES" by (simp add: assms(3))
  from read_loop[OF assms(1,2) h n this, unfolded all] obtain d' where
    d': "for_each (read_into_buf io l (segment_to_block l (lg_head l))) [0..<?n] (d, lg_buf l) = (Ok (), (d', buf))"
      "good d'" "blk d' = blk d" by blast
  have "count_records buf (lg_off l) 64 0 = Some (0 + of_nat (length rs))"
    using assms(4,5) off lb
    by (intro count_records_all[where n = "LOG_SEGMENT_BYTES - 64 - length (img rs)"]) (auto simp: seg_holds_def)
  moreover have "min (max ?n 1) LOG_SEGMENT_BLOCKS = ?n" using n n1 by simp
  ultimately show ?thesis using d' by (simp add: reload_head_segment_def Let_def)
qed

end

text \<open>A header whose size is a multiple of \<open>2 ^ 32\<close> makes the recount loop run forever.\<close>

lemma count_records_diverges:
  assumes "offset < head_offset" "offset + 64 \<le> length buf" "offset < U32"
    "op_from_u8 (rh_op (rh_decode (slice_of buf offset 64))) \<noteq> None"
    "unat (rh_total_size (rh_decode (slice_of buf offset 64))) mod U32 = 0"
  shows "count_records buf head_offset offset count = None"
proof -
  let ?P = "\<lambda>b ho off c (y :: u32). b = buf \<longrightarrow> ho = head_offset \<longrightarrow> off \<noteq> offset"
  have "?P buf head_offset off c y" if "count_records buf head_offset off c = Some y" for off c y
  proof (rule count_records.raw_induct[of ?P, OF _ that])
    fix f b ho o' c' y'
    assume IH: "\<And>b ho o' c' y'. f b ho o' c' = Some y' \<Longrightarrow> ?P b ho o' c' y'"
      and s: "(if o' < ho then if length b < o' + 64 then Some c'
           else let hdr = rh_decode (slice_of b o' 64)
                in if op_from_u8 (rh_op hdr) = None then Some c'
                   else f b ho ((o' + unat (rh_total_size hdr) mod U32) mod U32) (c' + 1)
           else Some c') = Some y'"
    show "?P b ho o' c' y'"
    proof (intro impI notI)
      assume "b = buf" "ho = head_offset" "o' = offset"
      then have "f buf head_offset offset (c' + 1) = Some y'" using s assms by (auto simp: Let_def)
      from IH[OF this] show False by simp
    qed
  qed
  then show ?thesis by (cases "count_records buf head_offset offset count") auto
qed

subsection \<open>Scanning arbitrary bytes\<close>

text \<open>
  Whatever the bytes of a segment are, the scan of one segment ends: a record that is visited
  lies inside the buffer, so the offset grows.
\<close>

lemma total_size_bounds:
  assumes "unat (rh_payload_len h) \<le> LOG_SEGMENT_BYTES"
  shows "unat (rh_total_size h) mod U32 = record_size (unat (rh_payload_len h))"
    "64 \<le> record_size (unat (rh_payload_len h))" "record_size (unat (rh_payload_len h)) \<le> LOG_SEGMENT_BYTES + 71"
  using record_size_bounds[of "unat (rh_payload_len h)"] assms by (simp_all add: unat_rh_total_size)

lemma scan_records_total:
  assumes "length buf = LOG_SEGMENT_BYTES"
  shows "\<exists>x. scan_records visitor buf limit offset highest s = Some x"
proof (induction "LOG_SEGMENT_BYTES - offset" arbitrary: offset highest s rule: less_induct)
  case less
  define hdr where "hdr = rh_decode (slice_of buf offset 64)"
  define n where "n = unat (rh_payload_len hdr)"
  show ?case
  proof (cases "offset + 64 > length buf \<or> offset + 64 + n > length buf")
    case True
    then show ?thesis
      by (subst scan_records.simps) (auto simp: Let_def n_def[symmetric] hdr_def[symmetric])
  next
    case False
    then have n: "n \<le> LOG_SEGMENT_BYTES" "offset + 64 \<le> LOG_SEGMENT_BYTES" using assms by auto
    note t = total_size_bounds[of hdr, folded n_def, OF n(1)]
    have "(offset + record_size n) mod U32 = offset + record_size n" using t(3) n(2) by simp
    moreover have "\<exists>x. scan_records visitor buf limit (offset + record_size n) h s' = Some x" for h s'
      by (rule less.hyps) (use t(2) n(2) in simp)
    ultimately show ?thesis
      by (subst scan_records.simps)
        (simp add: Let_def n_def[symmetric] hdr_def[symmetric] t(1) split: prod.split)
  qed
qed

text \<open>And every record it hands to the visitor is intact.\<close>

lemma scan_records_visits:
  assumes "length buf = LOG_SEGMENT_BYTES" "limit \<le> LOG_SEGMENT_BYTES"
    "scan_records visitor buf limit offset highest s = Some (r, h', s')"
  shows "\<exists>rs. (\<forall>x\<in>set rs. rec_ok x) \<and> visit_all visitor rs highest s = (r, h', s')"
  using assms(3)
proof (induction "LOG_SEGMENT_BYTES - offset" arbitrary: offset highest s rule: less_induct)
  case less
  define hdr where "hdr = rh_decode (slice_of buf offset 64)"
  define n where "n = unat (rh_payload_len hdr)"
  define p where "p = slice_of buf (offset + 64) n"
  let ?crc = "crc32c_two (rh_encode (hdr\<lparr>rh_record_crc32c := 0\<rparr>)) p"
  define visited where "visited \<longleftrightarrow> offset + 64 \<le> limit \<and> op_from_u8 (rh_op hdr) \<noteq> None \<and>
    offset + 64 + n \<le> length buf \<and> ?crc = rh_record_crc32c hdr"
  note S = less.prems[unfolded scan_records.simps[of visitor buf limit offset], folded hdr_def, unfolded Let_def, folded n_def, folded p_def]
  show ?case
  proof (cases "visited \<and> (offset + unat (rh_total_size hdr) mod U32) mod U32 \<le> LOG_SEGMENT_BYTES")
    case False
    then have "(r, h', s') = (Ok (), highest, s)"
      using S assms(1,2) unfolding visited_def by (auto split: if_splits)
    then show ?thesis by (intro exI[of _ "[]"]) simp
  next
    case True
    then have n: "n \<le> LOG_SEGMENT_BYTES" "offset + 64 \<le> LOG_SEGMENT_BYTES" "offset + 64 + n \<le> length buf"
      using assms by (auto simp: visited_def)
    note t = total_size_bounds[of hdr, folded n_def, OF n(1)]
    obtain v s1 where v: "visitor hdr p s = (v, s1)" by fastforce
    have m: "(offset + record_size n) mod U32 = offset + record_size n" using t(3) n(2) by simp
    have ok: "rec_ok (hdr, p)"
      using True n(3) by (simp add: rec_ok_def visited_def p_def n_def)
    have S': "(if v = Ok () then scan_records visitor buf limit (offset + record_size n) (rh_lsn hdr) s1
        else Some (v, rh_lsn hdr, s1)) = Some (r, h', s')"
      using S True assms(1,2) unfolding visited_def by (auto simp: t(1) m v)
    show ?thesis
    proof (cases "v = Ok ()")
      case True
      with S' have "scan_records visitor buf limit (offset + record_size n) (rh_lsn hdr) s1 = Some (r, h', s')" by simp
      moreover have "LOG_SEGMENT_BYTES - (offset + record_size n) < LOG_SEGMENT_BYTES - offset" using t(2) n(2) by linarith
      ultimately obtain rs where "\<forall>x\<in>set rs. rec_ok x" "visit_all visitor rs (rh_lsn hdr) s1 = (r, h', s')"
        using less.hyps by blast
      then show ?thesis using True ok by (intro exI[of _ "(hdr, p) # rs"]) (simp add: v)
    next
      case False
      with S' show ?thesis using ok by (intro exI[of _ "[(hdr, p)]"]) (simp add: v)
    qed
  qed
qed

lemma visit_all_no_divergence:
  "(\<And>h p s. fst (visitor h p s) \<noteq> Diverges) \<Longrightarrow> fst (visit_all visitor rs highest s) \<noteq> Diverges"
  by (induction visitor rs highest s rule: visit_all.induct) (auto split: prod.split simp: prod_eq_iff)

text \<open>What the trait promises of a successful read: it fills the buffer.\<close>

definition io_wf :: "'d block_io \<Rightarrow> bool" where
  "io_wf io \<longleftrightarrow> (\<forall>lba n d. case fst (read_blocks io lba n d) of Some bs \<Rightarrow> length bs = n | None \<Rightarrow> True)"

lemma io_wf_mem: "io_wf mem_io"
  by (simp add: io_wf_def mem_io_def mem_read_blocks_def Let_def)

lemma io_read_wf:
  assumes "io_wf io"
  shows "case io_read io lba n d of (Ok bs, _) \<Rightarrow> length bs = n | (Err _, _) \<Rightarrow> True | _ \<Rightarrow> False"
  using assms by (auto simp: io_wf_def io_read_def split: prod.splits option.splits) (metis fst_conv option.simps(5))

lemma read_into_buf_wf:
  assumes "io_wf io"
  shows "length (snd (snd (read_into_buf io l seg i (d, buf)))) = length buf"
    "fst (read_into_buf io l seg i (d, buf)) \<noteq> Diverges"
  using io_read_wf[OF assms, where lba = "abs_lba l (seg + of_nat i)" and n = 4096 and d = d]
  by (auto simp: read_into_buf_def read_seg_block_def split: prod.splits result.splits)


lemma for_each_read_wf:
  assumes "io_wf io"
  shows "length (snd (snd (for_each (read_into_buf io l seg) is (d, buf)))) = length buf \<and>
    fst (for_each (read_into_buf io l seg) is (d, buf)) \<noteq> Diverges"
proof (induction "is" arbitrary: d buf)
  case (Cons i "is")
  obtain r d' buf' where r: "read_into_buf io l seg i (d, buf) = (r, (d', buf'))" by (metis prod.collapse)
  then show ?case using read_into_buf_wf[OF assms, of l seg i d buf] Cons[of d' buf'] by (cases r) simp_all
qed simp

lemma ring_step:
  assumes "(h :: nat) < n" "s < n" "s \<noteq> h"
  shows "(h + n - (s + 1) mod n) mod n < (h + n - s) mod n"
proof (cases "s + 1 < n")
  case True
  show ?thesis
  proof (cases "s < h")
    case True
    then have e: "h + n - s = (h - s) + n" "h + n - (s + 1) mod n = (h - s - 1) + n" using assms by auto
    have "(h + n - s) mod n = h - s" "(h + n - (s + 1) mod n) mod n = h - s - 1"
      unfolding e mod_add_self2 using assms by (simp_all only: mod_less less_imp_diff_less)
    then show ?thesis using True by linarith
  qed (use assms True in simp)
next
  case False
  then have s: "s = n - 1" "Suc h < n" using assms by auto
  then have "(s + 1) mod n = 0" "h + n - s = Suc h" using assms by auto
  then show ?thesis using s by simp
qed

text \<open>The walk over the ring ends too, at the head.\<close>

lemma scan_segments_total:
  assumes "io_wf io" "lg_head l < lg_segs l" "lg_segs l < U64" "length (lg_buf l) = LOG_SEGMENT_BYTES"
    and "lg_off l \<le> LOG_SEGMENT_BYTES" and "\<And>h p s. fst (visitor h p s) \<noteq> Diverges"
    and "seg < lg_segs l" "length seg_buf = LOG_SEGMENT_BYTES"
  shows "\<exists>x. scan_segments io l start start_offset visitor seg seg_buf highest d s = Some x \<and> fst x \<noteq> Diverges"
  using assms(7,8)
proof (induction "(lg_head l + lg_segs l - seg) mod lg_segs l" arbitrary: seg seg_buf highest d s rule: less_induct)
  case less
  have nz: "lg_segs l \<noteq> 0" using assms(2) by simp
  have m: "Suc seg mod U64 = Suc seg" using less.prems(1) assms(3) by simp
  have next_seg: "\<exists>x. scan_segments io l start start_offset visitor ((seg + 1) mod lg_segs l) sb hi d' s' = Some x \<and> fst x \<noteq> Diverges"
    if "seg \<noteq> lg_head l" "length sb = LOG_SEGMENT_BYTES" for sb hi d' s'
    by (rule less.hyps) (use ring_step[OF assms(2) less.prems(1) that(1)] that nz in simp_all)
  have records: "\<exists>r h s'. scan_records visitor b lim o' hi s = Some (r, h, s') \<and> r \<noteq> Diverges"
    if b: "length b = LOG_SEGMENT_BYTES" "lim \<le> LOG_SEGMENT_BYTES" for b lim o' hi s
  proof -
    obtain r h s' where x: "scan_records visitor b lim o' hi s = Some (r, h, s')"
      using scan_records_total[OF b(1)] by (metis prod.collapse)
    from scan_records_visits[OF b x] obtain rs where "visit_all visitor rs hi s = (r, h, s')" by blast
    then have "r \<noteq> Diverges" using visit_all_no_divergence[of visitor rs hi s, OF assms(6)] by simp
    with x show ?thesis by blast
  qed
  define fo where "fo = (if seg = start then start_offset else 64)"
  show ?case
  proof (cases "seg = lg_head l")
    case True
    from records[OF assms(4,5)] obtain r h s' where
      "scan_records visitor (lg_buf l) (lg_off l) fo highest s = Some (r, h, s')" "r \<noteq> Diverges" by blast
    then show ?thesis using True unfolding fo_def
      by (subst scan_segments.simps) (cases r; cases "seg = start"; simp add: Let_def)
  next
    case False
    obtain r d' sb where f: "for_each (read_into_buf io l (segment_to_block l seg)) [0..<div_ceil LOG_SEGMENT_BYTES BLOCK_SIZE] (d, seg_buf)
        = (r, (d', sb))" by (metis prod.collapse)
    with for_each_read_wf[OF assms(1), of l "segment_to_block l seg" "[0..<div_ceil LOG_SEGMENT_BYTES BLOCK_SIZE]" d seg_buf] less.prems(2)
    have r: "r \<noteq> Diverges" "length sb = LOG_SEGMENT_BYTES" by auto
    from records[OF r(2) order_refl] obtain r2 h s' where
      s2: "scan_records visitor sb LOG_SEGMENT_BYTES fo highest s = Some (r2, h, s')" "r2 \<noteq> Diverges" by blast
    show ?thesis
      using next_seg[OF False r(2), of h d' s'] next_seg[OF False less.prems(2), of highest d s] nz f r s2 False m
      unfolding fo_def
      by (subst scan_segments.simps) (cases r; cases r2; cases "seg = start"; simp add: Let_def)
  qed
qed

subsection \<open>Mounting a flushed log\<close>

context partition
begin

lemma remount_rep:
  assumes "good d" "log_ok plba dbs nb l0" "lg_buf l0 = replicate LOG_SEGMENT_BYTES 0"
    and "log_rep bm l rss" "same_ring l l0" "lg_head l0 = lg_head l" "lg_off l0 = lg_off l" "lg_tail l0 = lg_tail l"
    and "\<And>b. seg_base l 0 \<le> b \<Longrightarrow> b < seg_base l (lg_segs l) \<Longrightarrow> blk d b = bm b"
    and "take (div_ceil (lg_off l) BLOCK_SIZE * 4096) (seg_img bm l (lg_head l)) =
      take (div_ceil (lg_off l) BLOCK_SIZE * 4096) (lg_buf l)"
    and "l1 = l0\<lparr>lg_buf := lg_buf l, lg_count := of_nat (length (last rss))\<rparr>"
  shows "\<exists>d'. reload_head_segment io (d, l0) = (Ok (), (d', l1)) \<and> good d' \<and> blk d' = blk d \<and>
    log_ok plba dbs nb l1 \<and> log_rep (blk d') l1 rss"
proof -
  have segs: "lg_segs l0 = lg_segs l" "seg_base l0 = seg_base l"
    using assms(5) by (auto simp: same_ring_def seg_base_def fun_eq_iff)
  have h: "lg_head l < lg_segs l" "lg_segs l \<noteq> 0" using assms(2,6) segs by (auto simp: log_ok_def)
  have si: "seg_img (blk d) l0 s = seg_img bm l s" if "s < lg_segs l" for s
  proof -
    have "s * 256 + 256 \<le> lg_segs l * 256" using that by simp
    then show ?thesis using assms(9) segs(2)
      by (auto simp: seg_img_def seg_base_def intro!: arg_cong[of _ _ concat] map_cong)
  qed
  have hold: "seg_holds (lg_buf l) (last rss)" "lg_off l = 64 + length (img (last rss))"
    using assms(4) by (auto simp: log_rep_def)
  have "take (div_ceil (lg_off l0) BLOCK_SIZE * 4096) (seg_img (blk d) l0 (lg_head l0)) =
     take (div_ceil (lg_off l0) BLOCK_SIZE * 4096) (lg_buf l)"
    using assms(10) si[OF h(1)] assms(6,7) by simp
  from reload_ok[OF assms(1-3) hold(1) _ this] hold(2) assms(7) obtain d' where
    d': "reload_head_segment io (d, l0) = (Ok (), (d', l1))" "good d'" "blk d' = blk d"
    unfolding assms(11) by auto
  have l1: "seg_base l1 = seg_base l" "ring_dist l1 = ring_dist l" "\<And>i. ring_seg l1 i = ring_seg l i" "lg_buf l1 = lg_buf l"
    "lg_off l1 = lg_off l"
    using assms(6-8,11) segs by (simp_all add: seg_base_def ring_dist_def ring_seg_def fun_eq_iff)
  have "seg_img (blk d') l1 s = seg_img bm l s" if "s < lg_segs l" for s
    using si[OF that] d'(3) l1(1) segs(2) by (simp add: seg_img_def)
  moreover have "ring_seg l i < lg_segs l" for i using h by (simp add: ring_seg_def)
  ultimately have "log_rep (blk d') l1 rss" using assms(4) l1 by (simp add: log_rep_def)
  moreover have "log_ok plba dbs nb l1"
    using assms(2,11) hold(1) by (simp add: log_ok_def seg_base_def seg_holds_def)
  ultimately show ?thesis using d' by blast
qed

end

subsection \<open>Properties\<close>

text \<open>
  C15: Appending to a ring that has room adds exactly one record: the call returns the next LSN,
  the bytes on the device and in the head buffer hold the old records followed by the new one,
  and a later \<open>scan_forward\<close> from the tail runs the visitor on exactly that sequence. This
  covers both the append into the head segment and the switch to the next segment.
\<close>

theorem append_then_scan:
  assumes "mempart.good plba dbs nb d" "log_ok plba dbs nb l" "log_rep (mempart.blk plba dbs d) l rss"
    and "record_size (length payload) \<le> 4096"
    and "lg_off l + record_size (length payload) \<le> LOG_SEGMENT_BYTES \<or> (lg_head l + 1) mod lg_segs l \<noteq> lg_tail l"
    and "r = (seal_record (record_header (lg_next_lsn l) op fl ph sh tx payload ts) payload, payload)"
  shows "\<exists>d' l' rss'. append_full mem_io op fl ph sh tx payload ts (d, l) = (Ok (lg_next_lsn l), (d', l')) \<and>
    lg_next_lsn l' = lg_next_lsn l + 1 \<and> concat rss' = concat rss @ [r] \<and>
    log_ok plba dbs nb l' \<and> log_rep (mempart.blk plba dbs d') l' rss' \<and>
    (case visit_all visitor (concat rss @ [r]) 0 s of (v, h, s') \<Rightarrow>
       \<exists>d''. scan_forward mem_io l' (lg_tail l') 64 visitor d' s = (res_bind v (\<lambda>_. Ok h), d'', s'))"
proof -
  have rss: "rss \<noteq> []" using assms(3) by (auto simp: log_rep_def)
  obtain d' l' rss' where a: "append_full mem_io op fl ph sh tx payload ts (d, l) = (Ok (lg_next_lsn l), (d', l'))"
      "lg_next_lsn l' = lg_next_lsn l + 1" "concat rss' = concat rss @ [r]" "mempart.good plba dbs nb d'"
      "log_ok plba dbs nb l'" "log_rep (mempart.blk plba dbs d') l' rss'"
  proof (cases "lg_off l + record_size (length payload) \<le> LOG_SEGMENT_BYTES")
    case True
    have "concat (butlast rss @ [last rss @ [r]]) = concat rss @ [r]"
      using rss by (cases rss rule: rev_cases) auto
    with mempart.append_fits[OF assms(2,3,1) True assms(6)] assms(1) show ?thesis using that by blast
  next
    case False
    then have f: "LOG_SEGMENT_BYTES < lg_off l + record_size (length payload)" "(lg_head l + 1) mod lg_segs l \<noteq> lg_tail l"
      using assms(5) by auto
    have "concat (rss @ [[r]]) = concat rss @ [r]" by simp
    with mempart.append_switch[OF assms(1-4) f assms(6)] show ?thesis using that by blast
  qed
  obtain v h s' where v: "visit_all visitor (concat rss') 0 s = (v, h, s')" by (metis prod.collapse)
  from mempart.scan_forward_rep[OF a(4-6) v] obtain d'' where
    "scan_forward mem_io l' (lg_tail l') 64 visitor d' s = (res_bind v (\<lambda>_. Ok h), d'', s')" by blast
  with a v show ?thesis by auto
qed

text \<open>An empty ring of two segments on the small partition.\<close>

definition demo_log :: log_engine where
  "demo_log = \<lparr>lg_start = 2, lg_end = 514, lg_segs = 2, lg_head = 0, lg_off = 64, lg_tail = 0,
     lg_next_lsn = 1, lg_buf = replicate LOG_SEGMENT_BYTES 0, lg_count = 0, lg_plba = 0, lg_dbs = 512\<rparr>"

lemma demo_log_ok: "log_ok 0 512 1024 demo_log"
  by (simp add: log_ok_def demo_log_def seg_base_def)

lemma demo_log_rep: "log_rep bm demo_log [[]]"
  by (simp add: log_rep_def demo_log_def ring_dist_def seg_holds_def img_def)

theorem append_then_scan_witness:
  "\<exists>d' l'. append_full mem_io MkDir 0 1 0 0 [2, 0, 47, 97] 7 (demo_dev, demo_log) = (Ok 1, (d', l')) \<and>
     (\<exists>d''. scan_forward mem_io l' (lg_tail l') 64 (\<lambda>h p n. (Ok (), Suc n)) d' (0 :: nat) = (Ok 1, d'', 1))"
proof -
  have n: "lg_next_lsn demo_log = 1" "lg_off demo_log = 64" by (simp_all add: demo_log_def)
  have p: "record_size (length [2 :: u8, 0, 47, 97]) \<le> 4096" by (simp add: record_size_def)
  then have o': "lg_off demo_log + record_size (length [2 :: u8, 0, 47, 97]) \<le> LOG_SEGMENT_BYTES \<or>
      (lg_head demo_log + 1) mod lg_segs demo_log \<noteq> lg_tail demo_log" by (simp add: n)
  from append_then_scan[OF demo_good demo_log_ok demo_log_rep p o' refl, of MkDir 0 1 0 0 7 "\<lambda>h p n. (Ok (), Suc n)" 0]
  show ?thesis by (auto simp: n seal_record_def record_header_def)
qed

text \<open>
  C25: When the next segment is the tail and the record does not fit into the head segment, the
  append fails with \<open>LogFull\<close> and changes neither the device nor the engine.
\<close>

theorem append_log_full:
  assumes "log_ok plba dbs nb l" "log_rep bm l rss" "record_size (length payload) \<le> 4096"
    and "lg_off l + record_size (length payload) > LOG_SEGMENT_BYTES" "(lg_head l + 1) mod lg_segs l = lg_tail l"
  shows "append_full mem_io op fl ph sh tx payload ts (d, l) = (Err LogFull, (d, l))"
  by (rule mempart.append_full_err[OF assms])

text \<open>A ring of one segment that one record fills completely.\<close>

definition full_record :: log_record where
  "full_record = (let p = replicate 1048448 0 in (seal_record (record_header 1 Append 0 0 0 0 p 0) p, p))"

definition full_log :: log_engine where
  "full_log = demo_log\<lparr>lg_segs := 1, lg_off := LOG_SEGMENT_BYTES, lg_buf := replicate 64 0 @ rec_bytes full_record\<rparr>"

lemma full_log_rep: "log_rep bm full_log [[full_record]]"
proof -
  have "rec_ok full_record" unfolding full_record_def Let_def by (rule rec_ok_seal) simp
  moreover have "length (snd full_record) = 1048448" by (simp add: full_record_def Let_def)
  then have "length (rec_bytes full_record) = 1048512"
    by (simp add: rec_bytes_def record_size_def)
  ultimately show ?thesis
    by (simp add: log_rep_def full_log_def ring_dist_def seg_holds_def img_def)
qed

lemma full_log_ok: "log_ok 0 512 1024 full_log"
  using full_log_rep[of undefined]
  by (simp add: log_rep_def seg_holds_def log_ok_def seg_base_def) (simp add: full_log_def demo_log_def)

theorem append_log_full_witness:
  "append_full mem_io MkDir 0 1 0 0 [2, 0, 47, 97] 7 (demo_dev, full_log) = (Err LogFull, (demo_dev, full_log))"
  by (rule append_log_full[OF full_log_ok full_log_rep])
    (simp_all add: record_size_def full_log_def demo_log_def)

text \<open>
  C16: The log is durable: after \<open>flush\<close>, an engine created from a superblock that records the
  head, its offset and the tail reloads its head segment without error, on any device state
  that agrees on the blocks of the ring, and then holds exactly the same records.
\<close>

theorem flushed_log_survives_remount:
  assumes "mempart.good plba dbs nb d" "log_ok plba dbs nb l" "log_rep (mempart.blk plba dbs d) l rss"
    and sb: "sb_log_start_block sb = lg_start l" "sb_log_end_block sb = lg_end l"
      "unat (sb_log_segment_count sb) = lg_segs l" "unat (sb_log_head_segment sb) = lg_head l"
      "unat (sb_log_head_offset sb) = lg_off l" "unat (sb_log_tail_segment sb) = lg_tail l"
  shows "\<exists>d1 l1. log_flush mem_io (d, l) = (Ok (lg_next_lsn l - 1), (d1, l1)) \<and>
    (\<forall>d2. mempart.good plba dbs nb d2 \<and>
          (\<forall>b. seg_base l 0 \<le> b \<and> b < seg_base l (lg_segs l) \<longrightarrow> mempart.blk plba dbs d2 b = mempart.blk plba dbs d1 b) \<longrightarrow>
       (\<exists>d3 l3. reload_head_segment mem_io (d2, log_new sb plba dbs) = (Ok (), (d3, l3)) \<and>
          log_ok plba dbs nb l3 \<and> log_rep (mempart.blk plba dbs d3) l3 rss))"
proof -
  let ?l1 = "l\<lparr>lg_buf := seal_header l\<rparr>"
  from mempart.log_flush_rep[OF assms(1-3)] obtain d1 where
    d1: "log_flush mem_io (d, l) = (Ok (lg_next_lsn l - 1), (d1, ?l1))" "log_ok plba dbs nb ?l1"
      "log_rep (mempart.blk plba dbs d1) ?l1 rss"
      "take (div_ceil (lg_off l) BLOCK_SIZE * 4096) (seg_img (mempart.blk plba dbs d1) l (lg_head l)) =
       take (div_ceil (lg_off l) BLOCK_SIZE * 4096) (seal_header l)" by blast
  have l0: "log_ok plba dbs nb (log_new sb plba dbs)" "same_ring ?l1 (log_new sb plba dbs)"
    using assms(2) sb by (simp_all add: log_ok_def log_new_def seg_base_def same_ring_def)
  have "\<exists>d3 l3. reload_head_segment mem_io (d2, log_new sb plba dbs) = (Ok (), (d3, l3)) \<and>
          log_ok plba dbs nb l3 \<and> log_rep (mempart.blk plba dbs d3) l3 rss"
    if g: "mempart.good plba dbs nb d2"
      and b: "\<And>b. seg_base l 0 \<le> b \<Longrightarrow> b < seg_base l (lg_segs l) \<Longrightarrow> mempart.blk plba dbs d2 b = mempart.blk plba dbs d1 b" for d2
    using mempart.remount_rep[OF g l0(1) _ d1(3) l0(2) _ _ _ _ _ refl] d1(4) sb b
    by (simp add: log_new_def seg_base_def seg_img_def) blast
  with d1(1) show ?thesis by blast
qed

theorem flushed_log_survives_remount_witness:
  "\<exists>d1 l1 d3 l3. log_flush mem_io (demo_dev, demo_log) = (Ok 0, (d1, l1)) \<and>
     reload_head_segment mem_io (d1, log_new (sb_zeroed\<lparr>sb_log_start_block := 2, sb_log_end_block := 514,
       sb_log_segment_count := 2, sb_log_head_offset := 64\<rparr>) 0 512) = (Ok (), (d3, l3))"
proof -
  let ?sb = "sb_zeroed\<lparr>sb_log_start_block := 2, sb_log_end_block := 514, sb_log_segment_count := 2,
    sb_log_head_offset := 64\<rparr>"
  from mempart.log_flush_rep[OF demo_good demo_log_ok demo_log_rep] obtain d1 where
    d1: "log_flush mem_io (demo_dev, demo_log) = (Ok (lg_next_lsn demo_log - 1), (d1, demo_log\<lparr>lg_buf := seal_header demo_log\<rparr>))"
      "mempart.good 0 512 1024 d1" by blast
  have "\<exists>d3 l3. reload_head_segment mem_io (d1, log_new ?sb 0 512) = (Ok (), (d3, l3))"
    using flushed_log_survives_remount[OF demo_good demo_log_ok demo_log_rep, of ?sb] d1
    by (simp add: demo_log_def sb_zeroed_def) blast
  moreover have "lg_next_lsn demo_log - 1 = 0" by (simp add: demo_log_def)
  ultimately show ?thesis using d1 by metis
qed

text \<open>
  C23: The scan always ends: for any bytes on the device and any
  device that fills the buffer of a successful read, \<open>scan_forward\<close> from any segment of the
  ring returns, unless a call of the visitor does not.
\<close>

theorem scan_forward_terminates:
  assumes "io_wf io" "lg_head l < lg_segs l" "lg_segs l < U64" "length (lg_buf l) = LOG_SEGMENT_BYTES"
    and "lg_off l \<le> LOG_SEGMENT_BYTES" "start < lg_segs l" "\<forall>h p s. fst (visitor h p s) \<noteq> Diverges"
  shows "fst (scan_forward io l start start_offset visitor d s) \<noteq> Diverges"
proof -
  from scan_segments_total[OF assms(1-5), of visitor start "replicate LOG_SEGMENT_BYTES 0" start start_offset 0 d s] assms(6,7)
  obtain x where "scan_segments io l start start_offset visitor start (replicate LOG_SEGMENT_BYTES 0) 0 d s = Some x"
    "fst x \<noteq> Diverges" by auto
  then show ?thesis by (simp add: scan_forward_def)
qed

theorem scan_forward_terminates_witness:
  "fst (scan_forward mem_io demo_log 1 64 (\<lambda>h p n. (Ok (), Suc n)) demo_dev 0) \<noteq> Diverges"
  by (rule scan_forward_terminates[OF io_wf_mem]) (simp_all add: demo_log_def)



lemma size_wraps_to_zero:
  assumes "U32 - 71 \<le> unat (rh_payload_len h)" "unat (rh_payload_len h) \<le> U32 - 64"
  shows "unat (rh_total_size h) mod U32 = 0"
proof -
  have "(unat (rh_payload_len h) + 71) div 8 = U32 div 8" using assms by simp
  then show ?thesis by (simp add: unat_rh_total_size record_size_def)
qed

context partition
begin

lemma reload_diverges:
  assumes "good d" "log_ok plba dbs nb l" "64 < lg_off l" "lg_off l \<le> LOG_SEGMENT_BYTES"
    and "op_from_u8 (rh_op (rh_decode (slice_of (blk d (seg_base l (lg_head l))) 64 64))) \<noteq> None"
    and "unat (rh_total_size (rh_decode (slice_of (blk d (seg_base l (lg_head l))) 64 64))) mod U32 = 0"
  shows "fst (reload_head_segment io (d, l)) = Diverges"
proof -
  let ?n = "div_ceil (lg_off l) BLOCK_SIZE"
  have n: "?n \<le> 256"
    using div_ceil_mono[of 4096 "lg_off l" "256 * 4096"] assms(4) by (simp add: div_ceil_def)
  have "lg_off l \<le> ?n * 4096" by (rule div_ceil_bounds(1)) simp
  then have n1: "1 \<le> ?n" using assms(3) by (cases ?n) auto
  have h: "lg_head l < lg_segs l" "length (lg_buf l) = LOG_SEGMENT_BYTES" using assms(2) by (simp_all add: log_ok_def)
  let ?buf = "concat (map (\<lambda>i. blk d (seg_base l (lg_head l) + i)) [0..<?n]) @ drop (?n * 4096) (lg_buf l)"
  from read_loop[OF assms(1,2) h(1) n h(2)] obtain d' where
    d': "for_each (read_into_buf io l (segment_to_block l (lg_head l))) [0..<?n] (d, lg_buf l) = (Ok (), (d', ?buf))" by blast
  have "[0..<?n] = 0 # [1..<?n]" using n1 by (simp add: upt_conv_Cons)
  then have e: "?buf = blk d (seg_base l (lg_head l)) @ (concat (map (\<lambda>i. blk d (seg_base l (lg_head l) + i)) [1..<?n]) @ drop (?n * 4096) (lg_buf l))"
    by (simp only: list.map concat.simps append_assoc add_0_right)
  have s: "slice_of ?buf 64 64 = slice_of (blk d (seg_base l (lg_head l))) 64 64"
    unfolding e by (rule slice_append1) simp
  have "length ?buf \<ge> 4096" unfolding e by simp
  with assms(3,5,6) have "count_records ?buf (lg_off l) 64 0 = None"
    by (intro count_records_diverges) (simp_all only: s, simp_all)
  moreover have "min (max ?n 1) LOG_SEGMENT_BLOCKS = ?n" using n n1 by simp
  ultimately show ?thesis using d' by (simp add: reload_head_segment_def Let_def)
qed

end

text \<open>
  C26: A corrupt head segment can make the mount hang: when the first record header of the head
  segment has a known operation code and a payload length between \<open>2^32 - 71\<close> and
  \<open>2^32 - 64\<close>, the size truncated to 32 bits is zero and \<open>reload_head_segment\<close> does not return.
\<close>

theorem reload_hangs_on_wrapped_size:
  assumes "mempart.good plba dbs nb d" "log_ok plba dbs nb l" "64 < lg_off l" "lg_off l \<le> LOG_SEGMENT_BYTES"
    and "hdr = rh_decode (slice_of (mempart.blk plba dbs d (seg_base l (lg_head l))) 64 64)"
    and "op_from_u8 (rh_op hdr) \<noteq> None"
    and "U32 - 71 \<le> unat (rh_payload_len hdr)" "unat (rh_payload_len hdr) \<le> U32 - 64"
  shows "fst (reload_head_segment mem_io (d, l)) = Diverges"
  using mempart.reload_diverges[OF assms(1-4)] assms(6) size_wraps_to_zero[OF assms(7,8)] unfolding assms(5) by blast

definition corrupt_dev :: mem_block_device where
  "corrupt_dev = demo_dev\<lparr>md_mem := (\<lambda>a. if a = 8272 then 1 else if a = 8276 then 0xC0
     else if a = 8277 \<or> a = 8278 \<or> a = 8279 then 0xFF else 0)\<rparr>"

theorem reload_hangs_on_wrapped_size_witness:
  "fst (reload_head_segment mem_io (corrupt_dev, demo_log\<lparr>lg_off := 136\<rparr>)) = Diverges"
proof (rule reload_hangs_on_wrapped_size[OF _ _ _ _ refl])
  let ?l = "demo_log\<lparr>lg_off := 136\<rparr>"
  define hb where "hb = slice_of (mempart.blk 0 512 corrupt_dev (seg_base ?l (lg_head ?l))) 64 64"
  have b: "slice_of hb a n = view_bytes (mem_view corrupt_dev) (8256 + a) n" if "a + n \<le> 64" for a n
    using that by (simp add: hb_def mempart.blk_def seg_base_def demo_log_def slice_slice slice_view_bytes add.commute)
  have v: "mem_view corrupt_dev i = (if i = 8272 then 1 else if i = 8276 then 0xC0
     else if i = 8277 \<or> i = 8278 \<or> i = 8279 then 0xFF else 0)" if "i < 10000" for i
  proof -
    have "(of_nat i :: u64) = of_nat j \<longleftrightarrow> i = j" if "j < 10000" for j
      using that \<open>i < 10000\<close> by (simp add: of_nat_eq_iff unat_of_nat word_unat_eq_iff take_bit_eq_mod)
    from this[of 8272] this[of 8276] this[of 8277] this[of 8278] this[of 8279] that show ?thesis
      by (simp add: mem_view_def corrupt_dev_def demo_dev_def mem_cap_def)
  qed
  have "rh_op (rh_decode hb) = 1" by (simp add: rh_decode_def b) (simp add: view_bytes_def v)
  then show "op_from_u8 (rh_op (rh_decode (slice_of (mempart.blk 0 512 corrupt_dev (seg_base ?l (lg_head ?l))) 64 64))) \<noteq> None"
    unfolding hb_def[symmetric] by (simp add: op_from_u8_def)
  have "rh_payload_len (rh_decode hb) = 0xFFFFFFC0"
    by (simp add: rh_decode_def b) (simp add: view_bytes_def v upt_rec)
  then show "U32 - 71 \<le> unat (rh_payload_len (rh_decode (slice_of (mempart.blk 0 512 corrupt_dev (seg_base ?l (lg_head ?l))) 64 64)))"
    "unat (rh_payload_len (rh_decode (slice_of (mempart.blk 0 512 corrupt_dev (seg_base ?l (lg_head ?l))) 64 64))) \<le> U32 - 64"
    unfolding hb_def[symmetric] by simp_all
  show "mempart.good 0 512 1024 corrupt_dev"
    using demo_good by (simp add: mempart.good_def corrupt_dev_def mem_ok_def mem_cap_def mem_secsz_def)
  show "log_ok 0 512 1024 ?l" using demo_log_ok by (simp add: log_ok_def seg_base_def)
qed simp_all

end
