(* ===== verification/Helix_Index.thy ===== *)
theory Helix_Index
  imports Helix_Types
begin

text \<open>
  \<^verbatim>\<open>helix/src/index/btree.rs\<close>: the namespace index, a vector of entries sorted by
  \<open>(key, path bytes)\<close> and searched by bisection, with tombstones for deleted paths that
  \<open>compact\<close> drops. The abstract view is a partial map from paths to live entries
  (\<open>ns\<close>); every operation is shown to act on that map as a map update, and the interface the
  file-system operations rely on is the locale \<open>namespace\<close>. The path helpers
  and \<open>validate_path\<close> follow. A \<open>&str\<close> is its bytes.
\<close>

abbreviation SLASH :: u8 where "SLASH \<equiv> 0x2F"
abbreviation DOT :: u8 where "DOT \<equiv> 0x2E"

subsection \<open>String primitives of the Rust standard library\<close>

fun utf8_valid :: "bytes \<Rightarrow> bool" where
  "utf8_valid [] = True"
| "utf8_valid (a # r) =
     (if a < 0x80 then utf8_valid r
      else if 0xC2 \<le> a \<and> a \<le> 0xDF then
        (case r of b # r1 \<Rightarrow> 0x80 \<le> b \<and> b \<le> 0xBF \<and> utf8_valid r1 | _ \<Rightarrow> False)
      else if 0xE0 \<le> a \<and> a \<le> 0xEF then
        (case r of b # c # r2 \<Rightarrow>
           (if a = 0xE0 then 0xA0 \<le> b \<and> b \<le> 0xBF
            else if a = 0xED then 0x80 \<le> b \<and> b \<le> 0x9F else 0x80 \<le> b \<and> b \<le> 0xBF)
           \<and> 0x80 \<le> c \<and> c \<le> 0xBF \<and> utf8_valid r2 | _ \<Rightarrow> False)
      else if 0xF0 \<le> a \<and> a \<le> 0xF4 then
        (case r of b # c # d # r3 \<Rightarrow>
           (if a = 0xF0 then 0x90 \<le> b \<and> b \<le> 0xBF
            else if a = 0xF4 then 0x80 \<le> b \<and> b \<le> 0x8F else 0x80 \<le> b \<and> b \<le> 0xBF)
           \<and> 0x80 \<le> c \<and> c \<le> 0xBF \<and> 0x80 \<le> d \<and> d \<le> 0xBF \<and> utf8_valid r3 | _ \<Rightarrow> False)
      else False)"

definition ends_with_slash :: "bytes \<Rightarrow> bool" where
  "ends_with_slash p = (p \<noteq> [] \<and> last p = SLASH)"

definition trim_end_slash :: "bytes \<Rightarrow> bytes" where
  "trim_end_slash p = rev (dropWhile (\<lambda>b. b = SLASH) (rev p))"

primrec rfind_slash :: "bytes \<Rightarrow> nat option" where
  "rfind_slash [] = None"
| "rfind_slash (b # bs) = (case rfind_slash bs of Some i \<Rightarrow> Some (Suc i)
     | None \<Rightarrow> if b = SLASH then Some 0 else None)"

fun contains_slash2 :: "bytes \<Rightarrow> bool" where
  "contains_slash2 (a # b # r) = (a = SLASH \<and> b = SLASH \<or> contains_slash2 (b # r))"
| "contains_slash2 _ = False"

primrec split_slash :: "bytes \<Rightarrow> bytes list" where
  "split_slash [] = [[]]"
| "split_slash (b # bs) = (if b = SLASH then [] # split_slash bs
     else (case split_slash bs of c # cs \<Rightarrow> (b # c) # cs | [] \<Rightarrow> [[b]]))"

definition starts_with :: "bytes \<Rightarrow> bytes \<Rightarrow> bool" where
  "starts_with p pre = (take (length pre) p = pre)"

text \<open>\<open>slice::binary_search_by\<close>: \<open>Ok\<close> the position of a match, \<open>Err\<close> the insertion point.\<close>

function binary_search :: "'a::linorder \<Rightarrow> 'a list \<Rightarrow> nat \<Rightarrow> nat \<Rightarrow> (nat, nat) result" where
  "binary_search k ks left right =
     (if left < right then
        let mid = left + (right - left) div 2 in
        if ks ! mid < k then binary_search k ks (mid + 1) right
        else if k < ks ! mid then binary_search k ks left mid
        else Ok mid
      else Err left)"
  by pat_completeness auto
termination by (relation "measure (\<lambda>(k, ks, l, r). r - l)") auto

declare binary_search.simps [simp del]

subsection \<open>Paths in entries\<close>

definition path_bytes :: "bytes \<Rightarrow> bytes" where
  "path_bytes buf = takeWhile (\<lambda>b. b \<noteq> 0) buf"

definition path_str :: "bytes \<Rightarrow> bytes" where
  "path_str buf = (let b = path_bytes buf in if utf8_valid b then b else [])"

definition set_path :: "bytes \<Rightarrow> bytes \<Rightarrow> bytes" where
  "set_path buf path = (let len = min (length path) MAX_PATH_LEN;
       buf = splice buf 0 (take len path)
     in if len < 256 then buf[len := 0] else buf)"

definition filename :: "bytes \<Rightarrow> bytes" where
  "filename path = (if path = [SLASH] then [SLASH]
     else let path = trim_end_slash path in
       case rfind_slash path of Some idx \<Rightarrow> drop (idx + 1) path | None \<Rightarrow> path)"

definition parent_path :: "bytes \<Rightarrow> bytes" where
  "parent_path path = (if path = [SLASH] then [SLASH]
     else let path = trim_end_slash path in
       case rfind_slash path of Some idx \<Rightarrow> (if idx = 0 then [SLASH] else take (idx + 1) path)
         | None \<Rightarrow> [SLASH])"

definition validate_path :: "bytes \<Rightarrow> unit hres" where
  "validate_path path =
     (if path = [] \<or> hd path \<noteq> SLASH then Err PathInvalid
      else if length path > MAX_PATH_LEN then Err PathTooLong
      else if contains_slash2 path then Err PathInvalid
      else if list_ex (\<lambda>comp. comp = [DOT] \<or> comp = [DOT, DOT]) (split_slash path) then Err PathInvalid
      else Ok ())"

subsection \<open>The index\<close>

type_synonym index = "index_entry list"

abbreviation live :: "index_entry \<Rightarrow> bool" where
  "live e \<equiv> e_flags e AND IS_DELETED = 0"

definition live_count :: "index \<Rightarrow> nat" where
  "live_count ix = length (filter live ix)"

definition entry_ord :: "index_entry \<Rightarrow> u64 \<times> bytes" where
  "entry_ord e = (e_key e, path_bytes (e_path e))"

definition find_pos :: "index \<Rightarrow> u64 \<Rightarrow> bytes \<Rightarrow> (nat, nat) result" where
  "find_pos ix key path = binary_search (key, path) (map entry_ord ix) 0 (length ix)"

definition lookup :: "index \<Rightarrow> bytes \<Rightarrow> index_entry option" where
  "lookup ix path = (case find_pos ix (fnv1a_64 path) path of
       Ok idx \<Rightarrow> (let entry = ix ! idx in if e_flags entry AND IS_DELETED \<noteq> 0 then None else Some entry)
     | _ \<Rightarrow> None)"

definition lookup_flex :: "index \<Rightarrow> bytes \<Rightarrow> index_entry option" where
  "lookup_flex ix path = (case lookup ix path of Some entry \<Rightarrow> Some entry
     | None \<Rightarrow> if \<not> ends_with_slash path then lookup ix (path @ [SLASH])
         else if length path > 1 then lookup ix (butlast path) else None)"

text \<open>A \<open>&mut IndexEntry\<close> into the vector is its position.\<close>

definition lookup_mut :: "index \<Rightarrow> bytes \<Rightarrow> nat option" where
  "lookup_mut ix path = (case find_pos ix (fnv1a_64 path) path of
       Ok idx \<Rightarrow> (if e_flags (ix ! idx) AND IS_DELETED \<noteq> 0 then None else Some idx)
     | _ \<Rightarrow> None)"

definition lookup_flex_mut :: "index \<Rightarrow> bytes \<Rightarrow> nat option" where
  "lookup_flex_mut ix path =
     (if lookup ix path \<noteq> None then lookup_mut ix path
      else if \<not> ends_with_slash path then
        (if lookup ix (path @ [SLASH]) \<noteq> None then lookup_mut ix (path @ [SLASH]) else None)
      else if length path > 1 then
        (if lookup ix (butlast path) \<noteq> None then lookup_mut ix (butlast path) else None)
      else None)"

text \<open>\<open>slice::partition_point\<close> for the keys below \<open>key\<close>, and the scan of the equal keys.\<close>

function partition_point :: "('a \<Rightarrow> bool) \<Rightarrow> 'a list \<Rightarrow> nat \<Rightarrow> nat \<Rightarrow> nat" where
  "partition_point P xs left right =
     (if left < right then
        let mid = left + (right - left) div 2 in
        if P (xs ! mid) then partition_point P xs (mid + 1) right else partition_point P xs left mid
      else left)"
  by pat_completeness auto
termination by (relation "measure (\<lambda>(P, xs, l, r). r - l)") auto

declare partition_point.simps [simp del]

fun scan_key :: "u64 \<Rightarrow> index \<Rightarrow> index_entry option" where
  "scan_key key [] = None"
| "scan_key key (entry # es) = (if e_key entry \<noteq> key then None
     else if e_flags entry AND IS_DELETED = 0 then Some entry else scan_key key es)"

definition lookup_by_key :: "index \<Rightarrow> u64 \<Rightarrow> index_entry option" where
  "lookup_by_key ix key =
     scan_key key (drop (partition_point (\<lambda>e. e_key e < key) ix 0 (length ix)) ix)"

definition compact :: "index \<Rightarrow> index" where
  "compact ix = filter (\<lambda>e. e_flags e AND IS_DELETED = 0) ix"

text \<open>\<open>upsert\<close>: the replacement or insertion, then the automatic compaction.\<close>

definition put_entry :: "index \<Rightarrow> index_entry \<Rightarrow> index" where
  "put_entry ix entry = (case find_pos ix (e_key entry) (path_bytes (e_path entry)) of
       Ok idx \<Rightarrow> ix[idx := entry]
     | Err idx \<Rightarrow> take idx ix @ entry # drop idx ix
     | _ \<Rightarrow> ix)"

definition upsert :: "index \<Rightarrow> index_entry \<Rightarrow> index" where
  "upsert ix entry =
     (let ix' = put_entry ix entry;
        total_n = length ix';
        live_n = live_count ix'
      in if total_n \<ge> 512 \<and> total_n > min (live_n * 2) (U64 - 1) then compact ix' else ix')"

definition mark_deleted_pos :: "index \<Rightarrow> bytes \<Rightarrow> nat hres" where
  "mark_deleted_pos ix path = (case find_pos ix (fnv1a_64 path) path of
       Ok i \<Rightarrow> Ok i
     | _ \<Rightarrow>
       (let alt = (if \<not> ends_with_slash path then Some (path @ [SLASH])
                   else if length path > 1 then Some (butlast path) else None)
        in case alt of None \<Rightarrow> Err NotFound
           | Some alt \<Rightarrow> (case find_pos ix (fnv1a_64 alt) alt of Ok i \<Rightarrow> Ok i | _ \<Rightarrow> Err NotFound)))"

definition mark_deleted :: "index \<Rightarrow> bytes \<Rightarrow> unit hres \<times> index" where
  "mark_deleted ix path = (case mark_deleted_pos ix path of
       Ok idx \<Rightarrow> (Ok (), ix[idx := (ix ! idx)\<lparr>e_flags := e_flags (ix ! idx) OR IS_DELETED\<rparr>])
     | Err e \<Rightarrow> (Err e, ix) | Panic \<Rightarrow> (Panic, ix) | Diverges \<Rightarrow> (Diverges, ix))"

definition is_direct_child :: "bytes \<Rightarrow> bool" where
  "is_direct_child remainder =
     (let slash_count = length (filter (\<lambda>b. b = SLASH) remainder)
      in slash_count = 0 \<or> slash_count = 1 \<and> remainder \<noteq> [] \<and> last remainder = SLASH)"

definition readdir :: "index \<Rightarrow> bytes \<Rightarrow> index" where
  "readdir ix parent = filter (\<lambda>entry.
       let e_path = path_bytes (e_path entry) in
       e_flags entry AND IS_DELETED = 0 \<and> starts_with e_path parent \<and> e_path \<noteq> parent \<and>
       is_direct_child (drop (length parent) e_path)) ix"

definition make_file_entry ::
    "bytes \<Rightarrow> u64 \<Rightarrow> u64 \<Rightarrow> u64 \<Rightarrow> bytes option \<Rightarrow> u64 \<Rightarrow> u64 \<Rightarrow> index_entry" where
  "make_file_entry path lsn sz timestamp_ns inline_data extent_root content_crc64 =
     (let entry = entry_zeroed\<lparr>e_key := fnv1a_64 path, e_path := set_path (e_path entry_zeroed) path,
            e_lsn := lsn, e_size := sz, e_created_ns := timestamp_ns, e_modified_ns := timestamp_ns,
            e_version_count := 1, e_first_lsn := lsn, e_content_crc64 := content_crc64\<rparr>
      in case inline_data of
           Some data \<Rightarrow>
             (if length data \<le> INLINE_DATA_SIZE then
                entry\<lparr>e_flags := e_flags entry OR IS_INLINE,
                      e_inline_data := splice (e_inline_data entry) 0 data, e_extent_root := BLOCK_NULL\<rparr>
              else entry\<lparr>e_extent_root := extent_root\<rparr>)
         | None \<Rightarrow> entry\<lparr>e_extent_root := extent_root\<rparr>)"

definition make_dir_entry :: "bytes \<Rightarrow> u64 \<Rightarrow> u64 \<Rightarrow> index_entry" where
  "make_dir_entry path lsn timestamp_ns =
     entry_zeroed\<lparr>e_key := fnv1a_64 path, e_path := set_path (e_path entry_zeroed) path,
       e_flags := IS_DIR, e_lsn := lsn, e_created_ns := timestamp_ns, e_modified_ns := timestamp_ns,
       e_version_count := 1, e_first_lsn := lsn\<rparr>"

subsection \<open>Bisection finds the entry of a path\<close>

lemma binary_search_spec:
  assumes "sorted_wrt (<) ks" "l \<le> r" "r \<le> length ks"
    "\<forall>i<l. ks ! i < k" "\<forall>i. r \<le> i \<and> i < length ks \<longrightarrow> k < ks ! i"
  shows "case binary_search k ks l r of Ok i \<Rightarrow> i < length ks \<and> ks ! i = k
     | Err i \<Rightarrow> i \<le> length ks \<and> (\<forall>j<i. ks ! j < k) \<and> (\<forall>j. i \<le> j \<and> j < length ks \<longrightarrow> k < ks ! j)
     | _ \<Rightarrow> False"
  using assms
proof (induction k ks l r rule: binary_search.induct)
  case (1 k ks left right)
  define mid where "mid = left + (right - left) div 2"
  show ?case
  proof (cases "left < right")
    case False
    then show ?thesis using 1 by (subst binary_search.simps) auto
  next
    case True
    then have mid: "left \<le> mid" "mid < right" by (auto simp: mid_def)
    consider (lt) "ks ! mid < k" | (gt) "k < ks ! mid" | (eq) "ks ! mid = k" by fastforce
    then show ?thesis
    proof cases
      case lt
      have "\<forall>i<mid + 1. ks ! i < k"
      proof (intro allI impI)
        fix i assume "i < mid + 1"
        then show "ks ! i < k"
          using lt sorted_wrt_nth_less[OF 1(3), of i mid] mid 1(5) by (cases "i = mid") auto
      qed
      then show ?thesis using 1(1)[OF True mid_def lt] 1(3-7) lt mid True
        by (subst binary_search.simps) (simp add: Let_def flip: mid_def)
    next
      case gt
      have "\<forall>i. mid \<le> i \<and> i < length ks \<longrightarrow> k < ks ! i"
      proof (intro allI impI)
        fix i assume i: "mid \<le> i \<and> i < length ks"
        then show "k < ks ! i"
          using gt sorted_wrt_nth_less[OF 1(3), of mid i] by (cases "i = mid") auto
      qed
      then show ?thesis using 1(2)[OF True mid_def _ gt] 1(3-7) gt mid True less_not_sym[OF gt]
        by (subst binary_search.simps) (simp add: Let_def flip: mid_def)
    next
      case eq
      then show ?thesis using True mid 1(3-7)
        by (subst binary_search.simps) (simp add: Let_def flip: mid_def)
    qed
  qed
qed

definition entry_ok :: "index_entry \<Rightarrow> bool" where
  "entry_ok e \<longleftrightarrow> entry_wf e \<and> e_key e = fnv1a_64 (path_bytes (e_path e))"

definition index_inv :: "index \<Rightarrow> bool" where
  "index_inv ix \<longleftrightarrow> sorted_wrt (<) (map entry_ord ix) \<and> (\<forall>e\<in>set ix. entry_ok e)"

abbreviation epath :: "index_entry \<Rightarrow> bytes" where "epath e \<equiv> path_bytes (e_path e)"

lemma find_pos_cases:
  assumes "sorted_wrt (<) (map entry_ord ix)"
  obtains (found) i where "find_pos ix key path = Ok i" "i < length ix" "entry_ord (ix ! i) = (key, path)"
  | (absent) i where "find_pos ix key path = Err i" "i \<le> length ix"
      "\<forall>e\<in>set (take i ix). entry_ord e < (key, path)" "\<forall>e\<in>set (drop i ix). (key, path) < entry_ord e"
proof -
  have "case find_pos ix key path of Ok i \<Rightarrow> i < length ix \<and> map entry_ord ix ! i = (key, path)
     | Err i \<Rightarrow> i \<le> length ix \<and> (\<forall>j<i. map entry_ord ix ! j < (key, path)) \<and>
         (\<forall>j. i \<le> j \<and> j < length ix \<longrightarrow> (key, path) < map entry_ord ix ! j)
     | _ \<Rightarrow> False"
    using binary_search_spec[OF assms, of 0 "length ix" "(key, path)"]
    unfolding find_pos_def length_map by (metis less_nat_zero_code le0 order_refl leD)
  then consider i where "find_pos ix key path = Ok i" "i < length ix" "entry_ord (ix ! i) = (key, path)"
    | i where "find_pos ix key path = Err i" "i \<le> length ix" "\<forall>j<i. entry_ord (ix ! j) < (key, path)"
        "\<forall>j. i \<le> j \<and> j < length ix \<longrightarrow> (key, path) < entry_ord (ix ! j)"
    by (cases "find_pos ix key path") auto
  then show ?thesis
  proof cases
    case 1
    then show ?thesis by (rule found)
  next
    case 2
    then show ?thesis by (intro absent) (auto simp: in_set_conv_nth)
  qed
qed

lemma sorted_ord_inj:
  assumes "sorted_wrt (<) (map entry_ord ix)" "e \<in> set ix" "e' \<in> set ix" "entry_ord e = entry_ord e'"
  shows "e = e'"
proof -
  have "distinct (map entry_ord ix)"
    using assms(1) strict_sorted_iff by blast
  then show ?thesis using assms by (auto simp: distinct_map inj_on_def)
qed

text \<open>The abstract view: the live entry of a path.\<close>

definition ns :: "index \<Rightarrow> bytes \<Rightarrow> index_entry option" where
  "ns ix p = find (\<lambda>e. live e \<and> epath e = p) ix"

lemma index_inv_inj:
  "index_inv ix \<Longrightarrow> e \<in> set ix \<Longrightarrow> e' \<in> set ix \<Longrightarrow> epath e = epath e' \<Longrightarrow> e = e'"
  by (rule sorted_ord_inj[of ix]) (auto simp: index_inv_def entry_ok_def entry_ord_def)

lemma ns_Some_iff:
  assumes "index_inv ix"
  shows "ns ix p = Some e \<longleftrightarrow> e \<in> set ix \<and> live e \<and> epath e = p"
proof
  assume "ns ix p = Some e"
  then show "e \<in> set ix \<and> live e \<and> epath e = p" by (auto simp: ns_def find_Some_iff)
next
  assume e: "e \<in> set ix \<and> live e \<and> epath e = p"
  then obtain e' where e': "ns ix p = Some e'"
    by (cases "ns ix p") (auto simp: ns_def find_None_iff)
  then have "e' \<in> set ix \<and> epath e' = p" by (auto simp: ns_def find_Some_iff)
  with e index_inv_inj[OF assms, of e e'] e' show "ns ix p = Some e" by simp
qed

lemma ns_None_iff: "ns ix p = None \<longleftrightarrow> (\<forall>e\<in>set ix. live e \<longrightarrow> epath e \<noteq> p)"
  by (auto simp: ns_def find_None_iff)

lemma ns_eqI:
  assumes "index_inv ix" "index_inv iy"
    "\<And>e. e \<in> set ix \<and> live e \<and> epath e = p \<longleftrightarrow> e \<in> set iy \<and> live e \<and> epath e = q"
  shows "ns ix p = ns iy q"
  using assms(3) ns_Some_iff[OF assms(1), of p] ns_Some_iff[OF assms(2), of q]
  by (cases "ns ix p"; cases "ns iy q") auto

lemma index_inv_Nil [simp]: "index_inv []"
  by (simp add: index_inv_def)

lemma ns_Nil [simp]: "ns [] p = None"
  by (simp add: ns_def)

lemma ns_filter_live [simp]: "ns (filter live ix) p = ns ix p"
  by (induction ix) (auto simp: ns_def)

lemma find_pos_index:
  assumes "index_inv ix"
  obtains (found) i where "find_pos ix (fnv1a_64 p) p = Ok i" "i < length ix" "epath (ix ! i) = p"
  | (absent) i where "find_pos ix (fnv1a_64 p) p = Err i" "\<forall>e\<in>set ix. epath e \<noteq> p"
proof -
  have s: "sorted_wrt (<) (map entry_ord ix)" using assms by (simp add: index_inv_def)
  from s show ?thesis
  proof (cases rule: find_pos_cases[where key = "fnv1a_64 p" and path = p])
    case (found i)
    then show ?thesis by (intro that(1)) (auto simp: entry_ord_def)
  next
    case (absent i)
    have "set ix = set (take i ix) \<union> set (drop i ix)"
      by (metis append_take_drop_id set_append)
    with absent assms have "epath e \<noteq> p" if "e \<in> set ix" for e
      using that by (force simp: index_inv_def entry_ok_def entry_ord_def)
    with absent show ?thesis by (intro that(2)) auto
  qed
qed

theorem lookup_ns:
  assumes "index_inv ix" shows "lookup ix p = ns ix p"
  using assms
proof (cases rule: find_pos_index[where p = p])
  case (found i)
  then have m: "ix ! i \<in> set ix" by simp
  show ?thesis
  proof (cases "live (ix ! i)")
    case True
    then show ?thesis using found m ns_Some_iff[OF assms, of p "ix ! i"] by (simp add: lookup_def Let_def)
  next
    case False
    then have "ns ix p = None"
      using found m index_inv_inj[OF assms _ m] by (auto simp: ns_None_iff)
    then show ?thesis using False found by (simp add: lookup_def Let_def)
  qed
next
  case (absent i)
  then have "ns ix p = None" by (simp add: ns_None_iff)
  then show ?thesis using absent by (simp add: lookup_def)
qed

subsection \<open>Every operation acts on the path map\<close>

lemma index_inv_filter: "index_inv ix \<Longrightarrow> index_inv (filter P ix)"
  by (auto simp: index_inv_def sorted_wrt_map sorted_wrt_filter)

lemma index_inv_compact: "index_inv ix \<Longrightarrow> index_inv (compact ix)"
  by (simp add: compact_def index_inv_filter)

lemma ns_compact [simp]: "ns (compact ix) = ns ix"
  by (simp add: compact_def fun_eq_iff)

lemma set_take_drop: "set ix = set (take i ix) \<union> set (drop i ix)"
  by (metis append_take_drop_id set_append)

lemma put_entry_spec:
  assumes "index_inv ix" "entry_ok e"
  shows "set (put_entry ix e) = insert e {x \<in> set ix. epath x \<noteq> epath e}" "index_inv (put_entry ix e)"
proof -
  have s: "sorted_wrt (<) (map entry_ord ix)" and ok: "\<forall>x\<in>set ix. entry_ok x"
    using assms(1) by (auto simp: index_inv_def)
  have eq: "entry_ord x = entry_ord e \<longleftrightarrow> epath x = epath e" if "x \<in> set ix" for x
    using that ok assms(2) by (auto simp: entry_ord_def entry_ok_def)
  have "set (put_entry ix e) = insert e {x \<in> set ix. epath x \<noteq> epath e} \<and> index_inv (put_entry ix e)"
    using s
  proof (cases rule: find_pos_cases[where key = "e_key e" and path = "epath e"])
    case (found i)
    then have o: "entry_ord (ix ! i) = entry_ord e" by (simp add: entry_ord_def)
    have p: "put_entry ix e = ix[i := e]" using found by (simp add: put_entry_def)
    have "map entry_ord (ix[i := e]) = map entry_ord ix"
      using found(2) o by (simp add: map_update list_update_same_conv)
    then have inv: "index_inv (ix[i := e])"
      using s ok assms(2) set_update_subset_insert[of ix i e] by (auto simp: index_inv_def)
    have "distinct ix" using s strict_sorted_iff distinct_map by blast
    then have "set (ix[i := e]) = insert e (set ix - {ix ! i})" using found(2) by (rule set_update_distinct)
    moreover have "set ix - {ix ! i} = {x \<in> set ix. epath x \<noteq> epath e}"
    proof (intro set_eqI iffI)
      fix x assume "x \<in> set ix - {ix ! i}"
      then show "x \<in> {x \<in> set ix. epath x \<noteq> epath e}"
        using eq[of x] o sorted_ord_inj[OF s, of x "ix ! i"] found(2) by auto
    next
      fix x assume "x \<in> {x \<in> set ix. epath x \<noteq> epath e}"
      then show "x \<in> set ix - {ix ! i}" using eq[of "ix ! i"] o found(2) by auto
    qed
    ultimately show ?thesis using inv p by simp
  next
    case (absent i)
    have p: "put_entry ix e = take i ix @ e # drop i ix" using absent by (simp add: put_entry_def)
    have o: "(e_key e, epath e) = entry_ord e" by (simp add: entry_ord_def)
    have lt: "\<forall>x\<in>set (take i ix). entry_ord x < entry_ord e" "\<forall>x\<in>set (drop i ix). entry_ord e < entry_ord x"
      using absent(3,4) unfolding o by auto
    have cross: "\<forall>x\<in>set (take i ix). \<forall>y\<in>set (drop i ix). entry_ord x < entry_ord y"
      using lt by (meson order.strict_trans)
    have "sorted_wrt (<) (map entry_ord (take i ix))" "sorted_wrt (<) (map entry_ord (drop i ix))"
      using s by (simp_all add: take_map[symmetric] drop_map[symmetric] sorted_wrt_take sorted_wrt_drop)
    then have "sorted_wrt (<) (map entry_ord (put_entry ix e))"
      unfolding p using lt cross by (simp add: sorted_wrt_append)
    moreover have st: "set (put_entry ix e) = insert e (set ix)"
      unfolding p using set_take_drop[of ix i] by auto
    moreover have "\<forall>x\<in>set ix. entry_ord x \<noteq> entry_ord e"
    proof
      fix x assume "x \<in> set ix"
      then have "x \<in> set (take i ix) \<or> x \<in> set (drop i ix)" using set_take_drop[of ix i] by blast
      then show "entry_ord x \<noteq> entry_ord e" using lt by auto
    qed
    then have "{x \<in> set ix. epath x \<noteq> epath e} = set ix" using eq by auto
    ultimately show ?thesis using ok assms(2) by (simp add: index_inv_def)
  qed
  then show "set (put_entry ix e) = insert e {x \<in> set ix. epath x \<noteq> epath e}" "index_inv (put_entry ix e)"
    by auto
qed

lemma upsert_cases: "upsert ix e = put_entry ix e \<or> upsert ix e = compact (put_entry ix e)"
  by (simp add: upsert_def Let_def)

lemma index_inv_upsert: "index_inv ix \<Longrightarrow> entry_ok e \<Longrightarrow> index_inv (upsert ix e)"
  using upsert_cases[of ix e] put_entry_spec(2)[of ix e] index_inv_compact[of "put_entry ix e"] by auto

lemma ns_upsert:
  assumes "index_inv ix" "entry_ok e"
  shows "ns (upsert ix e) = (ns ix)(epath e := if live e then Some e else None)"
proof -
  note P = put_entry_spec[OF assms]
  have "ns (put_entry ix e) p = ((ns ix)(epath e := if live e then Some e else None)) p" for p
  proof (cases "p = epath e")
    case True
    then show ?thesis
      using ns_Some_iff[OF P(2), of p e] by (auto simp: P(1) ns_None_iff)
  next
    case False
    then have "ns (put_entry ix e) p = ns ix p"
      by (intro ns_eqI P(2) assms(1)) (auto simp: P(1))
    with False show ?thesis by simp
  qed
  then show ?thesis using upsert_cases[of ix e] by (auto simp: fun_eq_iff)
qed

lemma ns_put_entry:
  "index_inv ix \<Longrightarrow> entry_ok e \<Longrightarrow> ns (put_entry ix e) = (ns ix)(epath e := if live e then Some e else None)"
  using ns_upsert[of ix e] upsert_cases[of ix e] by (auto simp: fun_eq_iff)

lemma list_update_put:
  assumes "index_inv ix" "i < length ix" "entry_ord e = entry_ord (ix ! i)"
  shows "ix[i := e] = put_entry ix e"
proof -
  have s: "sorted_wrt (<) (map entry_ord ix)" using assms(1) by (simp add: index_inv_def)
  have e: "entry_ord (ix ! i) = (e_key e, epath e)" using assms(3) by (simp add: entry_ord_def)
  from s show ?thesis
  proof (cases rule: find_pos_cases[where key = "e_key e" and path = "epath e"])
    case (found j)
    have "distinct ix" using s strict_sorted_iff distinct_map by blast
    moreover have "ix ! i = ix ! j"
      using sorted_ord_inj[OF s, of "ix ! i" "ix ! j"] found assms(2) e by simp
    ultimately have "i = j" using assms(2) found(2) by (simp add: nth_eq_iff_index_eq)
    with found show ?thesis by (simp add: put_entry_def)
  next
    case (absent j)
    have "ix ! i \<in> set (take j ix) \<or> ix ! i \<in> set (drop j ix)"
      using set_take_drop[of ix j] assms(2) nth_mem by blast
    with absent e have False by auto
    then show ?thesis ..
  qed
qed

lemma update_entry:
  assumes "index_inv ix" "i < length ix" "entry_ord e = entry_ord (ix ! i)" "entry_wf e"
  shows "index_inv (ix[i := e])" "ns (ix[i := e]) = (ns ix)(epath e := if live e then Some e else None)"
proof -
  have "entry_ok e" using assms by (auto simp: index_inv_def entry_ok_def entry_ord_def dest!: nth_mem)
  then show "index_inv (ix[i := e])" "ns (ix[i := e]) = (ns ix)(epath e := if live e then Some e else None)"
    using put_entry_spec(2)[OF assms(1)] ns_put_entry[OF assms(1)]
    by (simp_all only: list_update_put[OF assms(1-3)])
qed

lemma or_IS_DELETED: "(w OR IS_DELETED) AND IS_DELETED \<noteq> 0"
proof -
  have "bit (IS_DELETED) 1" by (simp add: IS_DELETED_def bit_numeral_rec)
  then have "bit ((w OR IS_DELETED) AND IS_DELETED) 1" by (auto simp only: bit_and_iff bit_or_iff)
  then show ?thesis by (metis bit_0_eq bot_apply bot_bool_def)
qed

definition has_slot :: "index \<Rightarrow> bytes \<Rightarrow> bool" where
  "has_slot ix p \<longleftrightarrow> (\<exists>e\<in>set ix. epath e = p)"

lemma ns_has_slot: "ns ix p = Some e \<Longrightarrow> has_slot ix p"
  by (auto simp: has_slot_def ns_def find_Some_iff)

text \<open>The other spelling of a path: with and without a trailing slash.\<close>

definition alt_form :: "bytes \<Rightarrow> bytes option" where
  "alt_form p = (if \<not> ends_with_slash p then Some (p @ [SLASH])
     else if length p > 1 then Some (butlast p) else None)"

definition delete_target :: "index \<Rightarrow> bytes \<Rightarrow> bytes option" where
  "delete_target ix p = (if has_slot ix p then Some p
     else case alt_form p of Some q \<Rightarrow> if has_slot ix q then Some q else None | None \<Rightarrow> None)"

lemma find_pos_slot:
  assumes "index_inv ix"
  shows "if has_slot ix p then \<exists>i. find_pos ix (fnv1a_64 p) p = Ok i \<and> i < length ix \<and> epath (ix ! i) = p
    else \<exists>i. find_pos ix (fnv1a_64 p) p = Err i"
  using assms
proof (cases rule: find_pos_index[where p = p])
  case (found i)
  then have "has_slot ix p" by (auto simp: has_slot_def)
  with found show ?thesis by auto
next
  case (absent i)
  then have "\<not> has_slot ix p" by (auto simp: has_slot_def)
  with absent show ?thesis by auto
qed

lemma mark_deleted_pos_spec:
  assumes "index_inv ix"
  shows "case delete_target ix p of
      Some q \<Rightarrow> \<exists>i. mark_deleted_pos ix p = Ok i \<and> i < length ix \<and> epath (ix ! i) = q
    | None \<Rightarrow> mark_deleted_pos ix p = Err NotFound"
proof (cases "has_slot ix p")
  case True
  with find_pos_slot[OF assms, of p] show ?thesis by (auto simp: delete_target_def mark_deleted_pos_def)
next
  case False
  with find_pos_slot[OF assms, of p] obtain j where j: "find_pos ix (fnv1a_64 p) p = Err j" by auto
  show ?thesis
  proof (cases "alt_form p")
    case None
    with False j show ?thesis
      by (auto simp: delete_target_def mark_deleted_pos_def alt_form_def split: if_splits)
  next
    case (Some q)
    then have "mark_deleted_pos ix p = (case find_pos ix (fnv1a_64 q) q of Ok i \<Rightarrow> Ok i | _ \<Rightarrow> Err NotFound)"
      using j by (auto simp: mark_deleted_pos_def alt_form_def split: if_splits)
    then show ?thesis
      using False Some find_pos_slot[OF assms, of q]
      by (cases "has_slot ix q") (auto simp: delete_target_def)
  qed
qed

lemma mark_deleted_spec:
  assumes "index_inv ix"
  shows "case delete_target ix p of
      Some q \<Rightarrow> \<exists>ix'. mark_deleted ix p = (Ok (), ix') \<and> index_inv ix' \<and> ns ix' = (ns ix)(q := None)
    | None \<Rightarrow> mark_deleted ix p = (Err NotFound, ix)"
proof (cases "delete_target ix p")
  case None
  with mark_deleted_pos_spec[OF assms, of p] show ?thesis by (simp add: mark_deleted_def)
next
  case (Some q)
  with mark_deleted_pos_spec[OF assms, of p] obtain i where
    i: "mark_deleted_pos ix p = Ok i" "i < length ix" "epath (ix ! i) = q" by auto
  let ?e = "(ix ! i)\<lparr>e_flags := e_flags (ix ! i) OR IS_DELETED\<rparr>"
  have wf: "entry_wf ?e" using assms i by (auto simp: index_inv_def entry_ok_def entry_wf_def dest!: nth_mem)
  have o: "entry_ord ?e = entry_ord (ix ! i)" by (simp add: entry_ord_def)
  have "epath ?e = q" "\<not> live ?e" using i or_IS_DELETED by simp_all
  with update_entry[OF assms i(2) o wf] i Some show ?thesis by (simp add: mark_deleted_def)
qed

lemma lookup_flex_ns:
  "index_inv ix \<Longrightarrow> lookup_flex ix p =
     (case ns ix p of Some e \<Rightarrow> Some e | None \<Rightarrow> (case alt_form p of Some q \<Rightarrow> ns ix q | None \<Rightarrow> None))"
  by (auto simp: lookup_flex_def lookup_ns alt_form_def split: option.splits)

lemma lookup_mut_spec:
  assumes "index_inv ix"
  shows "case ns ix p of None \<Rightarrow> lookup_mut ix p = None
    | Some e \<Rightarrow> \<exists>i. lookup_mut ix p = Some i \<and> i < length ix \<and> ix ! i = e \<and> epath e = p \<and> live e"
proof -
  have l: "lookup ix p = ns ix p" by (rule lookup_ns[OF assms])
  show ?thesis
  proof (cases "ns ix p")
    case None
    with l show ?thesis by (auto simp: lookup_mut_def lookup_def Let_def split: result.splits if_splits)
  next
    case (Some e)
    then have e: "epath e = p" "live e" using ns_Some_iff[OF assms] by auto
    from Some l obtain i where i: "find_pos ix (fnv1a_64 p) p = Ok i" "ix ! i = e"
      by (auto simp: lookup_def Let_def split: result.splits if_splits)
    have "has_slot ix p" using Some by (rule ns_has_slot)
    with find_pos_slot[OF assms, of p] i have "i < length ix" by auto
    with i e Some show ?thesis by (simp add: lookup_mut_def)
  qed
qed

lemma partition_point_spec:
  assumes "sorted_wrt (\<lambda>x y. P y \<longrightarrow> P x) xs" "l \<le> r" "r \<le> length xs"
    "\<forall>i<l. P (xs ! i)" "\<forall>i. r \<le> i \<and> i < length xs \<longrightarrow> \<not> P (xs ! i)"
  shows "partition_point P xs l r \<le> length xs \<and> (\<forall>i<partition_point P xs l r. P (xs ! i)) \<and>
     (\<forall>i. partition_point P xs l r \<le> i \<and> i < length xs \<longrightarrow> \<not> P (xs ! i))"
  using assms(2-)
proof (induction "r - l" arbitrary: l r rule: less_induct)
  case less
  define mid where "mid = l + (r - l) div 2"
  have step: "partition_point P xs l r =
      (if l < r then if P (xs ! mid) then partition_point P xs (mid + 1) r else partition_point P xs l mid else l)"
    by (subst partition_point.simps) (simp add: Let_def mid_def)
  show ?case
  proof (cases "l < r")
    case False
    then show ?thesis using less.prems unfolding step by auto
  next
    case True
    then have mid: "l \<le> mid" "mid < r" "mid < length xs" using less.prems by (auto simp: mid_def)
    show ?thesis
    proof (cases "P (xs ! mid)")
      case P: True
      have a: "\<forall>i<mid + 1. P (xs ! i)"
      proof (intro allI impI)
        fix i assume "i < mid + 1"
        then show "P (xs ! i)"
          using P sorted_wrt_nth_less[OF assms(1), of i mid] mid by (cases "i = mid") auto
      qed
      have "partition_point P xs l r = partition_point P xs (mid + 1) r" using True P by (simp add: step)
      then show ?thesis using less.hyps[OF _ _ less.prems(2) a less.prems(4)] mid by simp
    next
      case P: False
      have a: "\<forall>i. mid \<le> i \<and> i < length xs \<longrightarrow> \<not> P (xs ! i)"
      proof (intro allI impI)
        fix i assume i: "mid \<le> i \<and> i < length xs"
        show "\<not> P (xs ! i)"
        proof (cases "i = mid")
          case False
          with i sorted_wrt_nth_less[OF assms(1), of mid i] P show ?thesis by simp
        qed (use P in simp)
      qed
      have "partition_point P xs l r = partition_point P xs l mid" using True P by (simp add: step)
      then show ?thesis using less.hyps[OF _ mid(1) _ less.prems(3) a] mid by simp
    qed
  qed
qed

lemma partition_point_full:
  assumes "sorted_wrt (\<lambda>x y. P y \<longrightarrow> P x) xs" "n = partition_point P xs 0 (length xs)"
  shows "n \<le> length xs" "\<forall>i<n. P (xs ! i)" "\<forall>i. n \<le> i \<and> i < length xs \<longrightarrow> \<not> P (xs ! i)"
proof -
  have "n \<le> length xs \<and> (\<forall>i<n. P (xs ! i)) \<and> (\<forall>i. n \<le> i \<and> i < length xs \<longrightarrow> \<not> P (xs ! i))"
    unfolding assms(2) by (rule partition_point_spec[OF assms(1)]) auto
  then show "n \<le> length xs" "\<forall>i<n. P (xs ! i)" "\<forall>i. n \<le> i \<and> i < length xs \<longrightarrow> \<not> P (xs ! i)" by auto
qed

lemma scan_key_Some: "scan_key key es = Some e \<Longrightarrow> e \<in> set es \<and> e_key e = key \<and> live e"
  by (induction key es rule: scan_key.induct) (auto split: if_splits)

lemma scan_key_None:
  "scan_key key es = None \<Longrightarrow> sorted_wrt (\<le>) (map e_key es) \<Longrightarrow> \<forall>e\<in>set es. key \<le> e_key e \<Longrightarrow>
     \<forall>e\<in>set es. e_key e = key \<longrightarrow> \<not> live e"
  by (induction key es rule: scan_key.induct) (fastforce split: if_splits)+

lemma lookup_by_key_spec:
  assumes "index_inv ix"
  shows "case lookup_by_key ix key of Some e \<Rightarrow> e \<in> set ix \<and> e_key e = key \<and> live e
    | None \<Rightarrow> \<forall>e\<in>set ix. e_key e = key \<longrightarrow> \<not> live e"
proof -
  define n where "n = partition_point (\<lambda>e. e_key e < key) ix 0 (length ix)"
  have s: "sorted_wrt (\<lambda>x y. entry_ord x < entry_ord y) ix"
    using assms by (simp add: index_inv_def sorted_wrt_map)
  then have m: "sorted_wrt (\<le>) (map e_key ix)"
    unfolding sorted_wrt_map by (rule sorted_wrt_mono_rel[rotated]) (auto simp: entry_ord_def)
  then have "sorted_wrt (\<lambda>x y. e_key y < key \<longrightarrow> e_key x < key) ix"
    unfolding sorted_wrt_map by (rule sorted_wrt_mono_rel[rotated]) auto
  note n = partition_point_full[OF this n_def]
  have lo: "\<forall>e\<in>set (take n ix). e_key e < key" and hi: "\<forall>e\<in>set (drop n ix). key \<le> e_key e"
    using n by (auto simp: in_set_conv_nth not_less)
  have md: "sorted_wrt (\<le>) (map e_key (drop n ix))"
    using m by (simp add: drop_map[symmetric] sorted_wrt_drop)
  show ?thesis
  proof (cases "lookup_by_key ix key")
    case (Some e)
    then show ?thesis using scan_key_Some[of key "drop n ix" e]
      by (auto simp: lookup_by_key_def n_def dest: in_set_dropD)
  next
    case None
    then have "\<forall>e\<in>set (drop n ix). e_key e = key \<longrightarrow> \<not> live e"
      using scan_key_None[OF _ md hi] by (simp add: lookup_by_key_def n_def)
    then have "\<forall>e\<in>set (take n ix) \<union> set (drop n ix). e_key e = key \<longrightarrow> \<not> live e" using lo by auto
    then have "\<forall>e\<in>set ix. e_key e = key \<longrightarrow> \<not> live e" using set_take_drop[of ix n] by blast
    then show ?thesis using None by simp
  qed
qed

subsection \<open>Entries, paths and directories\<close>

lemma takeWhile_nonzero: "0 \<notin> set p \<Longrightarrow> takeWhile (\<lambda>b. b \<noteq> 0) (p @ replicate n (0::u8)) = p"
  by (induction p) (cases n, auto)

lemma set_path_zero: "length p \<le> MAX_PATH_LEN \<Longrightarrow> set_path (replicate 256 0) p = p @ replicate (256 - length p) 0"
  by (auto simp: set_path_def Let_def splice_def list_update_append list_update_same_conv)

lemma length_set_path [simp]: "length buf = 256 \<Longrightarrow> length (set_path buf p) = 256"
  by (simp add: set_path_def Let_def)

lemma path_bytes_set_path:
  "length p \<le> MAX_PATH_LEN \<Longrightarrow> 0 \<notin> set p \<Longrightarrow> path_bytes (set_path (replicate 256 0) p) = p"
  by (simp add: set_path_zero path_bytes_def takeWhile_nonzero)

definition path_ok :: "bytes \<Rightarrow> bool" where
  "path_ok p \<longleftrightarrow> length p \<le> MAX_PATH_LEN \<and> 0 \<notin> set p"

lemma make_file_entry_ok:
  assumes "path_ok p"
  shows "entry_ok (make_file_entry p lsn sz ts inl root crc)" "epath (make_file_entry p lsn sz ts inl root crc) = p"
    "live (make_file_entry p lsn sz ts inl root crc)"
  using assms path_bytes_set_path[of p]
  by (auto simp: path_ok_def make_file_entry_def entry_ok_def entry_wf_def entry_zeroed_def Let_def
      IS_INLINE_def IS_DELETED_def split: option.splits)

lemma make_dir_entry_ok:
  assumes "path_ok p"
  shows "entry_ok (make_dir_entry p lsn ts)" "epath (make_dir_entry p lsn ts) = p" "live (make_dir_entry p lsn ts)"
  using assms path_bytes_set_path[of p]
  by (simp_all add: path_ok_def make_dir_entry_def entry_ok_def entry_wf_def entry_zeroed_def
      IS_DIR_def IS_DELETED_def)

lemma validate_path_Ok:
  "validate_path p = Ok () \<longleftrightarrow> (\<exists>r. p = SLASH # r) \<and> length p \<le> MAX_PATH_LEN \<and> \<not> contains_slash2 p \<and>
     [DOT] \<notin> set (split_slash p) \<and> [DOT, DOT] \<notin> set (split_slash p)"
  by (cases p) (auto simp: validate_path_def list_ex_iff)

lemma contains_slash2_append: "contains_slash2 (a @ SLASH # SLASH # b)"
  by (induction a rule: contains_slash2.induct) (auto simp: neq_Nil_conv split: list.splits)

lemma rfind_slash_split: "SLASH \<notin> set f \<Longrightarrow> rfind_slash (a @ SLASH # f) = Some (length a)"
proof (induction a)
  case Nil
  then have "rfind_slash f = None" by (induction f) auto
  then show ?case by simp
qed simp

lemma trim_end_slash_snoc: "trim_end_slash (a @ [SLASH]) = trim_end_slash a"
  by (simp add: trim_end_slash_def)

lemma trim_end_slash_id: "f \<noteq> [] \<Longrightarrow> last f \<noteq> SLASH \<Longrightarrow> trim_end_slash (a @ f) = a @ f"
  by (cases f rule: rev_cases) (auto simp: trim_end_slash_def)

text \<open>A file or directory name in its parent: the components of a path.\<close>

definition child_path :: "bytes \<Rightarrow> bytes \<Rightarrow> bytes \<Rightarrow> bool" where
  "child_path d f p \<longleftrightarrow> f \<noteq> [] \<and> SLASH \<notin> set f \<and> ends_with_slash d \<and> (p = d @ f \<or> p = d @ f @ [SLASH])"

lemma child_path_parts:
  assumes "child_path d f p"
  shows "parent_path p = d" "filename p = f"
proof -
  obtain a where d: "d = a @ [SLASH]"
    using assms by (cases d rule: rev_cases) (auto simp: child_path_def ends_with_slash_def)
  have f: "f \<noteq> []" "SLASH \<notin> set f" using assms by (auto simp: child_path_def)
  then have l: "last f \<noteq> SLASH" using last_in_set by metis
  have p: "p = (a @ [SLASH]) @ f \<or> p = ((a @ [SLASH]) @ f) @ [SLASH]" using assms d by (auto simp: child_path_def)
  then have t: "trim_end_slash p = (a @ [SLASH]) @ f"
    using trim_end_slash_id[OF f(1) l, of "a @ [SLASH]"] by (auto simp only: trim_end_slash_snoc)
  have n: "p \<noteq> [SLASH]" using p f by (auto simp: Cons_eq_append_conv append_eq_Cons_conv)
  have r: "rfind_slash (trim_end_slash p) = Some (length a)"
    unfolding t using rfind_slash_split[OF f(2), of a] by simp
  show "parent_path p = d" "filename p = f"
    using n r by (auto simp: parent_path_def filename_def Let_def t d)
qed

lemma valid_path_parts:
  assumes "p = SLASH # r" "\<not> contains_slash2 p" "r \<noteq> []"
  obtains d f where "child_path d f p"
proof -
  obtain t where t: "p = t \<or> p = t @ [SLASH]" "last t \<noteq> SLASH" "SLASH \<in> set t"
  proof (cases "last p = SLASH")
    case False
    then show ?thesis using assms by (intro that[of p]) auto
  next
    case True
    define t where "t = butlast p"
    have p: "p = t @ [SLASH]" using True assms by (simp add: t_def) (metis append_butlast_last_id)
    have "t \<noteq> []" using assms by (auto simp: t_def)
    moreover have "hd t = SLASH" using p assms \<open>t \<noteq> []\<close> by (cases t) auto
    ultimately have "SLASH \<in> set t" using hd_in_set by metis
    moreover have "last t \<noteq> SLASH"
    proof
      assume "last t = SLASH"
      then have "t = butlast t @ [SLASH]" using \<open>t \<noteq> []\<close> by (metis append_butlast_last_id)
      then have "p = butlast t @ SLASH # SLASH # []" using p by (metis append.assoc append_Cons append_Nil)
      with assms(2) contains_slash2_append show False by metis
    qed
    ultimately show ?thesis using p by (intro that[of t]) auto
  qed
  from t(3) obtain a f where af: "t = a @ SLASH # f" "SLASH \<notin> set f" using split_list_last by metis
  then have "f \<noteq> []" using t(2) by auto
  with af t(1) have "child_path (a @ [SLASH]) f p" by (auto simp: child_path_def ends_with_slash_def)
  then show ?thesis by (rule that)
qed

lemma direct_child_iff:
  "is_direct_child x \<longleftrightarrow> SLASH \<notin> set x \<or> (\<exists>f. x = f @ [SLASH] \<and> SLASH \<notin> set f)"
proof -
  have "length (filter (\<lambda>b. b = SLASH) x) = 0 \<longleftrightarrow> SLASH \<notin> set x" for x by (auto simp: filter_empty_conv)
  then show ?thesis
    by (cases x rule: rev_cases) (auto simp: is_direct_child_def Let_def)
qed

text \<open>\<open>readdir\<close> of a directory lists exactly the live entries whose parent it is.\<close>

lemma readdir_children:
  assumes "ends_with_slash d" "\<forall>e\<in>set ix. live e \<longrightarrow> (\<exists>r. epath e = SLASH # r) \<and> \<not> contains_slash2 (epath e)"
  shows "set (readdir ix d) = {e \<in> set ix. live e \<and> epath e \<noteq> [SLASH] \<and> parent_path (epath e) = d}"
proof (intro set_eqI iffI)
  fix e assume "e \<in> set (readdir ix d)"
  then have e: "e \<in> set ix" "live e" and sw: "starts_with (epath e) d" and ne: "epath e \<noteq> d"
    and dc: "is_direct_child (drop (length d) (epath e))"
    by (auto simp: readdir_def Let_def)
  obtain x where x: "epath e = d @ x"
    using sw unfolding starts_with_def by (metis append_take_drop_id)
  then have "x \<noteq> []" using ne by auto
  moreover have "\<not> contains_slash2 (d @ x)" using assms(2) e x by auto
  moreover obtain a where d: "d = a @ [SLASH]"
    using assms(1) by (cases d rule: rev_cases) (auto simp: ends_with_slash_def)
  ultimately have "x \<noteq> [SLASH]" using contains_slash2_append[of a "[]"] by auto
  moreover have "SLASH \<notin> set x \<or> (\<exists>f. x = f @ [SLASH] \<and> SLASH \<notin> set f)"
    using dc x by (simp add: direct_child_iff)
  ultimately obtain f where "f \<noteq> []" "SLASH \<notin> set f" "x = f \<or> x = f @ [SLASH]"
    using \<open>x \<noteq> []\<close> by (metis append_Nil)
  then have c: "child_path d f (epath e)" using x assms(1) by (auto simp: child_path_def)
  have "length (epath e) \<ge> 2" using x d \<open>x \<noteq> []\<close> by (cases x) auto
  then have "epath e \<noteq> [SLASH]" by auto
  then show "e \<in> {e \<in> set ix. live e \<and> epath e \<noteq> [SLASH] \<and> parent_path (epath e) = d}"
    using e child_path_parts(1)[OF c] by simp
next
  fix e assume "e \<in> {e \<in> set ix. live e \<and> epath e \<noteq> [SLASH] \<and> parent_path (epath e) = d}"
  then have e: "e \<in> set ix" "live e" "epath e \<noteq> [SLASH]" "parent_path (epath e) = d" by auto
  then obtain r where r: "epath e = SLASH # r" "\<not> contains_slash2 (epath e)" "r \<noteq> []"
    using assms(2) by auto
  from valid_path_parts[OF this] obtain d' f where c: "child_path d' f (epath e)" .
  with child_path_parts(1)[OF c] e have c: "child_path d f (epath e)" by simp
  then have "starts_with (epath e) d \<and> epath e \<noteq> d \<and> is_direct_child (drop (length d) (epath e))"
    by (auto simp: child_path_def starts_with_def direct_child_iff)
  then show "e \<in> set (readdir ix d)"
    using e(1,2) by (simp add: readdir_def Let_def)
qed

subsection \<open>The interface of the index\<close>

text \<open>
  What the operations above the index rely on, stated on the lookup function alone: an
  insertion shows at its own path and nowhere else, a deletion hides the path it finds, and the
  entry of a path carries that path.
\<close>

locale namespace =
  fixes inv :: "'ix \<Rightarrow> bool"
    and look :: "'ix \<Rightarrow> bytes \<Rightarrow> 'e option"
    and put :: "'ix \<Rightarrow> 'e \<Rightarrow> 'ix"
    and del :: "'ix \<Rightarrow> bytes \<Rightarrow> unit hres \<times> 'ix"
    and pathof :: "'e \<Rightarrow> bytes"
    and ok :: "'e \<Rightarrow> bool"
    and alive :: "'e \<Rightarrow> bool"
  assumes put_inv: "inv ix \<Longrightarrow> ok e \<Longrightarrow> inv (put ix e)"
    and look_put: "inv ix \<Longrightarrow> ok e \<Longrightarrow> look (put ix e) = (look ix)(pathof e := if alive e then Some e else None)"
    and del_live: "inv ix \<Longrightarrow> look ix p = Some e \<Longrightarrow>
      \<exists>ix'. del ix p = (Ok (), ix') \<and> inv ix' \<and> look ix' = (look ix)(p := None)"
    and look_ok: "inv ix \<Longrightarrow> look ix p = Some e \<Longrightarrow> ok e \<and> pathof e = p \<and> alive e"
begin

lemma move:
  assumes "inv ix" "look ix p = Some e" "ok e'" "alive e'"
  shows "\<exists>ix'. del ix p = (Ok (), ix') \<and> inv (put ix' e') \<and>
    look (put ix' e') = (look ix)(p := None, pathof e' := Some e')"
  using del_live[OF assms(1,2)] assms(3,4) by (auto simp: put_inv look_put)

lemma puts_inv: "inv ix \<Longrightarrow> \<forall>e\<in>set es. ok e \<Longrightarrow> inv (foldl put ix es)"
  by (induction es arbitrary: ix) (auto simp: put_inv)

lemma puts_look:
  "inv ix \<Longrightarrow> \<forall>e\<in>set es. ok e \<and> alive e \<Longrightarrow>
   look (foldl put ix es) = look ix ++ map_of (rev (map (\<lambda>e. (pathof e, e)) es))"
proof (induction es arbitrary: ix)
  case (Cons e es)
  then have "look (foldl put (put ix e) es) = look (put ix e) ++ map_of (rev (map (\<lambda>e. (pathof e, e)) es))"
    by (intro Cons.IH) (auto simp: put_inv)
  with Cons show ?case by (simp add: look_put map_add_upd_left[symmetric])
qed simp

end

interpretation helix_ns: namespace index_inv ns upsert mark_deleted epath entry_ok "\<lambda>e. live e"
proof unfold_locales
  fix ix p e assume i: "index_inv ix" and n: "ns ix p = Some e"
  have "delete_target ix p = Some p" using ns_has_slot[OF n] by (simp add: delete_target_def)
  with mark_deleted_spec[OF i, of p]
  show "\<exists>ix'. mark_deleted ix p = (Ok (), ix') \<and> index_inv ix' \<and> ns ix' = (ns ix)(p := None)" by simp
  show "entry_ok e \<and> epath e = p \<and> live e"
    using i n ns_Some_iff[OF i, of p e] by (auto simp: index_inv_def)
qed (auto simp: index_inv_upsert ns_upsert)

subsection \<open>Properties\<close>

text \<open>
  C17: The sorted vector implements a map from paths to live entries: after \<open>upsert\<close> of an
  entry, \<open>lookup\<close> of its path finds it, \<open>lookup\<close> of every other path is as before (also when
  the hashes collide and when the automatic compaction ran), and the order is kept.
\<close>

theorem lookup_upsert:
  assumes "index_inv ix" "entry_ok e" "live e"
  shows "index_inv (upsert ix e) \<and>
    (\<forall>p. lookup (upsert ix e) p = (if p = path_bytes (e_path e) then Some e else lookup ix p))"
  using assms by (simp add: lookup_ns index_inv_upsert ns_upsert)

theorem lookup_upsert_witness:
  "lookup (upsert [] (make_dir_entry [SLASH, 97, SLASH] 7 9)) [SLASH, 97, SLASH] = Some (make_dir_entry [SLASH, 97, SLASH] 7 9)"
proof -
  have p: "path_ok [SLASH, 97, SLASH]" by (simp add: path_ok_def)
  note m = make_dir_entry_ok[OF p, of 7 9]
  show ?thesis using lookup_upsert[OF index_inv_Nil m(1,3)] m(2) by simp
qed

text \<open>
  C18: \<open>mark_deleted\<close> removes exactly one path: when the path has a live entry the call succeeds
  and afterwards that path is absent and every other path is as before; when neither the path
  nor its other spelling (with or without the trailing slash) has an entry the call fails with
  \<open>NotFound\<close> and the index is unchanged.
\<close>

theorem mark_deleted_removes:
  assumes "index_inv ix"
  shows "(\<forall>e. lookup ix p = Some e \<longrightarrow> (\<exists>ix'. mark_deleted ix p = (Ok (), ix') \<and> index_inv ix' \<and>
        (\<forall>q. lookup ix' q = (if q = p then None else lookup ix q)))) \<and>
    (delete_target ix p = None \<longrightarrow> mark_deleted ix p = (Err NotFound, ix))"
proof (intro conjI allI impI)
  fix e assume "lookup ix p = Some e"
  then have "ns ix p = Some e" using assms by (simp add: lookup_ns)
  from helix_ns.del_live[OF assms this] obtain ix' where
    "mark_deleted ix p = (Ok (), ix')" "index_inv ix'" "ns ix' = (ns ix)(p := None)" by blast
  then show "\<exists>ix'. mark_deleted ix p = (Ok (), ix') \<and> index_inv ix' \<and>
        (\<forall>q. lookup ix' q = (if q = p then None else lookup ix q))"
    using assms by (auto simp: lookup_ns)
next
  assume "delete_target ix p = None"
  then show "mark_deleted ix p = (Err NotFound, ix)" using mark_deleted_spec[OF assms, of p] by simp
qed

theorem mark_deleted_removes_witness:
  "index_inv [] \<and> mark_deleted [] [SLASH] = (Err NotFound, [])"
  using mark_deleted_removes[OF index_inv_Nil, of "[SLASH]"]
  by (simp add: delete_target_def has_slot_def alt_form_def ends_with_slash_def)

lemma index_inv_distinct:
  assumes "index_inv ix" shows "distinct (map epath ix)"
proof -
  have "distinct (map entry_ord ix)" using assms by (simp add: index_inv_def strict_sorted_iff)
  then have "distinct ix" using distinct_map by blast
  then show ?thesis unfolding distinct_map inj_on_def using index_inv_inj[OF assms] by blast
qed

lemma Collect_single: "P e \<Longrightarrow> {x \<in> set [e]. P x} = {e}"
  by auto

lemma index_inv_single: "entry_ok e \<Longrightarrow> index_inv [e]"
  by (simp add: index_inv_def)

text \<open>
  C19: \<open>readdir\<close> of a directory path lists exactly the live entries whose parent, as computed by
  \<open>parent_path\<close>, is that directory, and no entry twice.
\<close>

theorem readdir_lists_children:
  assumes "index_inv ix" "ends_with_slash d"
    and "\<forall>e\<in>set ix. live e \<longrightarrow> (\<exists>r. path_bytes (e_path e) = SLASH # r) \<and> \<not> contains_slash2 (path_bytes (e_path e))"
  shows "set (readdir ix d) = {e \<in> set ix. live e \<and> path_bytes (e_path e) \<noteq> [SLASH] \<and> parent_path (path_bytes (e_path e)) = d} \<and>
    distinct (map (\<lambda>e. path_bytes (e_path e)) (readdir ix d))"
proof
  show "distinct (map epath (readdir ix d))"
    using index_inv_distinct[OF index_inv_filter[OF assms(1)]] by (simp add: readdir_def)
qed (rule readdir_children[OF assms(2,3)])

theorem readdir_lists_children_witness:
  "set (readdir [make_dir_entry [SLASH, 97, SLASH] 7 9] [SLASH]) = {make_dir_entry [SLASH, 97, SLASH] 7 9}"
proof -
  let ?e = "make_dir_entry [SLASH, 97, SLASH] 7 9"
  have p: "path_ok [SLASH, 97, SLASH]" by (simp add: path_ok_def)
  note m = make_dir_entry_ok[OF p, of 7 9]
  have c: "child_path [SLASH] [97] [SLASH, 97, SLASH]" by (simp add: child_path_def ends_with_slash_def)
  have r: "\<forall>e\<in>set [?e]. live e \<longrightarrow> (\<exists>r. epath e = SLASH # r) \<and> \<not> contains_slash2 (epath e)"
    using m(2) by simp
  have d: "ends_with_slash [SLASH]" by (simp add: ends_with_slash_def)
  have e: "{e \<in> set [?e]. live e \<and> epath e \<noteq> [SLASH] \<and> parent_path (epath e) = [SLASH]} = {?e}"
    by (rule Collect_single) (use m(2,3) child_path_parts(1)[OF c] in simp)
  show ?thesis
    using readdir_lists_children[OF index_inv_single[OF m(1)] d r] unfolding e by (rule conjunct1)
qed

end
