(* ===== verification/Helix_Recovery.thy ===== *)
theory Helix_Recovery
  imports Helix_Log Helix_Index
begin

text \<open>
  \<^verbatim>\<open>helix/src/log/recovery.rs\<close>: choosing the superblock, writing it, and replaying the log into
  the index. The replay is the visitor \<open>replay_record\<close> given to \<open>scan_forward\<close>; its state is the
  index and the list of snapshot LSNs.
\<close>

subsection \<open>The two superblocks\<close>

definition recover_superblock :: "'d block_io \<Rightarrow> u64 \<Rightarrow> u32 \<Rightarrow> 'd \<Rightarrow> superblock hres \<times> 'd" where
  "recover_superblock io partition_lba_start dbs d =
     and_then (sector_scale dbs, d) (\<lambda>blocks_per_sector d.
     and_then (io_read io (partition_lba_start + 0 * blocks_per_sector) 4096 d) (\<lambda>buf d.
       let sb_a = sb_decode buf; a_valid = sb_is_valid sb_a in
     and_then (io_read io (partition_lba_start + 1 * blocks_per_sector) 4096 d) (\<lambda>buf d.
       let sb_b = sb_decode buf; b_valid = sb_is_valid sb_b in
       if a_valid \<and> b_valid then
         (if sb_committed_lsn sb_b > sb_committed_lsn sb_a then Ok sb_b else Ok sb_a, d)
       else if a_valid then (Ok sb_a, d)
       else if b_valid then (Ok sb_b, d)
       else (Err NoValidSuperblock, d))))"

definition write_superblock ::
    "'d block_io \<Rightarrow> u64 \<Rightarrow> u32 \<Rightarrow> nat \<Rightarrow> 'd \<times> superblock \<Rightarrow> unit hres \<times> ('d \<times> superblock)" where
  "write_superblock io partition_lba_start dbs slot = (\<lambda>(d, sb).
     let sb = sb_update_crc sb in
     case and_then (sector_scale dbs, d) (\<lambda>blocks_per_sector d.
         let block = (if slot = 0 then 0 else 1);
             lba = partition_lba_start + block * blocks_per_sector
         in and_then (io_write io lba (sb_encode sb) d) (\<lambda>_ d. io_flush io d)) of
       (r, d) \<Rightarrow> (r, (d, sb)))"

subsection \<open>Replay\<close>

definition decode_path_payload :: "bytes \<Rightarrow> (bytes \<times> bytes) option" where
  "decode_path_payload payload =
     (if length payload < 2 then None
      else let path_len = unat (from_le (slice_of payload 0 2) :: u16);
               data_start = 2 + path_len
      in if data_start > length payload \<or> path_len = 0 \<or> path_len > MAX_PATH_LEN then None
         else let path = slice_of payload 2 path_len in
           if \<not> utf8_valid path then None
           else if hd path \<noteq> SLASH then None
           else Some (path, drop data_start payload))"

text \<open>A rewrite keeps the birth metadata of the live entry of the path, if there is one.\<close>

definition inherit_birth :: "index \<Rightarrow> bytes \<Rightarrow> index_entry \<Rightarrow> index_entry" where
  "inherit_birth ix path entry = (case lookup ix path of None \<Rightarrow> entry
     | Some existing \<Rightarrow> entry\<lparr>e_created_ns := e_created_ns existing, e_first_lsn := e_first_lsn existing,
         e_version_count := e_version_count existing + 1\<rparr>)"

definition replay_mkdir :: "log_record_header \<Rightarrow> bytes \<Rightarrow> index \<Rightarrow> index" where
  "replay_mkdir hdr payload ix = (case decode_path_payload payload of None \<Rightarrow> ix
     | Some (path, _) \<Rightarrow> upsert ix (make_dir_entry path (rh_lsn hdr) (rh_timestamp_ns hdr)))"

definition replay_write :: "log_record_header \<Rightarrow> bytes \<Rightarrow> index \<Rightarrow> index" where
  "replay_write hdr payload ix = (case decode_path_payload payload of None \<Rightarrow> ix
     | Some (path, data) \<Rightarrow>
       let is_extent = (rh_flags hdr AND REC_IS_EXTENT \<noteq> 0);
           new_entry =
             (if is_extent \<and> length data \<ge> 17 then
                let kind = data ! 0;
                    file_size = from_le (slice_of data 1 8) :: u64;
                    extent_root = from_le (slice_of data 9 8) :: u64;
                    e = make_file_entry path (rh_lsn hdr) file_size (rh_timestamp_ns hdr) None extent_root 0
                in Some (if kind = EXTENT_NODE then e\<lparr>e_flags := e_flags e OR IS_EXTENT_NODE\<rparr> else e)
              else if \<not> is_extent \<and> length data \<le> INLINE_DATA_SIZE then
                let crc = (if data = [] then 0 else crc64 data)
                in Some (make_file_entry path (rh_lsn hdr) (of_nat (length data)) (rh_timestamp_ns hdr)
                     (Some data) BLOCK_NULL crc)
              else None)
       in case new_entry of None \<Rightarrow> ix | Some entry \<Rightarrow> upsert ix (inherit_birth ix path entry))"

definition replay_delete :: "bytes \<Rightarrow> index \<Rightarrow> index" where
  "replay_delete payload ix = (case decode_path_payload payload of None \<Rightarrow> ix
     | Some (path, _) \<Rightarrow> snd (mark_deleted ix path))"

text \<open>The entry of a moved path: a copy under the new path, key and modification time.\<close>

definition moved_entry :: "index_entry \<Rightarrow> bytes \<Rightarrow> u64 \<Rightarrow> u64 \<Rightarrow> index_entry" where
  "moved_entry e new_path lsn timestamp_ns =
     (let l = min (length new_path) MAX_PATH_LEN
      in e\<lparr>e_key := fnv1a_64 new_path, e_path := splice (replicate 256 0) 0 (take l new_path),
           e_lsn := lsn, e_modified_ns := timestamp_ns\<rparr>)"

definition replay_rename :: "log_record_header \<Rightarrow> bytes \<Rightarrow> index \<Rightarrow> index" where
  "replay_rename hdr payload ix = (case decode_path_payload payload of None \<Rightarrow> ix
     | Some (old_path, rest) \<Rightarrow>
       if length rest < 2 then ix
       else let new_len = unat (from_le (slice_of rest 0 2) :: u16) in
         if length rest < 2 + new_len then ix
         else let new_path = slice_of rest 2 new_len in
           if \<not> utf8_valid new_path then ix
           else (case lookup ix old_path of None \<Rightarrow> ix
             | Some old_entry \<Rightarrow>
                 upsert (snd (mark_deleted ix old_path))
                   (moved_entry old_entry new_path (rh_lsn hdr) (rh_timestamp_ns hdr))))"

definition append_entry :: "log_record_header \<Rightarrow> bytes \<Rightarrow> index_entry \<Rightarrow> index_entry hres" where
  "append_entry hdr appended existing =
     (let old_size = unat (e_size existing);
          new_size = (old_size + length appended) mod U64;
          e1 = (if has_flag existing IS_INLINE then
                  if new_size \<le> INLINE_DATA_SIZE then
                    if old_size > new_size \<or> new_size - old_size \<noteq> length appended then Panic
                    else Ok (existing\<lparr>e_inline_data := splice (e_inline_data existing) old_size appended,
                           e_size := of_nat new_size\<rparr>)
                  else Ok (existing\<lparr>e_flags := e_flags existing AND NOT IS_INLINE, e_size := of_nat new_size\<rparr>)
                else Ok (existing\<lparr>e_size := of_nat new_size\<rparr>))
      in res_bind e1 (\<lambda>e. Ok (e\<lparr>e_lsn := rh_lsn hdr, e_modified_ns := rh_timestamp_ns hdr,
           e_version_count := e_version_count e + 1\<rparr>)))"

definition replay_append :: "log_record_header \<Rightarrow> bytes \<Rightarrow> index \<Rightarrow> unit hres \<times> index" where
  "replay_append hdr payload ix = (case decode_path_payload payload of None \<Rightarrow> (Ok (), ix)
     | Some (path, appended) \<Rightarrow>
       (case lookup_mut ix path of None \<Rightarrow> (Ok (), ix)
        | Some i \<Rightarrow> (case append_entry hdr appended (ix ! i) of
            Ok e \<Rightarrow> (Ok (), ix[i := e]) | Err e \<Rightarrow> (Err e, ix) | Panic \<Rightarrow> (Panic, ix) | Diverges \<Rightarrow> (Diverges, ix))))"

definition replay_record :: "u64 \<Rightarrow> (index \<times> u64 list) visitor" where
  "replay_record checkpoint_lsn hdr payload = (\<lambda>(ix, snapshots).
     if rh_lsn hdr \<le> checkpoint_lsn then (Ok (), (ix, snapshots))
     else case op_from_u8 (rh_op hdr) of None \<Rightarrow> (Ok (), (ix, snapshots))
       | Some op \<Rightarrow> (case op of
           MkDir \<Rightarrow> (Ok (), (replay_mkdir hdr payload ix, snapshots))
         | Write \<Rightarrow> (Ok (), (replay_write hdr payload ix, snapshots))
         | Delete \<Rightarrow> (Ok (), (replay_delete payload ix, snapshots))
         | Rename \<Rightarrow> (Ok (), (replay_rename hdr payload ix, snapshots))
         | Snapshot \<Rightarrow> (Ok (), (ix, snapshots @ [rh_lsn hdr]))
         | Append \<Rightarrow> (case replay_append hdr payload ix of (r, ix) \<Rightarrow> (r, (ix, snapshots)))
         | SetMeta \<Rightarrow> (Ok (), (ix, snapshots)) | DedupRef \<Rightarrow> (Ok (), (ix, snapshots))
         | TxBegin \<Rightarrow> (Ok (), (ix, snapshots)) | TxCommit \<Rightarrow> (Ok (), (ix, snapshots))
         | TxAbort \<Rightarrow> (Ok (), (ix, snapshots)) | Checkpoint \<Rightarrow> (Ok (), (ix, snapshots))
         | Truncate \<Rightarrow> (Ok (), (ix, snapshots))))"

definition replay_log ::
    "'d block_io \<Rightarrow> log_engine \<Rightarrow> u64 \<Rightarrow> 'd \<Rightarrow> index \<times> u64 list \<Rightarrow> u64 hres \<times> 'd \<times> (index \<times> u64 list)" where
  "replay_log io l checkpoint_lsn d s =
     (case scan_forward io l (lg_tail l) 64 (replay_record checkpoint_lsn) d s of
        (Ok highest, d, (ix, snapshots)) \<Rightarrow> (Ok highest, d, (compact ix, snapshots))
      | x \<Rightarrow> x)"

subsection \<open>The superblock slots\<close>

text \<open>The choice that \<open>recover_superblock\<close> makes between the two decoded slots.\<close>

definition choose_sb :: "superblock \<Rightarrow> superblock \<Rightarrow> superblock hres" where
  "choose_sb a b =
     (if sb_is_valid a \<and> sb_is_valid b then (if sb_committed_lsn b > sb_committed_lsn a then Ok b else Ok a)
      else if sb_is_valid a then Ok a else if sb_is_valid b then Ok b else Err NoValidSuperblock)"

context partition
begin

lemma recover_superblock_ok:
  assumes "good d" "1 < nb"
  shows "\<exists>d'. recover_superblock io plba dbs d = (choose_sb (sb_decode (blk d 0)) (sb_decode (blk d 1)), d') \<and>
    good d' \<and> blk d' = blk d"
proof -
  from read_blk[OF assms(1), of 0] assms(2) obtain d1 where
    d1: "io_read io (plba + of_nat 0 * (4096 div ucast dbs)) 4096 d = (Ok (blk d 0), d1)" "good d1" "blk d1 = blk d" by auto
  from read_blk[OF d1(2), of 1] assms(2) obtain d2 where
    d2: "io_read io (plba + of_nat 1 * (4096 div ucast dbs)) 4096 d1 = (Ok (blk d 1), d2)" "good d2" "blk d2 = blk d"
    using d1(3) by auto
  show ?thesis using d1 d2 dbs_nonzero[OF assms(1)]
    by (simp add: recover_superblock_def sector_scale_def Let_def choose_sb_def)
qed

lemma write_superblock_ok:
  assumes "good d" "1 < nb" "sb_wf sb" "slot \<le> 1"
  shows "\<exists>d'. write_superblock io plba dbs slot (d, sb) = (Ok (), (d', sb_update_crc sb)) \<and> good d' \<and>
    blk d' = (blk d)(slot := sb_encode (sb_update_crc sb))"
proof -
  have l: "length (sb_encode (sb_update_crc sb)) = 4096" using assms(3) by simp
  have sl: "slot < nb" using assms(2,4) by simp
  from write_blk[OF assms(1) sl l] obtain d1 where
    d1: "io_write io (plba + of_nat slot * (4096 div ucast dbs)) (sb_encode (sb_update_crc sb)) d = (Ok (), d1)"
      "good d1" "blk d1 = (blk d)(slot := sb_encode (sb_update_crc sb))" by blast
  from flush_blk[OF d1(2)] obtain d2 where d2: "io_flush io d1 = (Ok (), d2)" "good d2" "blk d2 = blk d1" by blast
  have "slot = 0 \<or> slot = 1" using assms(4) by auto
  then show ?thesis using d1 d2 dbs_nonzero[OF assms(1)]
    by (auto simp: write_superblock_def sector_scale_def Let_def)
qed

end

subsection \<open>Replaying a log\<close>

text \<open>The replay of a list of records, as a function on the index and the snapshot list.\<close>

fun replay_all :: "u64 \<Rightarrow> log_record list \<Rightarrow> index \<times> u64 list \<Rightarrow> unit hres \<times> (index \<times> u64 list)" where
  "replay_all ck [] s = (Ok (), s)"
| "replay_all ck ((h, p) # rs) s = and_then (replay_record ck h p s) (\<lambda>_ s. replay_all ck rs s)"

lemma visit_all_replay:
  "\<exists>h. visit_all (replay_record ck) rs hi s = (fst (replay_all ck rs s), h, snd (replay_all ck rs s))"
proof (induction rs arbitrary: hi s)
  case (Cons r rs)
  obtain h p where r: "r = (h, p)" by (cases r)
  obtain o' s1 where v: "replay_record ck h p s = (o', s1)" by (cases "replay_record ck h p s")
  show ?case using Cons[of "rh_lsn h" s1] by (cases o') (auto simp: r v)
qed simp

lemma replay_all_append:
  "replay_all ck (rs @ rs') s = and_then (replay_all ck rs s) (\<lambda>_ s. replay_all ck rs' s)"
proof (induction rs arbitrary: s)
  case (Cons r rs)
  obtain h p where r: "r = (h, p)" by (cases r)
  obtain o' s1 where v: "replay_record ck h p s = (o', s1)" by (cases "replay_record ck h p s")
  show ?case using Cons[of s1] by (cases o') (auto simp: r v)
qed simp

lemma replay_all_old: "\<forall>r\<in>set rs. rh_lsn (fst r) \<le> ck \<Longrightarrow> replay_all ck rs s = (Ok (), s)"
  by (induction rs) (auto simp: replay_record_def split: prod.split)

context partition
begin

lemma replay_log_rep:
  assumes "good d" "log_ok plba dbs nb l" "log_rep (blk d) l rss"
    "replay_all ck (concat rss) (ix, sn) = (Ok (), (ix', sn'))"
  shows "\<exists>d' h. replay_log io l ck d (ix, sn) = (Ok h, d', (compact ix', sn')) \<and> good d' \<and> blk d' = blk d"
proof -
  from visit_all_replay[of ck "concat rss" 0 "(ix, sn)"] obtain h where
    "visit_all (replay_record ck) (concat rss) 0 (ix, sn) = (Ok (), h, (ix', sn'))" using assms(4) by auto
  from scan_forward_rep[OF assms(1-3) this] obtain d' where
    "scan_forward io l (lg_tail l) 64 (replay_record ck) d (ix, sn) = (Ok h, d', (ix', sn'))" "good d'" "blk d' = blk d"
    by auto
  then show ?thesis by (simp add: replay_log_def)
qed

end

subsection \<open>What a record does to the namespace\<close>

text \<open>The prefix of a payload decodes to the path, for the paths a Rust string can hold.\<close>

definition str_path :: "bytes \<Rightarrow> bool" where
  "str_path p \<longleftrightarrow> utf8_valid p \<and> p \<noteq> [] \<and> hd p = SLASH \<and> length p \<le> MAX_PATH_LEN \<and> 0 \<notin> set p"

lemma str_path_ok: "str_path p \<Longrightarrow> path_ok p"
  by (simp add: str_path_def path_ok_def)

lemma decode_path_payload_prefix:
  assumes "str_path p"
  shows "decode_path_payload (le_bytes 2 (of_nat (length p) :: u16) @ p @ rest) = Some (p, rest)"
proof -
  have u: "unat (of_nat (length p) :: u16) = length p"
    using assms by (simp add: str_path_def unat_of_nat take_bit_eq_mod)
  have l: "length (le_bytes 2 (of_nat (length p) :: u16)) = 2" by simp
  have s: "slice_of (le_bytes 2 (of_nat (length p) :: u16) @ p @ rest) 0 2 = le_bytes 2 (of_nat (length p) :: u16)"
    by (simp add: slice_append1 slice_full)
  have s2: "slice_of (le_bytes 2 (of_nat (length p) :: u16) @ p @ rest) 2 (length p) = p"
    using l by (simp add: slice_append2 slice_append1 slice_full)
  have d: "drop (2 + length p) (le_bytes 2 (of_nat (length p) :: u16) @ p @ rest) = rest" by simp
  have "0 < length p" "length p \<le> MAX_PATH_LEN" "utf8_valid p" "hd p = SLASH" using assms by (auto simp: str_path_def)
  then show ?thesis unfolding decode_path_payload_def s Let_def by (simp add: u s2 d)
qed

subsection \<open>Properties\<close>

text \<open>
  C34: One intact superblock copy is enough: when either slot holds a valid superblock \<open>t\<close> and the
  other slot holds any bytes at all (a torn or stale write), recovery succeeds with a valid
  superblock that is \<open>t\<close> or the decoded other slot and whose committed LSN is not below that of
  \<open>t\<close>.
\<close>

theorem superblock_survives_torn_slot:
  assumes "mempart.good plba dbs nb d" "1 < nb" "sb_wf t" "sb_is_valid t"
    and "slot \<le> 1" "mempart.blk plba dbs d slot = sb_encode t"
  shows "\<exists>s d'. recover_superblock mem_io plba dbs d = (Ok s, d') \<and> sb_is_valid s \<and>
    sb_committed_lsn t \<le> sb_committed_lsn s \<and> (s = t \<or> s = sb_decode (mempart.blk plba dbs d (1 - slot)))"
proof -
  from mempart.recover_superblock_ok[OF assms(1,2)] obtain d' where
    r: "recover_superblock mem_io plba dbs d =
      (choose_sb (sb_decode (mempart.blk plba dbs d 0)) (sb_decode (mempart.blk plba dbs d 1)), d')" by blast
  have "sb_decode (mempart.blk plba dbs d slot) = t" using assms(3,6) by simp
  moreover have "slot = 0 \<or> slot = 1" using assms(5) by auto
  ultimately show ?thesis using assms(4) r by (elim disjE) (auto simp: choose_sb_def)
qed

text \<open>A valid superblock on the small partition.\<close>

definition demo_sb :: superblock where
  "demo_sb = sb_update_crc (sb_zeroed\<lparr>sb_magic := HELIX_MAGIC, sb_version := HELIX_VERSION, sb_committed_lsn := 5\<rparr>)"

lemma demo_sb_valid: "sb_wf demo_sb" "sb_is_valid demo_sb"
  by (simp_all add: demo_sb_def sb_update_crc_valid) (simp add: sb_wf_def sb_zeroed_def HELIX_MAGIC_def ascii_def)

theorem superblock_survives_torn_slot_witness:
  "\<exists>d1 s d2. write_superblock mem_io 0 512 1 (demo_dev, demo_sb) = (Ok (), (d1, sb_update_crc demo_sb)) \<and>
     recover_superblock mem_io 0 512 d1 = (Ok s, d2) \<and> 5 \<le> sb_committed_lsn s"
proof -
  from mempart.write_superblock_ok[OF demo_good _ demo_sb_valid(1), of 1] obtain d1 where
    d1: "write_superblock mem_io 0 512 1 (demo_dev, demo_sb) = (Ok (), (d1, sb_update_crc demo_sb))"
      "mempart.good 0 512 1024 d1" "mempart.blk 0 512 d1 1 = sb_encode (sb_update_crc demo_sb)" by auto
  have v: "sb_wf (sb_update_crc demo_sb)" "sb_is_valid (sb_update_crc demo_sb)" "sb_committed_lsn (sb_update_crc demo_sb) = 5"
    using demo_sb_valid 
    by (simp_all add: sb_update_crc_valid) (simp_all add: demo_sb_def sb_zeroed_def sb_update_crc_valid)
  from superblock_survives_torn_slot[OF d1(2) _ v(1,2) _ d1(3)] v(3) d1(1) show ?thesis by auto
qed

end
