(* ===== verification/Helix_Bitmap.thy ===== *)
theory Helix_Bitmap
  imports Helix_Error
begin

text \<open>
  \<^verbatim>\<open>helix/src/bitmap.rs\<close>: one bit per data block, a count of the free blocks and a hint
  where the next single-block search starts. Counts and block numbers are \<open>u64\<close> in the
  source; here they are natural numbers, and the sums that can pass \<open>2^64\<close> (a block
  number read from a corrupt extent plus an index) wrap explicitly. Every access is to a
  block below \<open>total_blocks\<close>, which is in range because the constructors size the byte
  vector for it (\<open>bitmap_inv\<close>).

  The abstract view is the set of allocated blocks; the locale \<open>block_allocator\<close> states
  what the file operations rely on, and the bitmap is shown to provide it.
\<close>

subsection \<open>The bitmap\<close>

record block_bitmap =
  bm_bits :: bytes
  bm_total :: nat
  bm_free :: nat
  bm_hint :: nat

definition bitmap_new :: "nat \<Rightarrow> block_bitmap" where
  "bitmap_new nblocks = \<lparr>bm_bits = replicate (div_ceil nblocks 8) 0, bm_total = nblocks, bm_free = nblocks, bm_hint = 0\<rparr>"

definition count_ones :: "u8 \<Rightarrow> nat" where
  "count_ones b = length (filter (bit b) [0..<8])"

definition bitmap_from_bytes :: "bytes \<Rightarrow> nat \<Rightarrow> block_bitmap" where
  "bitmap_from_bytes data nblocks =
     (let byte_count = div_ceil nblocks 8;
          copy_len = min (length data) byte_count;
          bits = splice (replicate byte_count 0) 0 (take copy_len data);
          full_bytes = nblocks div 8;
          alloc_full = sum_list (map count_ones (take full_bytes bits));
          remaining_bits = nblocks mod 8;
          alloc_count = (if remaining_bits > 0 \<and> full_bytes < length bits
                         then alloc_full + count_ones (bits ! full_bytes AND (push_bit remaining_bits 1 - 1))
                         else alloc_full)
      in \<lparr>bm_bits = bits, bm_total = nblocks, bm_free = nblocks - alloc_count, bm_hint = 0\<rparr>)"

definition allocated_count :: "block_bitmap \<Rightarrow> nat" where
  "allocated_count bm = bm_total bm - bm_free bm"

text \<open>The bit test and the two bit updates that every operation writes out.\<close>

definition bit_of :: "block_bitmap \<Rightarrow> nat \<Rightarrow> bool" where
  "bit_of bm b = ((bm_bits bm ! (b div 8)) AND push_bit (b mod 8) 1 \<noteq> 0)"

definition set_bit_at :: "nat \<Rightarrow> block_bitmap \<Rightarrow> block_bitmap" where
  "set_bit_at b bm = bm\<lparr>bm_bits := (bm_bits bm)[b div 8 := (bm_bits bm ! (b div 8)) OR push_bit (b mod 8) 1]\<rparr>"

definition clear_bit_at :: "nat \<Rightarrow> block_bitmap \<Rightarrow> block_bitmap" where
  "clear_bit_at b bm = bm\<lparr>bm_bits := (bm_bits bm)[b div 8 := (bm_bits bm ! (b div 8)) AND NOT (push_bit (b mod 8) 1)]\<rparr>"

definition is_allocated :: "block_bitmap \<Rightarrow> nat \<Rightarrow> bool" where
  "is_allocated bm b = (if b \<ge> bm_total bm then False else bit_of bm b)"

text \<open>\<open>alloc_block\<close>: the loop over \<open>offset\<close>, with the number of iterations left.\<close>

fun alloc_block_loop :: "block_bitmap \<Rightarrow> nat \<Rightarrow> nat \<Rightarrow> nat hres \<times> block_bitmap" where
  "alloc_block_loop bm offset 0 = (Err NoSpace, bm)"
| "alloc_block_loop bm offset (Suc n) =
     (let idx = ((bm_hint bm + offset) mod U64) mod bm_total bm
      in if \<not> bit_of bm idx
         then (Ok idx, (set_bit_at idx bm)\<lparr>bm_free := bm_free bm - 1, bm_hint := (idx + 1) mod bm_total bm\<rparr>)
         else alloc_block_loop bm (offset + 1) n)"

definition alloc_block :: "block_bitmap \<Rightarrow> nat hres \<times> block_bitmap" where
  "alloc_block bm = (if bm_free bm = 0 then (Err NoSpace, bm) else alloc_block_loop bm 0 (bm_total bm))"

text \<open>\<open>alloc_contiguous\<close>: the scan for a run, then the loop that marks it.\<close>

fun set_run :: "nat \<Rightarrow> nat \<Rightarrow> block_bitmap \<Rightarrow> block_bitmap" where
  "set_run b 0 bm = bm"
| "set_run b (Suc n) bm = set_run (b + 1) n (set_bit_at b bm)"

fun contiguous_loop :: "block_bitmap \<Rightarrow> nat \<Rightarrow> nat \<Rightarrow> nat \<Rightarrow> nat \<Rightarrow> nat \<Rightarrow> nat hres \<times> block_bitmap" where
  "contiguous_loop bm count run_start run_len idx 0 = (Err NoSpace, bm)"
| "contiguous_loop bm count run_start run_len idx (Suc n) =
     (if \<not> is_allocated bm idx
      then (let run_start' = (if run_len = 0 then idx else run_start);
                run_len' = run_len + 1
            in if run_len' \<ge> count
               then (Ok run_start', (set_run run_start' count bm)
                       \<lparr>bm_free := bm_free bm - count, bm_hint := (run_start' + count) mod bm_total bm\<rparr>)
               else contiguous_loop bm count run_start' run_len' (idx + 1) n)
      else contiguous_loop bm count run_start 0 (idx + 1) n)"

definition alloc_contiguous :: "nat \<Rightarrow> block_bitmap \<Rightarrow> nat hres \<times> block_bitmap" where
  "alloc_contiguous count bm =
     (if count = 0 then (Err InvalidBlockSize, bm)
      else if bm_free bm < count then (Err NoSpace, bm)
      else contiguous_loop bm count 0 0 0 (bm_total bm))"

definition mark_block_used :: "nat \<Rightarrow> block_bitmap \<Rightarrow> block_bitmap" where
  "mark_block_used b bm =
     (if b \<ge> bm_total bm then bm
      else if \<not> bit_of bm b then (set_bit_at b bm)\<lparr>bm_free := bm_free bm - 1\<rparr> else bm)"

fun mark_range_loop :: "nat \<Rightarrow> nat \<Rightarrow> nat \<Rightarrow> block_bitmap \<Rightarrow> block_bitmap" where
  "mark_range_loop start i 0 bm = bm"
| "mark_range_loop start i (Suc n) bm =
     mark_range_loop start (i + 1) n (mark_block_used ((start + i) mod U64) bm)"

definition mark_range_used :: "nat \<Rightarrow> nat \<Rightarrow> block_bitmap \<Rightarrow> block_bitmap" where
  "mark_range_used start count bm = mark_range_loop start 0 count bm"

definition free_block :: "nat \<Rightarrow> block_bitmap \<Rightarrow> unit hres \<times> block_bitmap" where
  "free_block b bm =
     (if b \<ge> bm_total bm then (Err BitmapCorrupt, bm)
      else if \<not> bit_of bm b then (Err BitmapCorrupt, bm)
      else (Ok (), (clear_bit_at b bm)\<lparr>bm_free := bm_free bm + 1,
                     bm_hint := (if b < bm_hint bm then b else bm_hint bm)\<rparr>))"

fun free_range_loop :: "nat \<Rightarrow> nat \<Rightarrow> nat \<Rightarrow> block_bitmap \<Rightarrow> unit hres \<times> block_bitmap" where
  "free_range_loop start i 0 bm = (Ok (), bm)"
| "free_range_loop start i (Suc n) bm =
     and_then (free_block ((start + i) mod U64) bm) (\<lambda>_ bm'. free_range_loop start (i + 1) n bm')"

definition free_range :: "nat \<Rightarrow> nat \<Rightarrow> block_bitmap \<Rightarrow> unit hres \<times> block_bitmap" where
  "free_range start count bm = free_range_loop start 0 count bm"

definition disk_blocks_needed :: "nat \<Rightarrow> nat" where
  "disk_blocks_needed total_data_blocks = div_ceil total_data_blocks (4096 * 8)"

subsection \<open>The allocated set and the invariant\<close>

definition alloc_set :: "block_bitmap \<Rightarrow> nat set" where
  "alloc_set bm = {b. b < bm_total bm \<and> bit_of bm b}"

definition bitmap_inv :: "block_bitmap \<Rightarrow> bool" where
  "bitmap_inv bm \<longleftrightarrow> length (bm_bits bm) = div_ceil (bm_total bm) 8 \<and>
     bm_free bm + card (alloc_set bm) = bm_total bm \<and>
     bm_total bm \<le> U64 div 2 \<and> bm_hint bm \<le> bm_total bm"

lemma and_push_bit_1: "k < 8 \<Longrightarrow> (w :: u8) AND push_bit k 1 \<noteq> 0 \<longleftrightarrow> bit w k"
  by (metis and.commute and_exp_eq_0_iff_not_bit push_bit_of_1)

lemma bit_of_iff: "bit_of bm b \<longleftrightarrow> bit (bm_bits bm ! (b div 8)) (b mod 8)"
  unfolding bit_of_def by (rule and_push_bit_1) simp

lemma byte_index: "b < t \<Longrightarrow> b div 8 < div_ceil t 8"
proof -
  assume "b < t"
  moreover have "t \<le> div_ceil t 8 * 8" by (rule div_ceil_bounds) simp
  ultimately show ?thesis by linarith
qed

lemma bit_of_set_bit_at:
  assumes "b div 8 < length (bm_bits bm)"
  shows "bit_of (set_bit_at b bm) c \<longleftrightarrow> bit_of bm c \<or> c = b"
proof (cases "c div 8 = b div 8")
  case True
  then have "c = b \<longleftrightarrow> c mod 8 = b mod 8" by (metis div_mult_mod_eq)
  then show ?thesis using assms True
    by (auto simp: bit_of_iff set_bit_at_def bit_or_iff bit_exp_iff)
next
  case False
  then show ?thesis by (auto simp: bit_of_iff set_bit_at_def)
qed

lemma bit_of_clear_bit_at:
  assumes "b div 8 < length (bm_bits bm)"
  shows "bit_of (clear_bit_at b bm) c \<longleftrightarrow> bit_of bm c \<and> c \<noteq> b"
proof (cases "c div 8 = b div 8")
  case True
  then have "c = b \<longleftrightarrow> c mod 8 = b mod 8" by (metis div_mult_mod_eq)
  then show ?thesis using assms True
    by (auto simp: bit_of_iff clear_bit_at_def bit_and_iff bit_not_iff bit_exp_iff)
next
  case False
  then show ?thesis by (auto simp: bit_of_iff clear_bit_at_def)
qed

lemma set_bit_at_frame [simp]:
  "bm_total (set_bit_at b bm) = bm_total bm" "bm_free (set_bit_at b bm) = bm_free bm"
  "bm_hint (set_bit_at b bm) = bm_hint bm" "length (bm_bits (set_bit_at b bm)) = length (bm_bits bm)"
  by (simp_all add: set_bit_at_def)

lemma clear_bit_at_frame [simp]:
  "bm_total (clear_bit_at b bm) = bm_total bm" "bm_free (clear_bit_at b bm) = bm_free bm"
  "bm_hint (clear_bit_at b bm) = bm_hint bm" "length (bm_bits (clear_bit_at b bm)) = length (bm_bits bm)"
  by (simp_all add: clear_bit_at_def)

lemma alloc_set_upd [simp]:
  "alloc_set (bm\<lparr>bm_free := f\<rparr>) = alloc_set bm" "alloc_set (bm\<lparr>bm_hint := h\<rparr>) = alloc_set bm"
  by (simp_all add: alloc_set_def bit_of_def)

lemma finite_alloc_set [simp]: "finite (alloc_set bm)"
  by (simp add: alloc_set_def)

lemma alloc_set_less: "b \<in> alloc_set bm \<Longrightarrow> b < bm_total bm"
  by (simp add: alloc_set_def)

lemma bitmap_index_in_range: "bitmap_inv bm \<Longrightarrow> b < bm_total bm \<Longrightarrow> b div 8 < length (bm_bits bm)"
  by (simp add: bitmap_inv_def byte_index)

lemma bit_of_alloc_set: "b < bm_total bm \<Longrightarrow> bit_of bm b \<longleftrightarrow> b \<in> alloc_set bm"
  by (simp add: alloc_set_def)

lemma is_allocated_alloc_set: "is_allocated bm b \<longleftrightarrow> b \<in> alloc_set bm"
  by (simp add: is_allocated_def alloc_set_def)

lemma alloc_set_set_bit_at:
  assumes "length (bm_bits bm) = div_ceil (bm_total bm) 8" "b < bm_total bm"
  shows "alloc_set (set_bit_at b bm) = insert b (alloc_set bm)"
  using assms byte_index[OF assms(2)] by (auto simp: alloc_set_def bit_of_set_bit_at)

lemma alloc_set_clear_bit_at:
  assumes "length (bm_bits bm) = div_ceil (bm_total bm) 8" "b < bm_total bm"
  shows "alloc_set (clear_bit_at b bm) = alloc_set bm - {b}"
  using assms byte_index[OF assms(2)] by (auto simp: alloc_set_def bit_of_clear_bit_at)

lemma alloc_set_new [simp]: "alloc_set (bitmap_new n) = {}"
proof -
  have "\<not> bit_of (bitmap_new n) b" if "b < n" for b
    using that byte_index[OF that] by (simp add: bit_of_iff bitmap_new_def)
  then show ?thesis by (auto simp: alloc_set_def bitmap_new_def)
qed

lemma bitmap_inv_new: "n \<le> U64 div 2 \<Longrightarrow> bitmap_inv (bitmap_new n)"
  unfolding bitmap_inv_def alloc_set_new by (simp add: bitmap_new_def)

lemma alloc_set_full:
  assumes "bitmap_inv bm"
  shows "bm_free bm = 0 \<longleftrightarrow> alloc_set bm = {..<bm_total bm}"
proof
  assume "bm_free bm = 0"
  then have "card (alloc_set bm) = card {..<bm_total bm}" using assms by (simp add: bitmap_inv_def)
  moreover have "alloc_set bm \<subseteq> {..<bm_total bm}" by (auto simp: alloc_set_def)
  ultimately show "alloc_set bm = {..<bm_total bm}" by (intro card_subset_eq) auto
next
  assume "alloc_set bm = {..<bm_total bm}"
  then show "bm_free bm = 0" using assms by (simp add: bitmap_inv_def)
qed

subsection \<open>Single blocks\<close>

lemma alloc_one_inv:
  assumes "bitmap_inv bm" "b < bm_total bm" "b \<notin> alloc_set bm" "h \<le> bm_total bm"
  shows "bitmap_inv ((set_bit_at b bm)\<lparr>bm_free := bm_free bm - 1, bm_hint := h\<rparr>)"
proof -
  have "card (insert b (alloc_set bm)) \<le> card {..<bm_total bm}"
    using assms(2) by (intro card_mono) (auto simp: alloc_set_def)
  then have "card (alloc_set bm) < bm_total bm" using assms(3) by simp
  then show ?thesis using assms
    by (simp add: bitmap_inv_def alloc_set_set_bit_at)
qed

text \<open>The search order: the blocks from the hint on, cyclically.\<close>

lemma alloc_block_loop_spec:
  assumes "bitmap_inv bm" "offset + n = bm_total bm"
    and "\<exists>k. offset \<le> k \<and> k < bm_total bm \<and> (bm_hint bm + k) mod bm_total bm \<notin> alloc_set bm"
  shows "\<exists>k. offset \<le> k \<and> k < bm_total bm \<and> (\<forall>j. offset \<le> j \<and> j < k \<longrightarrow> (bm_hint bm + j) mod bm_total bm \<in> alloc_set bm) \<and>
     (bm_hint bm + k) mod bm_total bm \<notin> alloc_set bm \<and>
     alloc_block_loop bm offset n = (Ok ((bm_hint bm + k) mod bm_total bm),
       (set_bit_at ((bm_hint bm + k) mod bm_total bm) bm)\<lparr>bm_free := bm_free bm - 1,
          bm_hint := ((bm_hint bm + k) mod bm_total bm + 1) mod bm_total bm\<rparr>)"
  using assms(2,3)
proof (induction n arbitrary: offset)
  case 0
  then show ?case by auto
next
  case (Suc n)
  let ?i = "\<lambda>k. (bm_hint bm + k) mod bm_total bm"
  have t: "0 < bm_total bm" and o: "offset < bm_total bm" using Suc.prems by auto
  have w: "((bm_hint bm + offset) mod U64) mod bm_total bm = ?i offset"
    using assms(1) o by (simp add: bitmap_inv_def)
  have b: "bit_of bm (?i offset) \<longleftrightarrow> ?i offset \<in> alloc_set bm" using t by (simp add: bit_of_alloc_set)
  show ?case
  proof (cases "?i offset \<in> alloc_set bm")
    case False
    then show ?thesis using o b w by (intro exI[of _ offset]) (auto simp: Let_def)
  next
    case True
    have "\<exists>k\<ge>Suc offset. k < bm_total bm \<and> ?i k \<notin> alloc_set bm"
      using Suc.prems(2) True by (metis Suc_leI le_neq_implies_less)
    from Suc.IH[of "Suc offset", OF _ this] Suc.prems(1) obtain k where
      k: "Suc offset \<le> k" "k < bm_total bm" "\<forall>j. Suc offset \<le> j \<and> j < k \<longrightarrow> ?i j \<in> alloc_set bm"
        "?i k \<notin> alloc_set bm"
      and l: "alloc_block_loop bm (Suc offset) n = (Ok (?i k), (set_bit_at (?i k) bm)
          \<lparr>bm_free := bm_free bm - 1, bm_hint := (?i k + 1) mod bm_total bm\<rparr>)" by auto
    have "\<forall>j. offset \<le> j \<and> j < k \<longrightarrow> ?i j \<in> alloc_set bm"
      using k(3) True by (metis Suc_leI le_neq_implies_less)
    then show ?thesis using k l True b w by (intro exI[of _ k]) (auto simp: Let_def)
  qed
qed

lemma mod_offset_ex:
  assumes "(b :: nat) < t" "h \<le> t"
  shows "\<exists>k<t. (h + k) mod t = b"
proof (cases "h \<le> b")
  case True
  then show ?thesis using assms by (intro exI[of _ "b - h"]) auto
next
  case False
  then show ?thesis using assms by (intro exI[of _ "t + b - h"]) auto
qed

lemma alloc_block_Ok:
  assumes "bitmap_inv bm" "0 < bm_free bm"
  obtains b bm' where "alloc_block bm = (Ok b, bm')" "b < bm_total bm" "b \<notin> alloc_set bm"
    "alloc_set bm' = insert b (alloc_set bm)" "bitmap_inv bm'" "bm_total bm' = bm_total bm"
    "bm_free bm' = bm_free bm - 1"
proof -
  have "\<exists>b<bm_total bm. b \<notin> alloc_set bm"
    using assms alloc_set_full[OF assms(1)] by (metis alloc_set_less gr_implies_not0 lessThan_iff subsetI subset_antisym)
  then have ex: "\<exists>k\<ge>0. k < bm_total bm \<and> (bm_hint bm + k) mod bm_total bm \<notin> alloc_set bm"
    using mod_offset_ex assms(1) unfolding bitmap_inv_def by (metis le0)
  from alloc_block_loop_spec[OF assms(1) _ ex] obtain k where
    k: "k < bm_total bm" "(bm_hint bm + k) mod bm_total bm \<notin> alloc_set bm"
    and l: "alloc_block_loop bm 0 (bm_total bm) = (Ok ((bm_hint bm + k) mod bm_total bm),
       (set_bit_at ((bm_hint bm + k) mod bm_total bm) bm)\<lparr>bm_free := bm_free bm - 1,
          bm_hint := ((bm_hint bm + k) mod bm_total bm + 1) mod bm_total bm\<rparr>)" by auto
  have lt: "(bm_hint bm + k) mod bm_total bm < bm_total bm" using k(1) by simp
  show ?thesis
  proof (rule that)
    show "alloc_block bm = (Ok ((bm_hint bm + k) mod bm_total bm),
       (set_bit_at ((bm_hint bm + k) mod bm_total bm) bm)\<lparr>bm_free := bm_free bm - 1,
          bm_hint := ((bm_hint bm + k) mod bm_total bm + 1) mod bm_total bm\<rparr>)"
      using assms(2) l by (simp add: alloc_block_def)
    show "bitmap_inv ((set_bit_at ((bm_hint bm + k) mod bm_total bm) bm)\<lparr>bm_free := bm_free bm - 1,
          bm_hint := ((bm_hint bm + k) mod bm_total bm + 1) mod bm_total bm\<rparr>)"
      using lt k by (intro alloc_one_inv[OF assms(1)]) auto
  qed (use lt k assms(1) in \<open>auto simp: alloc_set_set_bit_at bitmap_inv_def\<close>)
qed

lemma alloc_block_full: "bm_free bm = 0 \<Longrightarrow> alloc_block bm = (Err NoSpace, bm)"
  by (simp add: alloc_block_def)

lemma free_block_Ok:
  assumes "bitmap_inv bm" "b \<in> alloc_set bm"
  obtains bm' where "free_block b bm = (Ok (), bm')" "alloc_set bm' = alloc_set bm - {b}"
    "bitmap_inv bm'" "bm_total bm' = bm_total bm" "bm_free bm' = bm_free bm + 1"
proof -
  have lt: "b < bm_total bm" using assms(2) by (rule alloc_set_less)
  let ?bm' = "(clear_bit_at b bm)\<lparr>bm_free := bm_free bm + 1, bm_hint := (if b < bm_hint bm then b else bm_hint bm)\<rparr>"
  have s: "alloc_set ?bm' = alloc_set bm - {b}"
    using assms lt by (simp add: alloc_set_clear_bit_at bitmap_inv_def)
  have "card (alloc_set bm) = Suc (card (alloc_set bm - {b}))"
    using assms(2) by (metis card.remove finite_alloc_set)
  then have "bitmap_inv ?bm'"
    unfolding bitmap_inv_def s using assms(1) by (auto simp: bitmap_inv_def)
  moreover have "free_block b bm = (Ok (), ?bm')"
    using assms(2) lt by (auto simp: free_block_def bit_of_alloc_set)
  ultimately show ?thesis using s that by simp
qed

lemma free_block_Err: "b \<notin> alloc_set bm \<Longrightarrow> free_block b bm = (Err BitmapCorrupt, bm)"
  by (auto simp: free_block_def alloc_set_def)

lemma mark_block_used_spec:
  assumes "bitmap_inv bm"
  shows "bitmap_inv (mark_block_used b bm)" and "bm_total (mark_block_used b bm) = bm_total bm"
    and "alloc_set (mark_block_used b bm) = alloc_set bm \<union> ({b} \<inter> {..<bm_total bm})"
proof -
  consider "b \<ge> bm_total bm" | "b < bm_total bm" "b \<in> alloc_set bm" | "b < bm_total bm" "b \<notin> alloc_set bm"
    by fastforce
  then have "bitmap_inv (mark_block_used b bm) \<and> bm_total (mark_block_used b bm) = bm_total bm \<and>
    alloc_set (mark_block_used b bm) = alloc_set bm \<union> ({b} \<inter> {..<bm_total bm})"
  proof cases
    case 3
    have "bitmap_inv ((set_bit_at b bm)\<lparr>bm_free := bm_free bm - 1, bm_hint := bm_hint bm\<rparr>)"
      using 3 assms by (intro alloc_one_inv) (auto simp: bitmap_inv_def)
    then show ?thesis using 3 assms
      by (auto simp: mark_block_used_def bit_of_alloc_set alloc_set_set_bit_at bitmap_inv_def)
  qed (use assms in \<open>auto simp: mark_block_used_def bit_of_alloc_set\<close>)
  then show "bitmap_inv (mark_block_used b bm)" and "bm_total (mark_block_used b bm) = bm_total bm"
    and "alloc_set (mark_block_used b bm) = alloc_set bm \<union> ({b} \<inter> {..<bm_total bm})" by auto
qed

subsection \<open>Runs of blocks\<close>

definition free_run :: "block_bitmap \<Rightarrow> nat \<Rightarrow> nat \<Rightarrow> bool" where
  "free_run bm s count \<longleftrightarrow> s + count \<le> bm_total bm \<and> {s..<s + count} \<inter> alloc_set bm = {}"

lemma set_run_frame [simp]:
  "bm_total (set_run b n bm) = bm_total bm" "bm_free (set_run b n bm) = bm_free bm"
  "bm_hint (set_run b n bm) = bm_hint bm" "length (bm_bits (set_run b n bm)) = length (bm_bits bm)"
  by (induction n arbitrary: b bm) simp_all

lemma alloc_set_set_run:
  "length (bm_bits bm) = div_ceil (bm_total bm) 8 \<Longrightarrow> b + n \<le> bm_total bm \<Longrightarrow>
   alloc_set (set_run b n bm) = alloc_set bm \<union> {b..<b + n}"
  by (induction n arbitrary: b bm) (auto simp: alloc_set_set_bit_at)

lemma contiguous_loop_spec:
  assumes "idx + n = bm_total bm" "0 < count" "run_len < count" "run_len \<le> idx"
    and "run_len > 0 \<Longrightarrow> run_start = idx - run_len"
    and "{idx - run_len..<idx} \<inter> alloc_set bm = {}"
    and "idx - run_len = 0 \<or> idx - run_len - 1 \<in> alloc_set bm"
    and "\<And>s. s + count \<le> idx \<Longrightarrow> \<not> free_run bm s count"
  shows "(\<exists>s. free_run bm s count \<and> (\<forall>t < s. \<not> free_run bm t count) \<and>
            contiguous_loop bm count run_start run_len idx n =
              (Ok s, (set_run s count bm)\<lparr>bm_free := bm_free bm - count, bm_hint := (s + count) mod bm_total bm\<rparr>)) \<or>
         ((\<forall>s. \<not> free_run bm s count) \<and> contiguous_loop bm count run_start run_len idx n = (Err NoSpace, bm))"
  using assms
proof (induction n arbitrary: idx run_start run_len)
  case 0
  then have "\<forall>s. \<not> free_run bm s count" by (metis add_0_right free_run_def)
  then show ?case by simp
next
  case (Suc n)
  show ?case
  proof (cases "idx \<in> alloc_set bm")
    case True
    have "\<not> free_run bm s count" if "s + count \<le> idx + 1" for s
    proof (cases "s + count \<le> idx")
      case False
      then have "idx \<in> {s..<s + count}" using that Suc.prems(2) by auto
      then show ?thesis using True by (auto simp: free_run_def)
    qed (use Suc.prems(8) in auto)
    then show ?thesis
      using Suc.IH[of "idx + 1" 0 run_start] True Suc.prems(1,2)
      by (simp add: is_allocated_alloc_set)
  next
    case False
    let ?rs = "if run_len = 0 then idx else run_start"
    have rs: "?rs = idx - run_len" using Suc.prems(5) by auto
    have run: "{?rs..<idx + 1} \<inter> alloc_set bm = {}"
      using Suc.prems(6) False rs by (auto simp: less_Suc_eq)
    have none: "\<not> free_run bm s count" if "s < ?rs" "s + count \<le> idx + 1" for s
    proof -
      have "?rs - 1 \<in> alloc_set bm" using Suc.prems(7) rs that by auto
      moreover have "?rs - 1 \<in> {s..<s + count} \<or> s + count \<le> idx" using that rs by auto
      ultimately show ?thesis using Suc.prems(8) by (auto simp: free_run_def)
    qed
    show ?thesis
    proof (cases "run_len + 1 \<ge> count")
      case True
      then have c: "count = run_len + 1" using Suc.prems(3) by simp
      have "free_run bm ?rs count"
        using run rs c Suc.prems(1,4) by (auto simp: free_run_def)
      moreover have "\<forall>t < ?rs. \<not> free_run bm t count"
        using none rs c Suc.prems(4) by auto
      moreover have "contiguous_loop bm count run_start run_len idx (Suc n) =
          (Ok ?rs, (set_run ?rs count bm)\<lparr>bm_free := bm_free bm - count, bm_hint := (?rs + count) mod bm_total bm\<rparr>)"
        using False True by (simp add: is_allocated_alloc_set Let_def)
      ultimately show ?thesis by blast
    next
      case lt: False
      have "\<not> free_run bm s count" if "s + count \<le> idx + 1" for s
        using that none[of s] lt rs Suc.prems(4) by linarith
      then have "(\<exists>s. free_run bm s count \<and> (\<forall>t < s. \<not> free_run bm t count) \<and>
            contiguous_loop bm count ?rs (run_len + 1) (idx + 1) n =
              (Ok s, (set_run s count bm)\<lparr>bm_free := bm_free bm - count, bm_hint := (s + count) mod bm_total bm\<rparr>)) \<or>
         ((\<forall>s. \<not> free_run bm s count) \<and> contiguous_loop bm count ?rs (run_len + 1) (idx + 1) n = (Err NoSpace, bm))"
        using run rs lt Suc.prems(1,2,4,7) by (intro Suc.IH) auto
      then show ?thesis using False lt by (simp add: is_allocated_alloc_set Let_def)
    qed
  qed
qed

lemma free_run_card:
  assumes "bitmap_inv bm" "free_run bm s count"
  shows "count \<le> bm_free bm"
proof -
  have "card (alloc_set bm \<union> {s..<s + count}) \<le> card {..<bm_total bm}"
    using assms(2) by (intro card_mono) (auto simp: free_run_def alloc_set_def)
  moreover have "card (alloc_set bm \<union> {s..<s + count}) = card (alloc_set bm) + count"
    using assms(2) by (subst card_Un_disjoint) (auto simp: free_run_def)
  ultimately show ?thesis using assms(1) by (simp add: bitmap_inv_def)
qed

text \<open>
  \<open>alloc_contiguous\<close> takes the lowest run that fits, and fails only when there is none.
\<close>

lemma alloc_contiguous_cases:
  assumes "bitmap_inv bm" "0 < count"
  shows "(\<exists>s. free_run bm s count \<and> (\<forall>t < s. \<not> free_run bm t count) \<and>
            alloc_contiguous count bm =
              (Ok s, (set_run s count bm)\<lparr>bm_free := bm_free bm - count, bm_hint := (s + count) mod bm_total bm\<rparr>)) \<or>
         ((\<forall>s. \<not> free_run bm s count) \<and> alloc_contiguous count bm = (Err NoSpace, bm))"
proof (cases "bm_free bm < count")
  case True
  then have "\<forall>s. \<not> free_run bm s count" using free_run_card[OF assms(1)] by (metis not_le)
  then show ?thesis using True assms(2) by (simp add: alloc_contiguous_def)
next
  case False
  have "\<not> free_run bm s count" if "s + count \<le> 0" for s using that assms(2) by simp
  from contiguous_loop_spec[of 0 "bm_total bm" bm count 0 0, OF _ assms(2,2) _ _ _ _ this]
  show ?thesis using False assms(2) by (simp add: alloc_contiguous_def)
qed

lemma alloc_contiguous_Ok:
  assumes "bitmap_inv bm" "alloc_contiguous count bm = (Ok s, bm')"
  shows "free_run bm s count" "0 < count" "alloc_set bm' = alloc_set bm \<union> {s..<s + count}"
    "bitmap_inv bm'" "bm_total bm' = bm_total bm" "bm_free bm' = bm_free bm - count"
proof -
  show c: "0 < count" using assms(2) by (auto simp: alloc_contiguous_def split: if_splits)
  from alloc_contiguous_cases[OF assms(1) c] assms(2)
  have r: "free_run bm s count"
    and bm': "bm' = (set_run s count bm)\<lparr>bm_free := bm_free bm - count, bm_hint := (s + count) mod bm_total bm\<rparr>"
    by auto
  show "free_run bm s count" by (rule r)
  show "bm_total bm' = bm_total bm" "bm_free bm' = bm_free bm - count" by (simp_all add: bm')
  have s: "alloc_set bm' = alloc_set bm \<union> {s..<s + count}"
    using r assms(1) by (simp add: bm' alloc_set_set_run free_run_def bitmap_inv_def)
  show "alloc_set bm' = alloc_set bm \<union> {s..<s + count}" by (rule s)
  have "card (alloc_set bm') = card (alloc_set bm) + count"
    unfolding s using r by (subst card_Un_disjoint) (auto simp: free_run_def)
  moreover have "count \<le> bm_free bm" by (rule free_run_card[OF assms(1) r])
  moreover have "(s + count) mod bm_total bm \<le> bm_total bm"
    using r c by (auto simp: free_run_def)
  ultimately show "bitmap_inv bm'" using assms(1) by (simp add: bitmap_inv_def bm')
qed

lemma alloc_contiguous_Err:
  assumes "alloc_contiguous count bm = (Err e, bm')" "bitmap_inv bm"
  shows "bm' = bm" "e = (if count = 0 then InvalidBlockSize else NoSpace)"
    "0 < count \<Longrightarrow> \<not> free_run bm s count"
proof -
  have "bm' = bm \<and> e = (if count = 0 then InvalidBlockSize else NoSpace) \<and> (0 < count \<longrightarrow> \<not> free_run bm s count)"
  proof (cases "count = 0")
    case True
    then show ?thesis using assms(1) by (simp add: alloc_contiguous_def)
  next
    case False
    then show ?thesis using alloc_contiguous_cases[OF assms(2), of count] assms(1) by auto
  qed
  then show "bm' = bm" "e = (if count = 0 then InvalidBlockSize else NoSpace)"
    "0 < count \<Longrightarrow> \<not> free_run bm s count" by auto
qed

lemma mark_range_loop_spec:
  assumes "bitmap_inv bm"
  shows "bitmap_inv (mark_range_loop start i n bm) \<and> bm_total (mark_range_loop start i n bm) = bm_total bm \<and>
    alloc_set (mark_range_loop start i n bm) =
      alloc_set bm \<union> ((\<lambda>j. (start + j) mod U64) ` {i..<i + n} \<inter> {..<bm_total bm})"
  using assms
proof (induction n arbitrary: i bm)
  case 0
  then show ?case by simp
next
  case (Suc n)
  let ?b = "(start + i) mod U64"
  note m = mark_block_used_spec[OF Suc.prems, of ?b]
  have "{i..<i + Suc n} = insert i {Suc i..<Suc i + n}" by auto
  then show ?case using Suc.IH[OF m(1), of "Suc i"] m by auto
qed

lemma mark_range_used_spec:
  assumes "bitmap_inv bm"
  shows "bitmap_inv (mark_range_used start n bm)" "bm_total (mark_range_used start n bm) = bm_total bm"
    "start + n \<le> bm_total bm \<Longrightarrow> alloc_set (mark_range_used start n bm) = alloc_set bm \<union> {start..<start + n}"
proof -
  note m = mark_range_loop_spec[OF assms, of start 0 n]
  show "bitmap_inv (mark_range_used start n bm)" "bm_total (mark_range_used start n bm) = bm_total bm"
    using m by (simp_all add: mark_range_used_def)
  assume le: "start + n \<le> bm_total bm"
  have "(\<lambda>j. (start + j) mod U64) ` {0..<0 + n} = (\<lambda>j. start + j) ` {0..<n}"
    using le assms by (intro image_cong) (auto simp: bitmap_inv_def)
  also have "\<dots> = {start..<start + n}" by (simp add: image_add_atLeastLessThan add.commute)
  finally show "alloc_set (mark_range_used start n bm) = alloc_set bm \<union> {start..<start + n}"
    using m le by (auto simp: mark_range_used_def)
qed

lemma free_range_loop_spec:
  assumes "bitmap_inv bm" "{start + i..<start + i + n} \<subseteq> alloc_set bm"
  shows "\<exists>bm'. free_range_loop start i n bm = (Ok (), bm') \<and> alloc_set bm' = alloc_set bm - {start + i..<start + i + n} \<and>
     bitmap_inv bm' \<and> bm_total bm' = bm_total bm \<and> bm_free bm' = bm_free bm + n"
  using assms
proof (induction n arbitrary: i bm)
  case 0
  then show ?case by simp
next
  case (Suc n)
  have mem: "start + i \<in> alloc_set bm" using Suc.prems(2) by auto
  then have "start + i < U64" using alloc_set_less[OF mem] Suc.prems(1) by (simp add: bitmap_inv_def)
  then have e: "(start + i) mod U64 = start + i" by simp
  from free_block_Ok[OF Suc.prems(1) mem] obtain bm1 where
    bm1: "free_block (start + i) bm = (Ok (), bm1)" "alloc_set bm1 = alloc_set bm - {start + i}"
      "bitmap_inv bm1" "bm_total bm1 = bm_total bm" "bm_free bm1 = bm_free bm + 1" .
  have "{start + Suc i..<start + Suc i + n} \<subseteq> alloc_set bm1" using Suc.prems(2) bm1(2) by auto
  from Suc.IH[OF bm1(3) this] obtain bm' where
    "free_range_loop start (Suc i) n bm1 = (Ok (), bm')"
    "alloc_set bm' = alloc_set bm1 - {start + Suc i..<start + Suc i + n}"
    "bitmap_inv bm'" "bm_total bm' = bm_total bm1" "bm_free bm' = bm_free bm1 + n" by blast
  moreover have "{start + i..<start + i + Suc n} = insert (start + i) {start + Suc i..<start + Suc i + n}" by auto
  ultimately have "alloc_set bm' = alloc_set bm - {start + i..<start + i + Suc n}"
    using bm1(2) by (simp only:) blast
  with \<open>free_range_loop start (Suc i) n bm1 = (Ok (), bm')\<close> \<open>bitmap_inv bm'\<close>
    \<open>bm_total bm' = bm_total bm1\<close> \<open>bm_free bm' = bm_free bm1 + n\<close> bm1 e
  show ?case by simp
qed

lemma free_range_Ok:
  assumes "bitmap_inv bm" "{start..<start + n} \<subseteq> alloc_set bm"
  obtains bm' where "free_range start n bm = (Ok (), bm')" "alloc_set bm' = alloc_set bm - {start..<start + n}"
    "bitmap_inv bm'" "bm_total bm' = bm_total bm" "bm_free bm' = bm_free bm + n"
  using free_range_loop_spec[of bm start 0 n] assms by (auto simp: free_range_def)

text \<open>Even on a corrupt range, freeing keeps the invariant and only ever frees blocks.\<close>

lemma free_block_weak:
  assumes "bitmap_inv bm"
  shows "bitmap_inv (snd (free_block b bm))" "alloc_set (snd (free_block b bm)) = alloc_set bm - {b}"
    "bm_total (snd (free_block b bm)) = bm_total bm"
proof -
  have "bitmap_inv (snd (free_block b bm)) \<and> alloc_set (snd (free_block b bm)) = alloc_set bm - {b} \<and>
    bm_total (snd (free_block b bm)) = bm_total bm"
  proof (cases "b \<in> alloc_set bm")
    case True
    from free_block_Ok[OF assms True] obtain bm' where "free_block b bm = (Ok (), bm')"
      "alloc_set bm' = alloc_set bm - {b}" "bitmap_inv bm'" "bm_total bm' = bm_total bm" .
    then show ?thesis by simp
  qed (use assms free_block_Err in auto)
  then show "bitmap_inv (snd (free_block b bm))" "alloc_set (snd (free_block b bm)) = alloc_set bm - {b}"
    "bm_total (snd (free_block b bm)) = bm_total bm" by auto
qed

lemma free_range_loop_weak:
  assumes "bitmap_inv bm"
  shows "bitmap_inv (snd (free_range_loop start i n bm)) \<and> bm_total (snd (free_range_loop start i n bm)) = bm_total bm \<and>
    alloc_set (snd (free_range_loop start i n bm)) \<subseteq> alloc_set bm"
  using assms
proof (induction n arbitrary: i bm)
  case (Suc n)
  note w = free_block_weak[OF Suc.prems, of "(start + i) mod U64"]
  show ?case
  proof (cases "free_block ((start + i) mod U64) bm")
    case (Pair r bm1)
    then have bm1: "bitmap_inv bm1" "alloc_set bm1 \<subseteq> alloc_set bm" "bm_total bm1 = bm_total bm" using w by auto
    with Suc.IH[OF bm1(1), of "Suc i"] Pair show ?thesis by (cases r) auto
  qed
qed simp

lemma free_range_weak:
  assumes "bitmap_inv bm"
  shows "bitmap_inv (snd (free_range start n bm))" "bm_total (snd (free_range start n bm)) = bm_total bm"
    "alloc_set (snd (free_range start n bm)) \<subseteq> alloc_set bm"
  using free_range_loop_weak[OF assms, of start 0 n] by (simp_all add: free_range_def)

subsection \<open>Loading from disk\<close>

lemma count_ones_card: "count_ones b = card {i. i < 8 \<and> bit b i}"
proof -
  have "{i. i < 8 \<and> bit b i} = set (filter (bit b) [0..<8])" by auto
  then have "card {i. i < 8 \<and> bit b i} = length (filter (bit b) [0..<8])"
    by (simp only: distinct_card distinct_filter distinct_upt)
  then show ?thesis by (simp add: count_ones_def)
qed

lemma byte_bits_image:
  "{b. 8 * k \<le> b \<and> b < 8 * k + r \<and> P (b div 8) (b mod 8)} = (\<lambda>i. 8 * k + i) ` {i. i < r \<and> P k i}"
  if "r \<le> 8" for P :: "nat \<Rightarrow> nat \<Rightarrow> bool"
proof
  show "{b. 8 * k \<le> b \<and> b < 8 * k + r \<and> P (b div 8) (b mod 8)} \<subseteq> (\<lambda>i. 8 * k + i) ` {i. i < r \<and> P k i}"
  proof
    fix b assume b: "b \<in> {b. 8 * k \<le> b \<and> b < 8 * k + r \<and> P (b div 8) (b mod 8)}"
    then have "b div 8 = k" using that by auto
    moreover from this have "b mod 8 = b - 8 * k" by (simp add: modulo_nat_def mult.commute)
    ultimately show "b \<in> (\<lambda>i. 8 * k + i) ` {i. i < r \<and> P k i}" using b by (intro image_eqI[of _ _ "b - 8 * k"]) auto
  qed
qed (use that in auto)

lemma card_full_bytes:
  "k \<le> length bs \<Longrightarrow> card {b. b < 8 * k \<and> bit (bs ! (b div 8)) (b mod 8)} = sum_list (map count_ones (take k bs))"
proof (induction k)
  case 0
  then show ?case by simp
next
  case (Suc k)
  define S where "S k = {b. b < 8 * k \<and> bit (bs ! (b div 8)) (b mod 8)}" for k
  define T where "T = {b. 8 * k \<le> b \<and> b < 8 * k + 8 \<and> bit (bs ! (b div 8)) (b mod 8)}"
  have u: "S (Suc k) = S k \<union> T" by (auto simp: S_def T_def)
  have t: "card T = count_ones (bs ! k)"
    using byte_bits_image[of 8 k "\<lambda>q. bit (bs ! q)"]
    by (simp add: T_def count_ones_card card_image inj_on_def)
  have "card (S k \<union> T) = card (S k) + card T"
    by (rule card_Un_disjoint) (auto simp: S_def T_def)
  moreover have "card (S k) = sum_list (map count_ones (take k bs))"
    using Suc unfolding S_def by simp
  ultimately have "card (S (Suc k)) = sum_list (map count_ones (take (Suc k) bs))"
    using u t Suc.prems by (simp add: take_Suc_conv_app_nth)
  then show ?case unfolding S_def .
qed

lemma count_ones_mask:
  assumes "r < 8"
  shows "count_ones (b AND (push_bit r 1 - 1)) = card {i. i < r \<and> bit b i}"
proof -
  have m: "push_bit r 1 - 1 = (mask r :: u8)" by (simp add: mask_eq_exp_minus_1)
  have "{i. i < 8 \<and> bit (b AND mask r) i} = {i. i < r \<and> bit b i}"
    using assms by (auto simp: bit_and_iff bit_mask_iff)
  then show ?thesis unfolding m by (simp add: count_ones_card)
qed

lemma bitmap_from_bytes_spec:
  assumes "n \<le> U64 div 2"
  shows "bitmap_inv (bitmap_from_bytes data n)"
    and "alloc_set (bitmap_from_bytes data n) = {b. b < n \<and> b div 8 < length data \<and> bit (data ! (b div 8)) (b mod 8)}"
proof -
  define bc where "bc = div_ceil n 8"
  define bs where "bs = splice (replicate bc 0) 0 (take (min (length data) bc) data)"
  have lbs: "length bs = bc" by (simp add: bs_def)
  have nbs: "bs ! q = (if q < length data then data ! q else 0)" if "q < bc" for q
    using that by (auto simp: bs_def nth_splice)
  let ?S = "{b. b < n \<and> bit (bs ! (b div 8)) (b mod 8)}"
  have lt: "n div 8 * 8 \<le> n" "n div 8 \<le> bc" "n mod 8 > 0 \<longleftrightarrow> n div 8 < bc"
    by (auto simp: bc_def div_ceil_def)
  have split: "?S = {b. b < 8 * (n div 8) \<and> bit (bs ! (b div 8)) (b mod 8)} \<union>
      {b. 8 * (n div 8) \<le> b \<and> b < 8 * (n div 8) + n mod 8 \<and> bit (bs ! (b div 8)) (b mod 8)}"
    (is "_ = ?A \<union> ?B") by auto
  have B: "card ?B = card {i. i < n mod 8 \<and> bit (bs ! (n div 8)) i}"
    using byte_bits_image[of "n mod 8" "n div 8" "\<lambda>q. bit (bs ! q)"]
    by (simp add: card_image inj_on_def)
  have A: "card ?A = sum_list (map count_ones (take (n div 8) bs))"
    using card_full_bytes[of "n div 8" bs] lt(2) lbs by simp
  have cardS: "card ?S = card ?A + card ?B"
    unfolding split by (subst card_Un_disjoint) auto
  have le: "card ?S \<le> n" using card_mono[of "{..<n}" ?S] by auto
  have fb: "bitmap_from_bytes data n = \<lparr>bm_bits = bs, bm_total = n, bm_free = n - card ?S, bm_hint = 0\<rparr>"
  proof (cases "n mod 8 = 0")
    case True
    have "card ?B = 0" unfolding B True by simp
    then have "card ?S = sum_list (map count_ones (take (n div 8) bs))" using cardS A by simp
    then show ?thesis
      using True by (simp add: bitmap_from_bytes_def Let_def bs_def [symmetric] bc_def [symmetric])
  next
    case False
    have "card ?S = sum_list (map count_ones (take (n div 8) bs)) +
        count_ones (bs ! (n div 8) AND (push_bit (n mod 8) 1 - 1))"
      using cardS A B count_ones_mask[of "n mod 8" "bs ! (n div 8)"] by simp
    then show ?thesis using False lt(3) lbs
      by (simp add: bitmap_from_bytes_def Let_def bs_def [symmetric] bc_def [symmetric])
  qed
  have S: "alloc_set (bitmap_from_bytes data n) = ?S"
    by (auto simp: alloc_set_def fb bit_of_iff)
  show "bitmap_inv (bitmap_from_bytes data n)"
    unfolding bitmap_inv_def S using le assms lbs by (simp add: fb bc_def)
  show "alloc_set (bitmap_from_bytes data n) = {b. b < n \<and> b div 8 < length data \<and> bit (data ! (b div 8)) (b mod 8)}"
    unfolding S using nbs byte_index[of _ n] by (auto simp: bc_def split: if_splits)
qed

subsection \<open>The allocator contract\<close>

text \<open>
  What the file operations rely on: an allocator hands out blocks that were free and records
  them; freeing what was handed out takes exactly that back. The rollback lemma is what the
  error paths of \<open>write_file\<close> use.
\<close>

locale block_allocator =
  fixes inv :: "'s \<Rightarrow> bool" and used :: "'s \<Rightarrow> nat set" and space :: "'s \<Rightarrow> nat"
    and alloc1 :: "'s \<Rightarrow> nat hres \<times> 's" and allocn :: "nat \<Rightarrow> 's \<Rightarrow> nat hres \<times> 's"
    and free1 :: "nat \<Rightarrow> 's \<Rightarrow> unit hres \<times> 's" and freen :: "nat \<Rightarrow> nat \<Rightarrow> 's \<Rightarrow> unit hres \<times> 's"
  assumes used_less: "inv s \<Longrightarrow> b \<in> used s \<Longrightarrow> b < space s"
    and alloc1_Ok: "inv s \<Longrightarrow> alloc1 s = (Ok b, s') \<Longrightarrow>
          b < space s \<and> b \<notin> used s \<and> used s' = insert b (used s) \<and> inv s' \<and> space s' = space s"
    and alloc1_total: "inv s \<Longrightarrow> used s \<noteq> {..<space s} \<Longrightarrow> \<exists>b s'. alloc1 s = (Ok b, s')"
    and alloc1_Err: "inv s \<Longrightarrow> used s = {..<space s} \<Longrightarrow> alloc1 s = (Err NoSpace, s)"
    and allocn_Ok: "inv s \<Longrightarrow> allocn n s = (Ok b, s') \<Longrightarrow>
          0 < n \<and> b + n \<le> space s \<and> {b..<b + n} \<inter> used s = {} \<and> used s' = used s \<union> {b..<b + n} \<and>
          inv s' \<and> space s' = space s"
    and free1_Ok: "inv s \<Longrightarrow> b \<in> used s \<Longrightarrow>
          \<exists>s'. free1 b s = (Ok (), s') \<and> used s' = used s - {b} \<and> inv s' \<and> space s' = space s"
    and freen_Ok: "inv s \<Longrightarrow> {b..<b + n} \<subseteq> used s \<Longrightarrow>
          \<exists>s'. freen b n s = (Ok (), s') \<and> used s' = used s - {b..<b + n} \<and> inv s' \<and> space s' = space s"
begin

lemma rollback:
  assumes "inv s" "allocn n s = (Ok b, s')"
  obtains s'' where "freen b n s' = (Ok (), s'')" "used s'' = used s" "inv s''" "space s'' = space s"
proof -
  from allocn_Ok[OF assms] have a: "{b..<b + n} \<inter> used s = {}" "used s' = used s \<union> {b..<b + n}"
    "inv s'" "space s' = space s" by auto
  then have "{b..<b + n} \<subseteq> used s'" by auto
  from freen_Ok[OF a(3) this] obtain s'' where s'': "freen b n s' = (Ok (), s'')"
    "used s'' = used s' - {b..<b + n}" "inv s''" "space s'' = space s'" by blast
  show ?thesis by (rule that[OF s''(1)]) (use s'' a in auto)
qed

lemma alloc1_twice_distinct:
  assumes "inv s" "alloc1 s = (Ok b, s')" "alloc1 s' = (Ok c, s'')"
  shows "b \<noteq> c"
proof -
  from alloc1_Ok[OF assms(1,2)] have "inv s'" "b \<in> used s'" by auto
  moreover from alloc1_Ok[OF \<open>inv s'\<close> assms(3)] have "c \<notin> used s'" by blast
  ultimately show ?thesis by blast
qed

end

interpretation bitmap: block_allocator bitmap_inv alloc_set bm_total alloc_block alloc_contiguous free_block free_range
proof unfold_locales
  fix s b s' assume a: "bitmap_inv s" "alloc_block s = (Ok b, s')"
  then have "0 < bm_free s" by (auto simp: alloc_block_def split: if_splits)
  from alloc_block_Ok[OF a(1) this] obtain b1 s1 where "alloc_block s = (Ok b1, s1)" "b1 < bm_total s"
    "b1 \<notin> alloc_set s" "alloc_set s1 = insert b1 (alloc_set s)" "bitmap_inv s1" "bm_total s1 = bm_total s" .
  then show "b < bm_total s \<and> b \<notin> alloc_set s \<and> alloc_set s' = insert b (alloc_set s) \<and> bitmap_inv s' \<and> bm_total s' = bm_total s"
    using a(2) by simp
next
  fix s assume "bitmap_inv s" "alloc_set s \<noteq> {..<bm_total s}"
  then have "bitmap_inv s" "0 < bm_free s" using alloc_set_full[of s] by auto
  then show "\<exists>b s'. alloc_block s = (Ok b, s')" by (rule alloc_block_Ok) blast
next
  fix s assume "bitmap_inv s" "alloc_set s = {..<bm_total s}"
  then show "alloc_block s = (Err NoSpace, s)" using alloc_set_full alloc_block_full by blast
next
  fix s n b s' assume "bitmap_inv s" "alloc_contiguous n s = (Ok b, s')"
  from alloc_contiguous_Ok[OF this]
  show "0 < n \<and> b + n \<le> bm_total s \<and> {b..<b + n} \<inter> alloc_set s = {} \<and> alloc_set s' = alloc_set s \<union> {b..<b + n} \<and>
    bitmap_inv s' \<and> bm_total s' = bm_total s" by (auto simp: free_run_def)
next
  fix s b assume "bitmap_inv s" "b \<in> alloc_set s"
  then show "\<exists>s'. free_block b s = (Ok (), s') \<and> alloc_set s' = alloc_set s - {b} \<and> bitmap_inv s' \<and> bm_total s' = bm_total s"
    by (rule free_block_Ok) blast
next
  fix s b n assume "bitmap_inv s" "{b..<b + n} \<subseteq> alloc_set s"
  then show "\<exists>s'. free_range b n s = (Ok (), s') \<and> alloc_set s' = alloc_set s - {b..<b + n} \<and> bitmap_inv s' \<and> bm_total s' = bm_total s"
    by (rule free_range_Ok) blast
qed (auto dest: alloc_set_less)

subsection \<open>Properties\<close>

text \<open>
  \<open>alloc_block\<close> on a consistent bitmap either hands out a block that was free, adds
  exactly that block to the allocated set and keeps the bitmap consistent, or fails with
  \<open>NoSpace\<close>, which happens only when every block is allocated and changes nothing.
\<close>

theorem alloc_block_correct:
  assumes "bitmap_inv bm"
  shows "case alloc_block bm of
      (Ok b, bm') \<Rightarrow> b < bm_total bm \<and> \<not> is_allocated bm b \<and> alloc_set bm' = insert b (alloc_set bm) \<and>
        bitmap_inv bm' \<and> bm_free bm' + 1 = bm_free bm
    | (Err e, bm') \<Rightarrow> e = NoSpace \<and> bm' = bm \<and> alloc_set bm = {..<bm_total bm}
    | _ \<Rightarrow> False"
proof (cases "bm_free bm = 0")
  case True
  then show ?thesis using assms alloc_set_full[of bm] by (simp add: alloc_block_full)
next
  case False
  then have "0 < bm_free bm" by simp
  from alloc_block_Ok[OF assms this] obtain b bm' where
    a: "alloc_block bm = (Ok b, bm')" "b < bm_total bm" "b \<notin> alloc_set bm"
      "alloc_set bm' = insert b (alloc_set bm)" "bitmap_inv bm'" "bm_total bm' = bm_total bm"
      "bm_free bm' = bm_free bm - 1" .
  then show ?thesis using False by (simp add: is_allocated_alloc_set)
qed

theorem alloc_block_correct_witness:
  "bitmap_inv (bitmap_new 5) \<and> (\<exists>b bm'. alloc_block (bitmap_new 5) = (Ok b, bm') \<and> b < 5 \<and> alloc_set bm' = {b})"
proof
  show i: "bitmap_inv (bitmap_new 5)" by (rule bitmap_inv_new) simp
  show "\<exists>b bm'. alloc_block (bitmap_new 5) = (Ok b, bm') \<and> b < 5 \<and> alloc_set bm' = {b}"
  proof (cases "alloc_block (bitmap_new 5)")
    case (Pair r bm')
    have "bm_total (bitmap_new 5) = 5" "{..<5 :: nat} \<noteq> {}" by (simp_all add: bitmap_new_def lessThan_empty_iff)
    with Pair alloc_block_correct[OF i] show ?thesis by (cases r) auto
  qed
qed

text \<open>
  C20: \<open>alloc_contiguous\<close> is a first-fit allocator: it returns the start of the lowest free run
  of the requested length and marks exactly that run, and it fails (leaving the bitmap as it
  was) only for a request of no blocks or when no such run exists.
\<close>

theorem alloc_contiguous_first_fit:
  assumes "bitmap_inv bm"
  shows "case alloc_contiguous count bm of
      (Ok s, bm') \<Rightarrow> free_run bm s count \<and> (\<forall>t < s. \<not> free_run bm t count) \<and>
        alloc_set bm' = alloc_set bm \<union> {s..<s + count} \<and> bitmap_inv bm' \<and> bm_free bm' + count = bm_free bm
    | (Err e, bm') \<Rightarrow> bm' = bm \<and> (if count = 0 then e = InvalidBlockSize else e = NoSpace \<and> (\<forall>s. \<not> free_run bm s count))
    | _ \<Rightarrow> False"
proof (cases "count = 0")
  case True
  then show ?thesis by (simp add: alloc_contiguous_def)
next
  case False
  then have "0 < count" by simp
  from alloc_contiguous_cases[OF assms this] show ?thesis
  proof (elim disjE exE conjE)
    fix s assume s: "free_run bm s count" "\<forall>t < s. \<not> free_run bm t count"
      and a: "alloc_contiguous count bm = (Ok s, (set_run s count bm)
        \<lparr>bm_free := bm_free bm - count, bm_hint := (s + count) mod bm_total bm\<rparr>)"
    from alloc_contiguous_Ok[OF assms a] free_run_card[OF assms s(1)] s show ?thesis unfolding a by simp
  qed (use False in simp)
qed

theorem alloc_contiguous_first_fit_witness:
  "bitmap_inv (bitmap_new 9) \<and> fst (alloc_contiguous 10 (bitmap_new 9)) = Err NoSpace \<and>
   (\<forall>s. \<not> free_run (bitmap_new 9) s 10)"
proof -
  have i: "bitmap_inv (bitmap_new 9)" by (rule bitmap_inv_new) simp
  have "fst (alloc_contiguous 10 (bitmap_new 9)) = Err NoSpace"
    by (simp add: alloc_contiguous_def bitmap_new_def)
  then show ?thesis using i alloc_contiguous_first_fit[OF i, of 10] by (auto split: prod.splits)
qed

text \<open>
  C21: Undoing an allocation restores it: freeing the run that \<open>alloc_contiguous\<close> handed out
  succeeds and brings back the allocated set and the free count; freeing any of its blocks a
  second time is refused with \<open>BitmapCorrupt\<close>.
\<close>

theorem alloc_free_roundtrip:
  assumes "bitmap_inv bm" "alloc_contiguous count bm = (Ok s, bm1)"
  shows "\<exists>bm2. free_range s count bm1 = (Ok (), bm2) \<and> alloc_set bm2 = alloc_set bm \<and>
     bm_free bm2 = bm_free bm \<and> bitmap_inv bm2 \<and>
     (\<forall>b. s \<le> b \<and> b < s + count \<longrightarrow> free_block b bm2 = (Err BitmapCorrupt, bm2))"
proof -
  from bitmap.rollback[OF assms] obtain bm2 where
    r: "free_range s count bm1 = (Ok (), bm2)" "alloc_set bm2 = alloc_set bm" "bitmap_inv bm2" "bm_total bm2 = bm_total bm" .
  have "bm_free bm2 = bm_free bm" using r assms(1) by (simp add: bitmap_inv_def)
  moreover have "free_block b bm2 = (Err BitmapCorrupt, bm2)" if "s \<le> b" "b < s + count" for b
    using that r(2) bitmap.allocn_Ok[OF assms] by (intro free_block_Err) auto
  ultimately show ?thesis using r by blast
qed

theorem alloc_free_roundtrip_witness:
  "\<exists>bm1 bm2. alloc_contiguous 2 (bitmap_new 9) = (Ok 0, bm1) \<and> free_range 0 2 bm1 = (Ok (), bm2) \<and> alloc_set bm2 = {}"
proof -
  have i: "bitmap_inv (bitmap_new 9)" by (rule bitmap_inv_new) simp
  have "free_run (bitmap_new 9) 0 2" by (simp add: free_run_def) (simp add: bitmap_new_def)
  with alloc_contiguous_cases[OF i, of 2] obtain bm1 where a: "alloc_contiguous 2 (bitmap_new 9) = (Ok 0, bm1)"
    by auto
  from alloc_free_roundtrip[OF i a] a show ?thesis by auto
qed

lemma allocated_count_card:
  assumes "bitmap_inv bm" shows "allocated_count bm = card (alloc_set bm)"
proof -
  have "bm_total bm = bm_free bm + card (alloc_set bm)" using assms by (simp add: bitmap_inv_def)
  then show ?thesis by (simp add: allocated_count_def)
qed

text \<open>
  C22: A bitmap loaded from disk bytes is consistent for every input: its allocated set is the
  set of the bits below \<open>total_blocks\<close>, bytes missing at the end count as free, and the free
  count (computed by counting ones with a mask on the last byte) agrees with it.
\<close>

theorem bitmap_from_bytes_consistent:
  assumes "n \<le> U64 div 2"
  shows "bitmap_inv (bitmap_from_bytes data n) \<and>
    alloc_set (bitmap_from_bytes data n) = {b. b < n \<and> b div 8 < length data \<and> bit (data ! (b div 8)) (b mod 8)} \<and>
    allocated_count (bitmap_from_bytes data n) = card (alloc_set (bitmap_from_bytes data n))"
proof (intro conjI)
  show i: "bitmap_inv (bitmap_from_bytes data n)" by (rule bitmap_from_bytes_spec(1)[OF assms])
  show "allocated_count (bitmap_from_bytes data n) = card (alloc_set (bitmap_from_bytes data n))"
    by (rule allocated_count_card[OF i])
qed (rule bitmap_from_bytes_spec(2)[OF assms])

theorem bitmap_from_bytes_consistent_witness:
  "bitmap_inv (bitmap_from_bytes [5, 255] 11) \<and> is_allocated (bitmap_from_bytes [5, 255] 11) 2"
proof -
  have m: "2 \<in> {b :: nat. b < 11 \<and> b div 8 < length [5 :: u8, 255] \<and> bit ([5 :: u8, 255] ! (b div 8)) (b mod 8)}"
    by (simp add: bit_numeral_rec)
  have "(11 :: nat) \<le> U64 div 2" by simp
  from bitmap_from_bytes_consistent[OF this, of "[5, 255]"] m show ?thesis
    unfolding is_allocated_alloc_set by (metis (no_types, lifting))
qed

end
