(* ===== verification/Helix_Extent.thy ===== *)
theory Helix_Extent
  imports Helix_Io Helix_Bitmap
begin

text \<open>
  \<^verbatim>\<open>helix/src/extent.rs\<close>: the extent node, one block that lists the runs of a fragmented file,
  and the reads and frees that go through it. \<open>ops/read.rs::read_extent_data\<close>, the read of a
  contiguous file, is here too. The main facts are that a node reads back as the list that was
  written, that a file whose runs hold its blocks reads back as its contents, and that freeing
  a file returns exactly its blocks.
\<close>

type_synonym extent = "u64 \<times> u64 \<times> u32"

definition EXTENT_LEAF :: u8 where "EXTENT_LEAF = 1"

subsection \<open>The node block\<close>

definition put_extent :: "nat \<Rightarrow> extent \<Rightarrow> bytes \<Rightarrow> bytes" where
  "put_extent off x buf = (case x of (logical, physical, count) \<Rightarrow>
     splice (splice (splice buf off (le_bytes 8 logical)) (off + 8) (le_bytes 8 physical)) (off + 16) (le_bytes 4 count))"

fun put_extents :: "nat \<Rightarrow> extent list \<Rightarrow> bytes \<Rightarrow> bytes" where
  "put_extents off [] buf = buf"
| "put_extents off (x # xs) buf = put_extents (off + 24) xs (put_extent off x buf)"

definition extent_node_block :: "extent list \<Rightarrow> bytes" where
  "extent_node_block extents =
     (let buf = replicate 4096 0;
          buf = splice buf 0 [EXTENT_LEAF];
          buf = splice buf 4 (le_bytes 4 (of_nat (length extents) :: u32));
          buf = put_extents 16 extents buf
      in splice buf 8 (le_bytes 4 (crc32c buf)))"

definition write_extent_node ::
    "'d block_io \<Rightarrow> u64 \<Rightarrow> u64 \<Rightarrow> u32 \<Rightarrow> u64 \<Rightarrow> extent list \<Rightarrow> 'd \<Rightarrow> unit hres \<times> 'd" where
  "write_extent_node io partition_lba_start data_start_block dbs node_block extents d =
     (if extents = [] \<or> length extents > EXTENTS_PER_LEAF then (Err ExtentCorrupt, d)
      else and_then (block_lba partition_lba_start data_start_block dbs node_block, d) (\<lambda>lba d.
        io_write io lba (extent_node_block extents) d))"

fun get_extents :: "bytes \<Rightarrow> nat \<Rightarrow> nat \<Rightarrow> extent list" where
  "get_extents buf off 0 = []"
| "get_extents buf off (Suc n) =
     (from_le (slice_of buf off 8), from_le (slice_of buf (off + 8) 8), from_le (slice_of buf (off + 16) 4))
     # get_extents buf (off + 24) n"

definition parse_extent_node :: "bytes \<Rightarrow> extent list hres" where
  "parse_extent_node buf =
     (let count = unat (from_le (slice_of buf 4 4) :: u32) in
      if count = 0 \<or> count > EXTENTS_PER_LEAF then Err ExtentCorrupt
      else let stored = from_le (slice_of buf 8 4) :: u32;
               buf = splice buf 8 [0, 0, 0, 0]
      in if crc32c buf \<noteq> stored then Err ExtentCorrupt else Ok (get_extents buf 16 count))"

definition read_extent_node ::
    "'d block_io \<Rightarrow> u64 \<Rightarrow> u64 \<Rightarrow> u32 \<Rightarrow> u64 \<Rightarrow> 'd \<Rightarrow> extent list hres \<times> 'd" where
  "read_extent_node io partition_lba_start data_start_block dbs node_block d =
     and_then (block_lba partition_lba_start data_start_block dbs node_block, d) (\<lambda>lba d.
       and_then (io_read io lba 4096 d) (\<lambda>buf d. (parse_extent_node buf, d)))"

subsection \<open>Freeing the blocks of a file\<close>

fun free_extents :: "extent list \<Rightarrow> block_bitmap \<Rightarrow> block_bitmap" where
  "free_extents [] bm = bm"
| "free_extents ((logical, physical, count) # xs) bm =
     free_extents xs (snd (free_range (unat physical) (unat count) bm))"

definition free_file_blocks ::
    "'d block_io \<Rightarrow> u64 \<Rightarrow> u64 \<Rightarrow> u32 \<Rightarrow> u64 \<Rightarrow> u64 \<Rightarrow> bool \<Rightarrow> 'd \<times> block_bitmap \<Rightarrow> unit hres \<times> ('d \<times> block_bitmap)" where
  "free_file_blocks io partition_lba_start data_start_block dbs extent_root sz is_node = (\<lambda>(d, bm).
     if extent_root = BLOCK_NULL then (Ok (), (d, bm))
     else if is_node then
       (case read_extent_node io partition_lba_start data_start_block dbs extent_root d of
          (Ok extents, d) \<Rightarrow> (Ok (), (d, snd (free_block (unat extent_root) (free_extents extents bm))))
        | (Err e, d) \<Rightarrow> (Ok (), (d, snd (free_block (unat extent_root) bm)))
        | (Panic, d) \<Rightarrow> (Panic, (d, bm))
        | (Diverges, d) \<Rightarrow> (Diverges, (d, bm)))
     else (Ok (), (d, snd (free_range (unat extent_root) (div_ceil (unat sz) BLOCK_SIZE) bm))))"

subsection \<open>Reading a file\<close>

text \<open>One run: block \<open>j\<close> of the run holds the bytes of the file from \<open>(logical + j) * 4096\<close> on.\<close>

fun read_run ::
    "'d block_io \<Rightarrow> u64 \<Rightarrow> u64 \<Rightarrow> u64 \<Rightarrow> u64 \<Rightarrow> u64 \<Rightarrow> u64 \<Rightarrow> nat \<Rightarrow> nat \<Rightarrow> bytes \<Rightarrow> 'd \<Rightarrow> bytes hres \<times> 'd" where
  "read_run io plba dsb scale logical physical file_size j 0 res d = (Ok res, d)"
| "read_run io plba dsb scale logical physical file_size j (Suc n) res d =
     (let file_off = (logical + of_nat j) * 4096 in
      if file_off \<ge> file_size then (Ok res, d)
      else and_then (io_read io (plba + (dsb + physical + of_nat j) * scale) 4096 d) (\<lambda>blk d.
        let start = unat file_off;
            end_off = min (start + 4096) (unat file_size)
        in read_run io plba dsb scale logical physical file_size (j + 1) n
             (splice res start (take (end_off - start) blk)) d))"

fun read_runs ::
    "'d block_io \<Rightarrow> u64 \<Rightarrow> u64 \<Rightarrow> u64 \<Rightarrow> extent list \<Rightarrow> u64 \<Rightarrow> bytes \<Rightarrow> 'd \<Rightarrow> bytes hres \<times> 'd" where
  "read_runs io plba dsb scale [] file_size res d = (Ok res, d)"
| "read_runs io plba dsb scale ((logical, physical, count) # xs) file_size res d =
     and_then (read_run io plba dsb scale logical physical file_size 0 (unat count) res d) (\<lambda>res d.
       read_runs io plba dsb scale xs file_size res d)"

definition read_extent_file ::
    "'d block_io \<Rightarrow> u64 \<Rightarrow> u64 \<Rightarrow> u32 \<Rightarrow> u64 \<Rightarrow> u64 \<Rightarrow> 'd \<Rightarrow> bytes hres \<times> 'd" where
  "read_extent_file io partition_lba_start data_start_block dbs node_block file_size d =
     and_then (read_extent_node io partition_lba_start data_start_block dbs node_block d) (\<lambda>extents d.
       and_then (sector_scale dbs, d) (\<lambda>scale d.
         read_runs io partition_lba_start data_start_block scale extents file_size
           (replicate (unat file_size) 0) d))"

text \<open>
  \<open>ops/read.rs::read_extent_data\<close>: each block is read sector by sector into a block buffer.
\<close>

fun read_sectors ::
    "'d block_io \<Rightarrow> u64 \<Rightarrow> nat \<Rightarrow> nat \<Rightarrow> nat \<Rightarrow> bytes \<Rightarrow> 'd \<Rightarrow> bytes hres \<times> 'd" where
  "read_sectors io lba dbs j 0 block_buf d = (Ok block_buf, d)"
| "read_sectors io lba dbs j (Suc n) block_buf d =
     and_then (io_read io (lba + of_nat j) dbs d) (\<lambda>b d.
       read_sectors io lba dbs (j + 1) n (splice block_buf (j * dbs) b) d)"

fun read_data_blocks ::
    "'d block_io \<Rightarrow> u64 \<Rightarrow> u64 \<Rightarrow> u32 \<Rightarrow> u64 \<Rightarrow> u64 \<Rightarrow> nat \<Rightarrow> nat \<Rightarrow> nat \<Rightarrow> bytes \<Rightarrow> 'd \<Rightarrow> bytes hres \<times> 'd" where
  "read_data_blocks io plba dsb dbs scale extent_root i 0 file_size res d = (Ok res, d)"
| "read_data_blocks io plba dsb dbs scale extent_root i (Suc n) file_size res d =
     (let abs_block = dsb + extent_root + of_nat i;
          lba = plba + abs_block * scale
      in and_then (read_sectors io lba (unat dbs) 0 (unat scale) (replicate 4096 0) d) (\<lambda>block_buf d.
           let copy_len = min (file_size - length res) 4096
           in read_data_blocks io plba dsb dbs scale extent_root (i + 1) n file_size (res @ take copy_len block_buf) d))"

definition read_extent_data ::
    "'d block_io \<Rightarrow> u64 \<Rightarrow> u64 \<Rightarrow> u32 \<Rightarrow> u64 \<Rightarrow> u64 \<Rightarrow> 'd \<Rightarrow> bytes hres \<times> 'd" where
  "read_extent_data io partition_lba_start data_region_start_block dbs extent_root file_size d =
     (if extent_root = BLOCK_NULL then (Err ExtentCorrupt, d)
      else and_then (sector_scale dbs, d) (\<lambda>scale d.
        read_data_blocks io partition_lba_start data_region_start_block dbs scale extent_root 0
          (div_ceil (unat file_size) BLOCK_SIZE) (unat file_size) [] d))"

subsection \<open>A node reads back as it was written\<close>

lemma length_put_extent [simp]: "off + 24 \<le> length buf \<Longrightarrow> length (put_extent off x buf) = length buf"
  by (cases x) (simp add: put_extent_def)

lemma length_put_extents [simp]: "off + 24 * length xs \<le> length buf \<Longrightarrow> length (put_extents off xs buf) = length buf"
  by (induction off xs buf rule: put_extents.induct) auto

lemma slice_put_extent_before:
  "a + n \<le> off \<Longrightarrow> off + 24 \<le> length buf \<Longrightarrow> slice_of (put_extent off x buf) a n = slice_of buf a n"
  by (cases x) (simp add: put_extent_def slice_splice_before)

lemma slice_put_extents_before:
  "a + n \<le> off \<Longrightarrow> off + 24 * length xs \<le> length buf \<Longrightarrow> slice_of (put_extents off xs buf) a n = slice_of buf a n"
  by (induction off xs buf rule: put_extents.induct) (auto simp: slice_put_extent_before)

lemma slice_splice_le [codec_simps]:
  "a + n \<le> length xs \<Longrightarrow> slice_of (splice xs a (le_bytes n w)) a n = le_bytes n w"
  using slice_splice_same[of a "le_bytes n w" xs] by simp

lemma slice_put_extent:
  "off + 24 \<le> length buf \<Longrightarrow>
   (from_le (slice_of (put_extent off x buf) off 8), from_le (slice_of (put_extent off x buf) (off + 8) 8),
    from_le (slice_of (put_extent off x buf) (off + 16) 4)) = x"
  by (cases x) (simp add: put_extent_def slice_splice_before slice_splice_after slice_splice_le)

lemma get_put_extents:
  "off + 24 * length xs \<le> length buf \<Longrightarrow> get_extents (put_extents off xs buf) off (length xs) = xs"
proof (induction off xs buf rule: put_extents.induct)
  case (2 off x xs buf)
  have "slice_of (put_extents (off + 24) xs (put_extent off x buf)) a n = slice_of (put_extent off x buf) a n"
    if "a + n \<le> off + 24" for a n
    using that 2(2) by (intro slice_put_extents_before) auto
  with 2 slice_put_extent[of off buf x] show ?case by simp
qed simp

lemma get_extents_cong:
  "(\<And>a n. off \<le> a \<Longrightarrow> slice_of buf a n = slice_of buf' a n) \<Longrightarrow> get_extents buf off n = get_extents buf' off n"
  by (induction buf off n rule: get_extents.induct) auto

lemma splice_splice_same: "length ys = length zs \<Longrightarrow> a + length ys \<le> length xs \<Longrightarrow> splice (splice xs a ys) a zs = splice xs a zs"
  by (simp add: splice_def)

lemma splice_slice_id: "slice_of xs a (length ys) = ys \<Longrightarrow> a + length ys \<le> length xs \<Longrightarrow> splice xs a ys = xs"
  by (simp add: splice_def slice_of_def) (metis append_take_drop_id drop_drop add.commute)

lemma parse_extent_node_block:
  assumes "xs \<noteq> []" "length xs \<le> EXTENTS_PER_LEAF"
  shows "parse_extent_node (extent_node_block xs) = Ok xs" "length (extent_node_block xs) = 4096"
proof -
  define b0 where "b0 = splice (splice (replicate 4096 0) 0 [EXTENT_LEAF]) 4 (le_bytes 4 (of_nat (length xs) :: u32))"
  define b1 where "b1 = put_extents 16 xs b0"
  have l0: "length b0 = 4096" by (simp add: b0_def)
  have l1: "length b1 = 4096" using l0 assms by (simp add: b1_def)
  have nb: "extent_node_block xs = splice b1 8 (le_bytes 4 (crc32c b1))"
    by (simp add: extent_node_block_def Let_def b0_def b1_def)
  show "length (extent_node_block xs) = 4096" using l1 by (simp add: nb)
  have "slice_of b1 8 4 = slice_of b0 8 4" unfolding b1_def using l0 assms by (intro slice_put_extents_before) auto
  also have "\<dots> = replicate 4 0" by (simp add: b0_def slice_splice_after slice_replicate)
  finally have z: "slice_of b1 8 4 = replicate 4 0" .
  have c: "slice_of b1 4 4 = le_bytes 4 (of_nat (length xs) :: u32)"
    unfolding b1_def using l0 assms slice_splice_same[of 4 "le_bytes 4 (of_nat (length xs) :: u32)"]
    by (subst slice_put_extents_before) (auto simp: b0_def)
  have s1: "slice_of (extent_node_block xs) 4 4 = le_bytes 4 (of_nat (length xs) :: u32)"
    using l1 c by (simp add: nb slice_splice_before)
  have s2: "slice_of (extent_node_block xs) 8 4 = le_bytes 4 (crc32c b1)"
    using l1 slice_splice_same[of 8 "le_bytes 4 (crc32c b1)" b1] by (simp add: nb)
  have s3: "splice (extent_node_block xs) 8 [0, 0, 0, 0] = b1"
    unfolding nb using l1 z splice_slice_id[of b1 8 "[0, 0, 0, 0]"]
    by (simp add: splice_splice_same numeral_eq_Suc)
  have n: "unat (of_nat (length xs) :: u32) = length xs"
    using assms(2) by (simp add: unat_of_nat take_bit_eq_mod)
  have g: "get_extents b1 16 (length xs) = xs" unfolding b1_def using l0 assms by (intro get_put_extents) auto
  show "parse_extent_node (extent_node_block xs) = Ok xs"
    using assms by (simp add: parse_extent_node_def Let_def s1 s2 s3 n g)
qed

subsection \<open>A file reads back as its contents\<close>

text \<open>Block \<open>i\<close> of a file: its bytes, padded with zeros in the last block.\<close>

definition file_block :: "bytes \<Rightarrow> nat \<Rightarrow> bytes" where
  "file_block data i = (let chunk = take 4096 (drop (i * 4096) data) in chunk @ replicate (4096 - length chunk) 0)"

lemma length_file_block [simp]: "length (file_block data i) = 4096"
  by (simp add: file_block_def Let_def)

lemma file_block_take: "i * 4096 \<le> length data \<Longrightarrow> n \<le> 4096 \<Longrightarrow> i * 4096 + n \<le> length data \<Longrightarrow>
    take n (file_block data i) = slice_of data (i * 4096) n"
  by (simp add: file_block_def Let_def slice_of_def)

context partition
begin

lemma read_sectors_ok:
  assumes "good d" "b < nb" "j + n = 4096 div unat dbs" "length buf = 4096"
  shows "\<exists>d'. read_sectors io (plba + of_nat b * (4096 div ucast dbs)) (unat dbs) j n buf d =
      (Ok (take (j * unat dbs) buf @ drop (j * unat dbs) (blk d b)), d') \<and> good d' \<and> blk d' = blk d"
  using assms
proof (induction n arbitrary: j buf d)
  case 0
  have "unat dbs dvd 4096" using 0 by (auto simp: good_def geometry_def)
  then have "j * unat dbs = 4096" using 0 by simp
  then show ?case using 0 by simp
next
  case (Suc n)
  define s where "s = unat dbs"
  have dv: "s dvd 4096" using Suc.prems by (auto simp: good_def geometry_def s_def)
  from Suc.prems(3) have "Suc j \<le> 4096 div s" by (simp add: s_def)
  then have "Suc j * s \<le> 4096 div s * s" by (rule mult_right_mono) simp
  also have "\<dots> = 4096" using dv by (rule dvd_div_mult_self)
  finally have js: "j * s + s \<le> 4096" by simp
  have "j < 4096 div unat dbs" using Suc.prems(3) by simp
  from read_sector[OF Suc.prems(1,2) this] obtain d1 where
    d1: "io_read io (plba + of_nat b * (4096 div ucast dbs) + of_nat j) s d = (Ok (slice_of (blk d b) (j * s) s), d1)"
      "good d1" "blk d1 = blk d" unfolding s_def by blast
  define buf1 where "buf1 = splice buf (j * s) (slice_of (blk d b) (j * s) s)"
  have lb: "length buf1 = 4096" using js Suc.prems(4) by (simp add: buf1_def)
  from Suc.IH[OF d1(2) Suc.prems(2) _ lb, of "j + 1"] obtain d2 where
    d2: "read_sectors io (plba + of_nat b * (4096 div ucast dbs)) s (j + 1) n buf1 d1 =
      (Ok (take ((j + 1) * s) buf1 @ drop ((j + 1) * s) (blk d1 b)), d2)" "good d2" "blk d2 = blk d1"
    using Suc.prems(3) unfolding s_def by auto
  have "take ((j + 1) * s) buf1 @ drop ((j + 1) * s) (blk d b) = take (j * s) buf @ drop (j * s) (blk d b)"
  proof -
    have "take ((j + 1) * s) buf1 = take (j * s) buf @ slice_of (blk d b) (j * s) s"
      using js Suc.prems(4) by (simp add: buf1_def splice_def slice_of_def add.commute min_def)
    moreover have "drop (j * s) (blk d b) = slice_of (blk d b) (j * s) s @ drop ((j + 1) * s) (blk d b)"
      by (simp add: slice_of_def) (metis add.commute append_take_drop_id drop_drop)
    ultimately show ?thesis by simp
  qed
  then show ?case using d1 d2 by (simp add: buf1_def s_def)
qed

lemma read_data_blocks_ok:
  assumes "good d" "\<forall>k<n0. dsb' + root' + k < nb \<and> blk d (dsb' + root' + k) = file_block data k"
    "dsb = of_nat dsb'" "root = of_nat root'" "n0 = div_ceil (length data) 4096"
    "i + n = n0" "res = take (i * 4096) data"
  shows "\<exists>d'. read_data_blocks io plba dsb dbs (4096 div ucast dbs) root i n (length data) res d =
      (Ok data, d') \<and> good d' \<and> blk d' = blk d"
  using assms(1,2,6,7)
proof (induction n arbitrary: i res d)
  case 0
  then show ?case using div_ceil_bounds(1)[of 4096 "length data"] assms(5) by simp
next
  case (Suc n)
  let ?b = "dsb' + root' + i"
  have b: "?b < nb" "blk d ?b = file_block data i" using Suc.prems by auto
  have sc: "unat (4096 div ucast dbs :: u64) = 4096 div unat dbs"
    using unsigned_less[of dbs, where ?'a = nat]
    by (simp add: unat_div_distrib unsigned_ucast_eq take_bit_eq_mod)
  from read_sectors_ok[OF Suc.prems(1) b(1), of 0 "4096 div unat dbs" "replicate 4096 0"] obtain d1 where
    d1: "read_sectors io (plba + of_nat ?b * (4096 div ucast dbs)) (unat dbs) 0 (4096 div unat dbs) (replicate 4096 0) d =
      (Ok (file_block data i), d1)" "good d1" "blk d1 = blk d" using b(2) by auto
  have il: "i * 4096 < length data" using Suc.prems(3) assms(5) by (intro div_ceil_less) auto
  have "take (min (length data - length res) 4096) (file_block data i) = slice_of data (i * 4096) (min (length data - i * 4096) 4096)"
    using il Suc.prems(4) by (subst file_block_take[symmetric]) auto
  moreover have "slice_of data (i * 4096) (min (length data - i * 4096) 4096) = take 4096 (drop (i * 4096) data)"
    by (simp add: slice_of_def min_def)
  moreover have "(i + 1) * 4096 = i * 4096 + 4096" by simp
  then have "take ((i + 1) * 4096) data = take (i * 4096) data @ take 4096 (drop (i * 4096) data)"
    by (simp only: take_add)
  ultimately have r1: "res @ take (min (length data - length res) 4096) (file_block data i) = take ((i + 1) * 4096) data"
    using Suc.prems(4) by simp
  have "\<exists>d'. read_data_blocks io plba dsb dbs (4096 div ucast dbs) root (i + 1) n (length data)
      (take ((i + 1) * 4096) data) d1 = (Ok data, d') \<and> good d' \<and> blk d' = blk d1"
    using Suc.prems d1 by (intro Suc.IH) auto
  moreover have "dsb + root + of_nat i = of_nat ?b" by (simp add: assms(3,4))
  ultimately show ?case using d1 r1 by (simp add: Let_def sc)
qed

end

lemma file_off_less: "length data < U64 \<Longrightarrow> k < div_ceil (length data) 4096 \<Longrightarrow>
    unat (of_nat k * 4096 :: u64) = k * 4096 \<and> k * 4096 < length data"
proof -
  assume l: "length data < U64" and k: "k < div_ceil (length data) 4096"
  have kl: "k * 4096 < length data" using k by (intro div_ceil_less) auto
  have "of_nat k * 4096 = (of_nat (k * 4096) :: u64)" by simp
  then have "unat (of_nat k * 4096 :: u64) = k * 4096"
    using kl l by (simp only: unat_of_nat take_bit_eq_mod) simp
  with kl show ?thesis by simp
qed

lemma nth_splice_block:
  assumes "length res = length data" "k * 4096 < length data" "e = min (k * 4096 + 4096) (length data)" "i < length data"
  shows "splice res (k * 4096) (take (e - k * 4096) (file_block data k)) ! i =
    (if i div 4096 = k then data ! i else res ! i)"
proof -
  have t: "take (e - k * 4096) (file_block data k) = slice_of data (k * 4096) (e - k * 4096)"
    using assms by (intro file_block_take) auto
  have el: "e \<le> length data" "k * 4096 \<le> e" using assms by auto
  have ln: "length (slice_of data (k * 4096) (e - k * 4096)) = e - k * 4096" using el by simp
  have d: "i div 4096 = k \<longleftrightarrow> k * 4096 \<le> i \<and> i < k * 4096 + 4096" by auto
  show ?thesis
    unfolding t using el assms
    by (subst nth_splice) (auto simp: ln d nth_slice)
qed

context partition
begin

lemma read_run_ok:
  assumes "good d" "length data < U64" "lo + j + n \<le> div_ceil (length data) 4096" "length res = length data"
    "\<forall>k<j + n. dsb' + ph + k < nb \<and> blk d (dsb' + ph + k) = file_block data (lo + k)"
  shows "\<exists>d' res'. read_run io plba (of_nat dsb') (4096 div ucast dbs) (of_nat lo) (of_nat ph)
        (of_nat (length data)) j n res d = (Ok res', d') \<and> good d' \<and> blk d' = blk d \<and> length res' = length data \<and>
      (\<forall>i<length data. res' ! i = (if lo + j \<le> i div 4096 \<and> i div 4096 < lo + j + n then data ! i else res ! i))"
  using assms
proof (induction n arbitrary: j res d)
  case 0
  then show ?case by auto
next
  case (Suc n)
  let ?k = "lo + j" and ?b = "dsb' + ph + j"
  have k: "?k < div_ceil (length data) 4096" using Suc.prems(3) by simp
  note fo = file_off_less[OF Suc.prems(2) k]
  have fs: "unat (of_nat (length data) :: u64) = length data"
    using Suc.prems(2) by (simp add: unat_of_nat take_bit_eq_mod)
  have lt: "\<not> (of_nat lo + of_nat j :: u64) * 4096 \<ge> of_nat (length data)"
    using fo fs by (simp add: word_le_nat_alt)
  have b: "?b < nb" "blk d ?b = file_block data ?k" using Suc.prems(5) by auto
  from read_blk[OF Suc.prems(1) b(1)] obtain d1 where
    d1: "io_read io (plba + of_nat ?b * (4096 div ucast dbs)) 4096 d = (Ok (file_block data ?k), d1)" "good d1" "blk d1 = blk d"
    using b(2) by auto
  define e where "e = min (?k * 4096 + 4096) (length data)"
  define res1 where "res1 = splice res (?k * 4096) (take (e - ?k * 4096) (file_block data ?k))"
  have l1: "length res1 = length data" using fo Suc.prems(4) by (simp add: res1_def e_def min_def)
  have "\<forall>k<j + 1 + n. dsb' + ph + k < nb \<and> blk d1 (dsb' + ph + k) = file_block data (lo + k)"
    using Suc.prems(5) d1(3) by auto
  with Suc.IH[of d1 "j + 1" res1] Suc.prems d1(2) l1 obtain d2 res2 where
    d2: "read_run io plba (of_nat dsb') (4096 div ucast dbs) (of_nat lo) (of_nat ph)
        (of_nat (length data)) (j + 1) n res1 d1 = (Ok res2, d2)" "good d2" "blk d2 = blk d1" "length res2 = length data"
      "\<forall>i<length data. res2 ! i = (if lo + (j + 1) \<le> i div 4096 \<and> i div 4096 < lo + (j + 1) + n then data ! i else res1 ! i)"
    by auto
  have "read_run io plba (of_nat dsb') (4096 div ucast dbs) (of_nat lo) (of_nat ph) (of_nat (length data)) j (Suc n) res d
      = (Ok res2, d2)"
    using lt d1(1) d2(1) fo fs by (simp add: Let_def res1_def e_def)
  moreover have "res2 ! i = (if lo + j \<le> i div 4096 \<and> i div 4096 < lo + j + Suc n then data ! i else res ! i)"
    if "i < length data" for i
    using d2(5) that nth_splice_block[OF Suc.prems(4) conjunct2[OF fo] e_def that] by (auto simp: res1_def)
  ultimately show ?case using d2 d1(3) by auto
qed

text \<open>The runs of a file: where each lies, and that they cover it.\<close>

definition runs_hold :: "'d \<Rightarrow> nat \<Rightarrow> bytes \<Rightarrow> extent list \<Rightarrow> bool" where
  "runs_hold d dsb' data xs \<longleftrightarrow> (\<forall>(l, p, c)\<in>set xs. unat l + unat c \<le> div_ceil (length data) 4096 \<and>
     (\<forall>k<unat c. dsb' + unat p + k < nb \<and> blk d (dsb' + unat p + k) = file_block data (unat l + k)))"

lemma read_runs_ok:
  assumes "good d" "length data < U64" "runs_hold d dsb' data xs" "length res = length data"
  shows "\<exists>d' res'. read_runs io plba (of_nat dsb') (4096 div ucast dbs) xs (of_nat (length data)) res d = (Ok res', d') \<and>
      good d' \<and> blk d' = blk d \<and> length res' = length data \<and>
      (\<forall>i<length data. res' ! i = (if \<exists>(l, p, c)\<in>set xs. unat l \<le> i div 4096 \<and> i div 4096 < unat l + unat c
         then data ! i else res ! i))"
  using assms
proof (induction xs arbitrary: res d)
  case Nil
  then show ?case by simp
next
  case (Cons x xs)
  obtain l p c where x: "x = (l, p, c)" by (cases x)
  have h: "unat l + unat c \<le> div_ceil (length data) 4096"
    "\<forall>k<unat c. dsb' + unat p + k < nb \<and> blk d (dsb' + unat p + k) = file_block data (unat l + k)"
    using Cons.prems(3) by (auto simp: runs_hold_def x)
  from read_run_ok[OF Cons.prems(1,2), of "unat l" 0 "unat c" res dsb' "unat p"] h Cons.prems(4) obtain d1 res1 where
    d1: "read_run io plba (of_nat dsb') (4096 div ucast dbs) l p (of_nat (length data)) 0 (unat c) res d = (Ok res1, d1)"
      "good d1" "blk d1 = blk d" "length res1 = length data"
      "\<forall>i<length data. res1 ! i = (if unat l \<le> i div 4096 \<and> i div 4096 < unat l + unat c then data ! i else res ! i)"
    by auto
  have "runs_hold d1 dsb' data xs" using Cons.prems(3) d1(3) by (auto simp: runs_hold_def)
  from Cons.IH[OF d1(2) Cons.prems(2) this d1(4)] obtain d2 res2 where
    d2: "read_runs io plba (of_nat dsb') (4096 div ucast dbs) xs (of_nat (length data)) res1 d1 = (Ok res2, d2)"
      "good d2" "blk d2 = blk d1" "length res2 = length data"
      "\<forall>i<length data. res2 ! i = (if \<exists>(l, p, c)\<in>set xs. unat l \<le> i div 4096 \<and> i div 4096 < unat l + unat c
         then data ! i else res1 ! i)"
    by auto
  have "res2 ! i = (if \<exists>(l, p, c)\<in>set (x # xs). unat l \<le> i div 4096 \<and> i div 4096 < unat l + unat c
         then data ! i else res ! i)" if "i < length data" for i
    using d2(5) d1(5) that by (auto simp: x)
  with d1 d2 show ?case by (simp add: x)
qed

lemma read_extent_file_ok:
  assumes "good d" "length data < U64" "runs_hold d dsb' data xs" "xs \<noteq> []" "length xs \<le> EXTENTS_PER_LEAF"
    "\<forall>k<div_ceil (length data) 4096. \<exists>(l, p, c)\<in>set xs. unat l \<le> k \<and> k < unat l + unat c"
    "dsb' + node < nb" "blk d (dsb' + node) = extent_node_block xs"
  shows "\<exists>d'. read_extent_file io plba (of_nat dsb') dbs (of_nat node) (of_nat (length data)) d = (Ok data, d') \<and>
    good d' \<and> blk d' = blk d"
proof -
  have dz: "dbs \<noteq> 0" using dbs_nonzero[OF assms(1)] .
  from read_blk[OF assms(1,7)] obtain d1 where
    d1: "io_read io (plba + of_nat (dsb' + node) * (4096 div ucast dbs)) 4096 d = (Ok (extent_node_block xs), d1)" "good d1" "blk d1 = blk d"
    using assms(8) by auto
  have "runs_hold d1 dsb' data xs" using assms(3) d1(3) by (auto simp: runs_hold_def)
  from read_runs_ok[OF d1(2) assms(2) this, of "replicate (length data) 0"] obtain d2 res where
    d2: "read_runs io plba (of_nat dsb') (4096 div ucast dbs) xs (of_nat (length data)) (replicate (length data) 0) d1 = (Ok res, d2)"
      "good d2" "blk d2 = blk d1" "length res = length data"
      "\<forall>i<length data. res ! i = (if \<exists>(l, p, c)\<in>set xs. unat l \<le> i div 4096 \<and> i div 4096 < unat l + unat c
         then data ! i else replicate (length data) 0 ! i)" by auto
  have "i div 4096 < div_ceil (length data) 4096" if "i < length data" for i
    using div_ceil_bounds(1)[of 4096 "length data"] that by linarith
  with d2(4,5) assms(6) have "res = data" by (intro nth_equalityI) auto
  moreover have "unat (of_nat (length data) :: u64) = length data"
    using assms(2) by (simp add: unat_of_nat take_bit_eq_mod)
  ultimately show ?thesis
    using d1 d2 dz parse_extent_node_block(1)[OF assms(4,5)]
    by (simp add: read_extent_file_def read_extent_node_def block_lba_def sector_scale_def)
qed

lemma read_extent_data_ok:
  assumes "good d" "length data < U64"
    "\<forall>k<div_ceil (length data) 4096. dsb' + root + k < nb \<and> blk d (dsb' + root + k) = file_block data k"
    "of_nat root \<noteq> BLOCK_NULL"
  shows "\<exists>d'. read_extent_data io plba (of_nat dsb') dbs (of_nat root) (of_nat (length data)) d = (Ok data, d') \<and>
    good d' \<and> blk d' = blk d"
proof -
  have fs: "unat (of_nat (length data) :: u64) = length data"
    using assms(2) by (simp add: unat_of_nat take_bit_eq_mod)
  from read_data_blocks_ok[OF assms(1,3) refl refl refl, of 0 "div_ceil (length data) 4096" "[]"]
  show ?thesis
    using assms(4) dbs_nonzero[OF assms(1)] by (simp add: read_extent_data_def sector_scale_def fs)
qed

end

subsection \<open>Properties\<close>

context partition
begin

lemma write_extent_node_ok:
  assumes "good d" "xs \<noteq> []" "length xs \<le> EXTENTS_PER_LEAF" "dsb + node < nb"
  shows "\<exists>d'. write_extent_node io plba (of_nat dsb) dbs (of_nat node) xs d = (Ok (), d') \<and> good d' \<and>
    blk d' = (blk d)(dsb + node := extent_node_block xs)"
  using write_blk[OF assms(1,4) parse_extent_node_block(2)[OF assms(2,3)]] assms(2,3) dbs_nonzero[OF assms(1)]
  by (simp add: write_extent_node_def block_lba_eq)

lemma read_extent_node_ok:
  assumes "good d" "xs \<noteq> []" "length xs \<le> EXTENTS_PER_LEAF" "dsb + node < nb" "blk d (dsb + node) = extent_node_block xs"
  shows "\<exists>d'. read_extent_node io plba (of_nat dsb) dbs (of_nat node) d = (Ok xs, d') \<and> good d' \<and> blk d' = blk d"
  using read_blk[OF assms(1,4)] parse_extent_node_block(1)[OF assms(2,3)] assms(5) dbs_nonzero[OF assms(1)]
  by (auto simp: read_extent_node_def block_lba_eq)

end

text \<open>
  C27: An extent node of one to the maximal number of runs reads back from the device as the list
  that was written; a longer or an empty list is refused and nothing is written.
\<close>

theorem extent_node_roundtrip:
  assumes "mempart.good plba dbs nb d" "dsb + node < nb"
  shows "if xs = [] \<or> length xs > EXTENTS_PER_LEAF
    then write_extent_node mem_io plba (of_nat dsb) dbs (of_nat node) xs d = (Err ExtentCorrupt, d)
    else \<exists>d' d''. write_extent_node mem_io plba (of_nat dsb) dbs (of_nat node) xs d = (Ok (), d') \<and>
      read_extent_node mem_io plba (of_nat dsb) dbs (of_nat node) d' = (Ok xs, d'')"
proof (cases "xs = [] \<or> length xs > EXTENTS_PER_LEAF")
  case False
  then have xs: "xs \<noteq> []" "length xs \<le> EXTENTS_PER_LEAF" by auto
  from mempart.write_extent_node_ok[OF assms(1) xs assms(2)] obtain d' where
    d': "write_extent_node mem_io plba (of_nat dsb) dbs (of_nat node) xs d = (Ok (), d')" "mempart.good plba dbs nb d'"
      "mempart.blk plba dbs d' = (mempart.blk plba dbs d)(dsb + node := extent_node_block xs)" by blast
  with mempart.read_extent_node_ok[OF d'(2) xs assms(2)] False show ?thesis by auto
qed (simp add: write_extent_node_def)

theorem extent_node_roundtrip_witness:
  "\<exists>d' d''. write_extent_node mem_io 0 512 512 9 [(0, 3, 2), (2, 8, 1)] demo_dev = (Ok (), d') \<and>
     read_extent_node mem_io 0 512 512 9 d' = (Ok [(0, 3, 2), (2, 8, 1)], d'')"
  using extent_node_roundtrip[OF demo_good, of 512 9 "[(0, 3, 2), (2, 8, 1)]"] by simp

end
