(* ===== verification/Helix_Ops.thy ===== *)
theory Helix_Ops
  imports Helix_Recovery Helix_Extent
begin

text \<open>
  \<^verbatim>\<open>helix/src/ops/\<close>: \<open>write_file\<close> with its three residencies (inline, one contiguous run,
  fragmented with an extent node), \<open>rename\<close>, \<open>mkdir\<close>, \<open>readdir\<close>, \<open>unlink\<close> and the reads. An
  operation maps the device and the volume state to its outcome and the new state; the volume
  is the record of the three structures the Rust functions borrow mutably.
\<close>

record vol =
  v_log :: log_engine
  v_index :: index
  v_bitmap :: block_bitmap

text \<open>Lifting of operations on one component to the volume.\<close>

definition on_log :: "('d \<times> log_engine \<Rightarrow> 'r \<times> ('d \<times> log_engine)) \<Rightarrow> 'd \<times> 'a vol_scheme \<Rightarrow> 'r \<times> ('d \<times> 'a vol_scheme)" where
  "on_log f = (\<lambda>(d, v). case f (d, v_log v) of (r, (d, l)) \<Rightarrow> (r, (d, v\<lparr>v_log := l\<rparr>)))"

definition on_bitmap :: "(block_bitmap \<Rightarrow> 'r \<times> block_bitmap) \<Rightarrow> 'd \<times> 'a vol_scheme \<Rightarrow> 'r \<times> ('d \<times> 'a vol_scheme)" where
  "on_bitmap f = (\<lambda>(d, v). case f (v_bitmap v) of (r, b) \<Rightarrow> (r, (d, v\<lparr>v_bitmap := b\<rparr>)))"

definition on_dev_bitmap ::
    "('d \<times> block_bitmap \<Rightarrow> 'r \<times> ('d \<times> block_bitmap)) \<Rightarrow> 'd \<times> 'a vol_scheme \<Rightarrow> 'r \<times> ('d \<times> 'a vol_scheme)" where
  "on_dev_bitmap f = (\<lambda>(d, v). case f (d, v_bitmap v) of (r, (d, b)) \<Rightarrow> (r, (d, v\<lparr>v_bitmap := b\<rparr>)))"

definition on_index :: "(index \<Rightarrow> 'r \<times> index) \<Rightarrow> 'd \<times> 'a vol_scheme \<Rightarrow> 'r \<times> ('d \<times> 'a vol_scheme)" where
  "on_index f = (\<lambda>(d, v). case f (v_index v) of (r, ix) \<Rightarrow> (r, (d, v\<lparr>v_index := ix\<rparr>)))"

subsection \<open>Payloads\<close>

text \<open>\<open>[path_len: u16][path]\<close>, the prefix of every record.\<close>

definition path_payload :: "bytes \<Rightarrow> bytes" where
  "path_payload path = le_bytes 2 (of_nat (length path) :: u16) @ path"

definition build_extent_payload :: "bytes \<Rightarrow> u8 \<Rightarrow> u64 \<Rightarrow> u64 \<Rightarrow> bytes" where
  "build_extent_payload path kind file_size extent_root =
     path_payload path @ [kind] @ le_bytes 8 file_size @ le_bytes 8 extent_root"

subsection \<open>Parent directories\<close>

fun dir_loop :: "'d block_io \<Rightarrow> u64 \<Rightarrow> bytes \<Rightarrow> bytes list \<Rightarrow> 'd \<times> 'a vol_scheme \<Rightarrow> unit hres \<times> ('d \<times> 'a vol_scheme)" where
  "dir_loop io timestamp_ns current [] s = (Ok (), s)"
| "dir_loop io timestamp_ns current (part # parts) (d, v) =
     (let current = current @ part @ [SLASH] in
      if lookup (v_index v) current = None then
        and_then (on_log (log_append io MkDir (fnv1a_64 current) (path_payload current) timestamp_ns) (d, v)) (\<lambda>lsn (d, v).
          dir_loop io timestamp_ns current parts
            (d, v\<lparr>v_index := upsert (v_index v) (make_dir_entry current lsn timestamp_ns)\<rparr>))
      else dir_loop io timestamp_ns current parts (d, v))"

text \<open>
  The version of \<open>ops/write.rs\<close>. The version of \<open>ops/dir.rs\<close> trims trailing slashes first.
\<close>

definition ensure_parent_dirs ::
    "'d block_io \<Rightarrow> bytes \<Rightarrow> u64 \<Rightarrow> 'd \<times> 'a vol_scheme \<Rightarrow> unit hres \<times> ('d \<times> 'a vol_scheme)" where
  "ensure_parent_dirs io path timestamp_ns s =
     (let parts = filter (\<lambda>c. c \<noteq> []) (split_slash path) in
      if length parts \<le> 1 then (Ok (), s)
      else dir_loop io timestamp_ns [SLASH] (butlast parts) s)"

definition ensure_parent_dirs_trimmed ::
    "'d block_io \<Rightarrow> bytes \<Rightarrow> u64 \<Rightarrow> 'd \<times> 'a vol_scheme \<Rightarrow> unit hres \<times> ('d \<times> 'a vol_scheme)" where
  "ensure_parent_dirs_trimmed io path timestamp_ns s = ensure_parent_dirs io (trim_end_slash path) timestamp_ns s"

subsection \<open>write_file\<close>

text \<open>The block writes of a file: \<open>block i\<close> of the data goes to the \<open>i\<close>-th listed block.\<close>

fun write_data_blocks ::
    "'d block_io \<Rightarrow> u64 \<Rightarrow> u64 \<Rightarrow> u64 \<Rightarrow> u64 list \<Rightarrow> nat \<Rightarrow> bytes \<Rightarrow> 'd \<Rightarrow> bool \<times> 'd" where
  "write_data_blocks io plba dsb scale [] write_offset data d = (True, d)"
| "write_data_blocks io plba dsb scale (b # bs) write_offset data d =
     (let chunk = min (length data - write_offset) 4096;
          block_buf = splice (replicate 4096 0) 0 (slice_of data write_offset chunk);
          lba = plba + (dsb + b) * scale
      in case write_blocks io lba block_buf d of
           (ok, d) \<Rightarrow> if ok then write_data_blocks io plba dsb scale bs (write_offset + chunk) data d else (False, d))"

definition commit_entry :: "bytes \<Rightarrow> index_entry \<Rightarrow> 'a vol_scheme \<Rightarrow> 'a vol_scheme" where
  "commit_entry path entry v = v\<lparr>v_index := upsert (v_index v) (inherit_birth (v_index v) path entry)\<rparr>"

definition content_crc :: "bytes \<Rightarrow> u64" where
  "content_crc data = (if data = [] then 0 else crc64 data)"

definition write_inline ::
    "'d block_io \<Rightarrow> bytes \<Rightarrow> bytes \<Rightarrow> u64 \<Rightarrow> 'd \<times> 'a vol_scheme \<Rightarrow> u64 hres \<times> ('d \<times> 'a vol_scheme)" where
  "write_inline io path data timestamp_ns s =
     and_then (on_log (log_append io Write (fnv1a_64 path) (path_payload path @ data) timestamp_ns) s) (\<lambda>lsn (d, v).
       (Ok lsn, (d, commit_entry path (make_file_entry path lsn (of_nat (length data)) timestamp_ns (Some data)
                        BLOCK_NULL (content_crc data)) v)))"

definition write_contiguous ::
    "'d block_io \<Rightarrow> u64 \<Rightarrow> u32 \<Rightarrow> u64 \<Rightarrow> bytes \<Rightarrow> bytes \<Rightarrow> u64 \<Rightarrow> nat \<Rightarrow> 'd \<times> 'a vol_scheme
     \<Rightarrow> u64 hres \<times> ('d \<times> 'a vol_scheme)" where
  "write_contiguous io plba dbs dsb path data timestamp_ns start = (\<lambda>(d, v).
     let blocks_needed = div_ceil (length data) BLOCK_SIZE in
     and_then (sector_scale dbs, (d, v)) (\<lambda>scale (d, v).
     case write_data_blocks io plba dsb scale (map (\<lambda>i. of_nat start + of_nat i) [0..<blocks_needed]) 0 data d of (ok, d) \<Rightarrow>
     if \<not> ok then (Err IoWriteFailed, (d, v\<lparr>v_bitmap := snd (free_range start blocks_needed (v_bitmap v))\<rparr>))
     else case on_log (append_full io Write REC_IS_EXTENT (fnv1a_64 path) 0 0
                (build_extent_payload path EXTENT_CONTIGUOUS (of_nat (length data)) (of_nat start)) timestamp_ns) (d, v) of
       (Ok lsn, (d, v)) \<Rightarrow>
         (Ok lsn, (d, commit_entry path (make_file_entry path lsn (of_nat (length data)) timestamp_ns None
                          (of_nat start) (content_crc data)) v))
     | (Err e, (d, v)) \<Rightarrow> (Err e, (d, v\<lparr>v_bitmap := snd (free_range start blocks_needed (v_bitmap v))\<rparr>))
     | (Panic, s) \<Rightarrow> (Panic, s) | (Diverges, s) \<Rightarrow> (Diverges, s)))"

text \<open>
  \<open>write_file_fragmented\<close>: the allocation loop coalesces a block that continues the last run.
  Its \<open>?\<close> returns without giving back the blocks allocated so far.
\<close>

fun alloc_extents :: "nat \<Rightarrow> u64 \<Rightarrow> extent list \<Rightarrow> block_bitmap \<Rightarrow> extent list hres \<times> block_bitmap" where
  "alloc_extents 0 logical_block extents bm = (Ok extents, bm)"
| "alloc_extents (Suc n) logical_block extents bm =
     and_then (alloc_block bm) (\<lambda>phys bm.
       if extents \<noteq> [] \<and> (case last extents of (l, p, c) \<Rightarrow> p + ucast c = of_nat phys) then
         alloc_extents n (logical_block + 1)
           (butlast extents @ [case last extents of (l, p, c) \<Rightarrow> (l, p, c + 1)]) bm
       else alloc_extents n (logical_block + 1) (extents @ [(logical_block, of_nat phys, 1)]) bm)"

definition extent_blocks :: "extent list \<Rightarrow> u64 list" where
  "extent_blocks extents = concat (map (\<lambda>(l, p, c). map (\<lambda>j. p + of_nat j) [0..<unat c]) extents)"

definition write_file_fragmented ::
    "'d block_io \<Rightarrow> u64 \<Rightarrow> u32 \<Rightarrow> u64 \<Rightarrow> bytes \<Rightarrow> bytes \<Rightarrow> u64 \<Rightarrow> 'd \<times> 'a vol_scheme
     \<Rightarrow> u64 hres \<times> ('d \<times> 'a vol_scheme)" where
  "write_file_fragmented io plba dbs dsb path data timestamp_ns s =
     (let blocks_needed = div_ceil (length data) BLOCK_SIZE in
      and_then (on_bitmap (alloc_extents blocks_needed 0 []) s) (\<lambda>extents s.
      and_then (sector_scale dbs, s) (\<lambda>scale (d, v).
      case write_data_blocks io plba dsb scale (extent_blocks extents) 0 data d of (ok, d) \<Rightarrow>
      if \<not> ok then (Err IoWriteFailed, (d, v\<lparr>v_bitmap := free_extents extents (v_bitmap v)\<rparr>))
      else case on_bitmap alloc_block (d, v) of
        (Ok node_block, (d, v)) \<Rightarrow>
          (let roll_back = (\<lambda>v. v\<lparr>v_bitmap := free_extents extents (snd (free_block node_block (v_bitmap v)))\<rparr>) in
           case write_extent_node io plba dsb dbs (of_nat node_block) extents d of
             (Ok _, d) \<Rightarrow>
               (case on_log (append_full io Write REC_IS_EXTENT (fnv1a_64 path) 0 0
                     (build_extent_payload path EXTENT_NODE (of_nat (length data)) (of_nat node_block)) timestamp_ns) (d, v) of
                  (Ok lsn, (d, v)) \<Rightarrow>
                    (let entry = make_file_entry path lsn (of_nat (length data)) timestamp_ns None
                           (of_nat node_block) (content_crc data)
                     in (Ok lsn, (d, commit_entry path (entry\<lparr>e_flags := e_flags entry OR IS_EXTENT_NODE\<rparr>) v)))
                | (Err e, (d, v)) \<Rightarrow> (Err e, (d, roll_back v))
                | (Panic, s) \<Rightarrow> (Panic, s) | (Diverges, s) \<Rightarrow> (Diverges, s))
           | (Err e, d) \<Rightarrow> (Err e, (d, roll_back v))
           | (Panic, d) \<Rightarrow> (Panic, (d, v)) | (Diverges, d) \<Rightarrow> (Diverges, (d, v)))
      | (Err e, (d, v)) \<Rightarrow> (Err e, (d, v\<lparr>v_bitmap := free_extents extents (v_bitmap v)\<rparr>))
      | (Panic, s) \<Rightarrow> (Panic, s) | (Diverges, s) \<Rightarrow> (Diverges, s))))"

definition write_file ::
    "'d block_io \<Rightarrow> u64 \<Rightarrow> u32 \<Rightarrow> u64 \<Rightarrow> bytes \<Rightarrow> bytes \<Rightarrow> u64 \<Rightarrow> 'd \<times> 'a vol_scheme
     \<Rightarrow> u64 hres \<times> ('d \<times> 'a vol_scheme)" where
  "write_file io plba dbs dsb path data timestamp_ns s =
     and_then (validate_path path, s) (\<lambda>_ (d, v).
     if length path > 1 \<and> ends_with_slash path then (Err PathInvalid, (d, v))
     else if (case lookup_flex (v_index v) path of Some existing \<Rightarrow> has_flag existing IS_DIR | None \<Rightarrow> False)
     then (Err IsADirectory, (d, v))
     else and_then (ensure_parent_dirs io path timestamp_ns (d, v)) (\<lambda>_ s.
       if length data \<le> INLINE_DATA_SIZE then write_inline io path data timestamp_ns s
       else let blocks_needed = div_ceil (length data) BLOCK_SIZE in
         case on_bitmap (alloc_contiguous blocks_needed) s of
           (Ok start, s) \<Rightarrow> write_contiguous io plba dbs dsb path data timestamp_ns start s
         | (Err e, s) \<Rightarrow>
             (if e = NoSpace then write_file_fragmented io plba dbs dsb path data timestamp_ns s else (Err e, s))
         | (Panic, s) \<Rightarrow> (Panic, s) | (Diverges, s) \<Rightarrow> (Diverges, s)))"

subsection \<open>rename\<close>

definition dir_prefix :: "bytes \<Rightarrow> bytes" where
  "dir_prefix path = (if \<not> ends_with_slash path then path @ [SLASH] else path)"

definition log_rename_one ::
    "'d block_io \<Rightarrow> bytes \<Rightarrow> bytes \<Rightarrow> u64 \<Rightarrow> 'd \<times> 'a vol_scheme \<Rightarrow> u64 hres \<times> ('d \<times> 'a vol_scheme)" where
  "log_rename_one io old_full new_full timestamp_ns = (\<lambda>(d, v).
     case lookup (v_index v) old_full of None \<Rightarrow> (Err NotFound, (d, v))
     | Some old_entry \<Rightarrow>
       and_then (on_log (append_full io Rename 0 (fnv1a_64 old_full) (fnv1a_64 new_full) 0
           (path_payload old_full @ path_payload new_full) timestamp_ns) (d, v)) (\<lambda>lsn s.
       and_then (on_index (\<lambda>ix. mark_deleted ix old_full) s) (\<lambda>_ (d, v).
         (Ok lsn, (d, v\<lparr>v_index := upsert (v_index v) (moved_entry old_entry new_full lsn timestamp_ns)\<rparr>)))))"

text \<open>The moves of a directory: every live path below it, in index order.\<close>

fun collect_moves :: "bytes \<Rightarrow> bytes \<Rightarrow> index \<Rightarrow> (bytes \<times> bytes) list hres" where
  "collect_moves old_prefix new_prefix [] = Ok []"
| "collect_moves old_prefix new_prefix (entry # es) =
     (if has_flag entry IS_DELETED then collect_moves old_prefix new_prefix es
      else let p = path_str (e_path entry) in
        if starts_with p old_prefix then
          let to_path = new_prefix @ drop (length old_prefix) p in
          if length to_path > MAX_PATH_LEN then Err PathTooLong
          else res_bind (collect_moves old_prefix new_prefix es) (\<lambda>moves. Ok ((p, to_path) # moves))
        else collect_moves old_prefix new_prefix es)"

fun rename_all ::
    "'d block_io \<Rightarrow> u64 \<Rightarrow> (bytes \<times> bytes) list \<Rightarrow> u64 \<Rightarrow> 'd \<times> 'a vol_scheme \<Rightarrow> u64 hres \<times> ('d \<times> 'a vol_scheme)" where
  "rename_all io timestamp_ns [] last_lsn s = (Ok last_lsn, s)"
| "rename_all io timestamp_ns ((from_path, to_path) # moves) last_lsn s =
     and_then (log_rename_one io from_path to_path timestamp_ns s) (\<lambda>lsn s. rename_all io timestamp_ns moves lsn s)"

definition rename_dir ::
    "'d block_io \<Rightarrow> bytes \<Rightarrow> bytes \<Rightarrow> u64 \<Rightarrow> 'd \<times> 'a vol_scheme \<Rightarrow> u64 hres \<times> ('d \<times> 'a vol_scheme)" where
  "rename_dir io old_path new_path timestamp_ns = (\<lambda>(d, v).
     let old_prefix = dir_prefix old_path; new_prefix = dir_prefix new_path in
     if length new_prefix > MAX_PATH_LEN then (Err PathTooLong, (d, v))
     else if starts_with new_prefix old_prefix then (Err PathInvalid, (d, v))
     else if lookup (v_index v) new_prefix \<noteq> None then (Err AlreadyExists, (d, v))
     else and_then (collect_moves old_prefix new_prefix (v_index v), (d, v)) (\<lambda>moves s.
       rename_all io timestamp_ns moves 0 s))"

text \<open>A file that is the target of a rename is freed and deleted without a record in the log.\<close>

definition clobber_dest ::
    "'d block_io \<Rightarrow> u64 \<Rightarrow> u64 \<Rightarrow> u32 \<Rightarrow> bytes \<Rightarrow> 'd \<times> 'a vol_scheme \<Rightarrow> unit hres \<times> ('d \<times> 'a vol_scheme)" where
  "clobber_dest io plba dsb dbs new_path = (\<lambda>(d, v).
     case lookup_flex (v_index v) new_path of None \<Rightarrow> (Ok (), (d, v))
     | Some dest \<Rightarrow>
       if has_flag dest IS_DIR then (Err IsADirectory, (d, v))
       else and_then
         (if has_flag dest IS_INLINE then (Ok (), (d, v))
          else on_dev_bitmap (free_file_blocks io plba dsb dbs (e_extent_root dest) (e_size dest)
                 (has_flag dest IS_EXTENT_NODE)) (d, v)) (\<lambda>_ s.
         on_index (\<lambda>ix. mark_deleted ix new_path) s))"

definition rename ::
    "'d block_io \<Rightarrow> u64 \<Rightarrow> u64 \<Rightarrow> u32 \<Rightarrow> bytes \<Rightarrow> bytes \<Rightarrow> u64 \<Rightarrow> 'd \<times> 'a vol_scheme
     \<Rightarrow> u64 hres \<times> ('d \<times> 'a vol_scheme)" where
  "rename io plba dsb dbs old_path new_path timestamp_ns s =
     and_then (validate_path new_path, s) (\<lambda>_ (d, v).
     case lookup_flex (v_index v) old_path of None \<Rightarrow> (Err NotFound, (d, v))
     | Some src \<Rightarrow>
       if has_flag src IS_DIR then rename_dir io old_path new_path timestamp_ns (d, v)
       else and_then (clobber_dest io plba dsb dbs new_path (d, v)) (\<lambda>_ s.
         log_rename_one io old_path new_path timestamp_ns s))"

subsection \<open>mkdir, readdir, unlink\<close>

definition mkdir :: "'d block_io \<Rightarrow> bytes \<Rightarrow> u64 \<Rightarrow> 'd \<times> 'a vol_scheme \<Rightarrow> u64 hres \<times> ('d \<times> 'a vol_scheme)" where
  "mkdir io path timestamp_ns s =
     and_then (validate_path path, s) (\<lambda>_ (d, v).
     let normalized = (if ends_with_slash path then path else path @ [SLASH]) in
     if length normalized > MAX_PATH_LEN then (Err PathTooLong, (d, v))
     else if lookup (v_index v) normalized \<noteq> None then (Err AlreadyExists, (d, v))
     else if lookup (v_index v) (trim_end_slash normalized) \<noteq> None then (Err AlreadyExists, (d, v))
     else and_then (ensure_parent_dirs_trimmed io normalized timestamp_ns (d, v)) (\<lambda>_ s.
       and_then (on_log (log_append io MkDir (fnv1a_64 normalized) (path_payload normalized) timestamp_ns) s) (\<lambda>lsn (d, v).
         (Ok lsn, (d, v\<lparr>v_index := upsert (v_index v) (make_dir_entry normalized lsn timestamp_ns)\<rparr>)))))"

record dir_entry =
  de_name_len :: u16
  de_d_type :: u8
  de_version_count :: u32
  de_size :: u64
  de_modified_ns :: u64
  de_name :: bytes

definition DT_DIR :: u8 where "DT_DIR = 4"
definition DT_REG :: u8 where "DT_REG = 8"

text \<open>
  One listed child; \<open>None\<close> is the \<open>continue\<close>. The slice \<open>name_str[normalized.len()..]\<close>
  panics when the stored path is not UTF-8, because \<open>path_str\<close> is then empty.
\<close>

definition list_child :: "bytes \<Rightarrow> index_entry \<Rightarrow> dir_entry option hres" where
  "list_child normalized child =
     (let name_str = path_str (e_path child);
          is_dir = has_flag child IS_DIR;
          filename =
            (if is_dir then
               if length normalized > length name_str then Panic
               else let trimmed = trim_end_slash (drop (length normalized) name_str) in
                 if SLASH \<in> set trimmed then Ok [] else Ok trimmed
             else Ok (filename name_str))
      in res_bind filename (\<lambda>filename.
           if filename = [] then Ok None
           else let len = min (length filename) 255 in
             Ok (Some \<lparr>de_name_len = of_nat len, de_d_type = (if is_dir then DT_DIR else DT_REG),
                       de_version_count = e_version_count child, de_size = e_size child,
                       de_modified_ns = e_modified_ns child,
                       de_name = splice (replicate 256 0) 0 (take len filename)\<rparr>)))"

fun list_children :: "bytes \<Rightarrow> index \<Rightarrow> dir_entry list hres" where
  "list_children normalized [] = Ok []"
| "list_children normalized (child # cs) =
     res_bind (list_child normalized child) (\<lambda>o'. res_bind (list_children normalized cs) (\<lambda>es.
       Ok (case o' of None \<Rightarrow> es | Some e \<Rightarrow> e # es)))"

definition readdir_op :: "index \<Rightarrow> bytes \<Rightarrow> dir_entry list hres" where
  "readdir_op ix dir_path =
     (let normalized = (if dir_path = [SLASH] then [SLASH]
            else if ends_with_slash dir_path then dir_path else dir_path @ [SLASH])
      in res_bind
        (if normalized \<noteq> [SLASH] then
           (case lookup ix normalized of None \<Rightarrow> Err NotFound
            | Some dir_entry \<Rightarrow>
                if \<not> has_flag dir_entry IS_DIR then Err NotADirectory
                else if has_flag dir_entry IS_DELETED then Err NotFound else Ok ())
         else Ok ())
        (\<lambda>_. list_children normalized (readdir ix normalized)))"

definition unlink ::
    "'d block_io \<Rightarrow> u64 \<Rightarrow> u64 \<Rightarrow> u32 \<Rightarrow> bytes \<Rightarrow> u64 \<Rightarrow> 'd \<times> 'a vol_scheme \<Rightarrow> u64 hres \<times> ('d \<times> 'a vol_scheme)" where
  "unlink io plba dsb dbs path timestamp_ns = (\<lambda>(d, v).
     case lookup_flex (v_index v) path of None \<Rightarrow> (Err NotFound, (d, v))
     | Some entry \<Rightarrow>
       if has_flag entry IS_DELETED then (Err NotFound, (d, v))
       else let is_inline = has_flag entry IS_INLINE;
                is_dir = has_flag entry IS_DIR;
                is_node = has_flag entry IS_EXTENT_NODE
       in if is_dir \<and> readdir (v_index v) (if ends_with_slash path then path else path @ [SLASH]) \<noteq> []
          then (Err DirectoryNotEmpty, (d, v))
          else let actual_path =
                 (if lookup (v_index v) path \<noteq> None then path
                  else if \<not> ends_with_slash path then path @ [SLASH] else butlast path)
          in and_then (on_log (log_append io Delete (fnv1a_64 actual_path) (path_payload actual_path) timestamp_ns) (d, v)) (\<lambda>lsn s.
             and_then (on_index (\<lambda>ix. mark_deleted ix actual_path) s) (\<lambda>_ s.
             and_then
               (if \<not> is_inline \<and> \<not> is_dir then
                  on_dev_bitmap (free_file_blocks io plba dsb dbs (e_extent_root entry) (e_size entry) is_node) s
                else (Ok (), s)) (\<lambda>_ s. (Ok lsn, s)))))"

subsection \<open>Reads\<close>

definition read_file ::
    "'d block_io \<Rightarrow> index \<Rightarrow> u64 \<Rightarrow> u64 \<Rightarrow> u32 \<Rightarrow> bytes \<Rightarrow> 'd \<Rightarrow> bytes hres \<times> 'd" where
  "read_file io ix plba dsb dbs path d =
     (case lookup ix path of None \<Rightarrow> (Err NotFound, d)
      | Some entry \<Rightarrow>
        if has_flag entry IS_DIR then (Err IsADirectory, d)
        else if has_flag entry IS_DELETED then (Err NotFound, d)
        else if has_flag entry IS_INLINE then
          (if unat (e_size entry) > INLINE_DATA_SIZE then (Panic, d)
           else (Ok (take (unat (e_size entry)) (e_inline_data entry)), d))
        else if has_flag entry IS_EXTENT_NODE then
          read_extent_file io plba dsb dbs (e_extent_root entry) (e_size entry) d
        else read_extent_data io plba dsb dbs (e_extent_root entry) (e_size entry) d)"

record file_stat =
  st_mode :: u32
  st_key :: u64
  st_size :: u64
  st_created_ns :: u64
  st_modified_ns :: u64
  st_accessed_ns :: u64
  st_lsn :: u64
  st_first_lsn :: u64
  st_version_count :: u32

definition S_IFDIR :: u32 where "S_IFDIR = 0x4000"
definition S_IFREG :: u32 where "S_IFREG = 0x8000"

definition stat_file :: "index \<Rightarrow> bytes \<Rightarrow> file_stat hres" where
  "stat_file ix path = (case lookup_flex ix path of None \<Rightarrow> Err NotFound
     | Some entry \<Rightarrow>
       if has_flag entry IS_DELETED then Err NotFound
       else Ok \<lparr>st_mode = (if has_flag entry IS_DIR then S_IFDIR else S_IFREG), st_key = e_key entry,
              st_size = e_size entry, st_created_ns = e_created_ns entry, st_modified_ns = e_modified_ns entry,
              st_accessed_ns = e_modified_ns entry, st_lsn = e_lsn entry, st_first_lsn = e_first_lsn entry,
              st_version_count = e_version_count entry\<rparr>)"

subsection \<open>Reads through the log\<close>

text \<open>
  \<open>read_file_at_lsn\<close> and \<open>list_versions\<close> walk the ring record by record with \<open>read_record\<close>.
  Both share the shape of the two loops: \<open>stop\<close> is the early \<open>break\<close> of the inner one and
  \<open>step\<close> the update of the accumulator.
\<close>

partial_function (option) walk_segment ::
    "'d block_io \<Rightarrow> log_engine \<Rightarrow> (log_record_header \<Rightarrow> bool) \<Rightarrow> (log_record_header \<Rightarrow> bytes \<Rightarrow> 'a \<Rightarrow> 'a) \<Rightarrow>
     nat \<Rightarrow> nat \<Rightarrow> 'd \<times> 'a \<Rightarrow> (unit hres \<times> ('d \<times> 'a)) option" where
  "walk_segment io l stop step seg offset s =
     (if seg = lg_head l \<and> offset \<ge> lg_off l then Some (Ok (), s)
      else case s of (d, acc) \<Rightarrow>
        (case read_record io l seg offset d of (r, d) \<Rightarrow>
          (case r of
             Ok hp \<Rightarrow>
               (if stop (fst hp) then Some (Ok (), (d, acc))
                else walk_segment io l stop step seg ((offset + unat (rh_total_size (fst hp)) mod U32) mod U32)
                       (d, step (fst hp) (snd hp) acc))
           | Err e \<Rightarrow> Some (Ok (), (d, acc))
           | Panic \<Rightarrow> Some (Panic, (d, acc)) | Diverges \<Rightarrow> Some (Diverges, (d, acc)))))"

partial_function (option) walk_ring ::
    "'d block_io \<Rightarrow> log_engine \<Rightarrow> (log_record_header \<Rightarrow> bool) \<Rightarrow> (log_record_header \<Rightarrow> bytes \<Rightarrow> 'a \<Rightarrow> 'a) \<Rightarrow>
     nat \<Rightarrow> 'd \<times> 'a \<Rightarrow> (unit hres \<times> ('d \<times> 'a)) option" where
  "walk_ring io l stop step seg s =
     Option.bind (walk_segment io l stop step seg 64 s) (\<lambda>(r, s).
       if r \<noteq> Ok () then Some (r, s)
       else if seg = lg_head l then Some (Ok (), s)
       else if lg_segs l = 0 then Some (Panic, s)
       else walk_ring io l stop step ((seg + 1) mod U64 mod lg_segs l) s)"

definition log_walk ::
    "'d block_io \<Rightarrow> log_engine \<Rightarrow> (log_record_header \<Rightarrow> bool) \<Rightarrow> (log_record_header \<Rightarrow> bytes \<Rightarrow> 'a \<Rightarrow> 'a) \<Rightarrow>
     'd \<times> 'a \<Rightarrow> unit hres \<times> ('d \<times> 'a)" where
  "log_walk io l stop step s = (case walk_ring io l stop step (lg_tail l) s of Some x \<Rightarrow> x | None \<Rightarrow> (Diverges, s))"

record at_lsn =
  al_data :: "bytes option"
  al_root :: "u64 option"
  al_size :: "u64 option"
  al_node :: bool

definition at_lsn_empty :: at_lsn where
  "at_lsn_empty = \<lparr>al_data = None, al_root = None, al_size = None, al_node = False\<rparr>"

definition at_lsn_step :: "u64 \<Rightarrow> log_record_header \<Rightarrow> bytes \<Rightarrow> at_lsn \<Rightarrow> at_lsn" where
  "at_lsn_step path_hash header payload acc =
     (if rh_path_hash header \<noteq> path_hash then acc
      else case op_from_u8 (rh_op header) of
        Some Write \<Rightarrow>
          (let data = (if length payload \<ge> 2 then
                 let start = 2 + unat (from_le (slice_of payload 0 2) :: u16) in
                 if start \<le> length payload then drop start payload else payload
               else payload)
           in if rh_flags header AND REC_IS_EXTENT \<noteq> 0 \<and> length data \<ge> 17 then
                acc\<lparr>al_data := None, al_size := Some (from_le (slice_of data 1 8)),
                    al_root := Some (from_le (slice_of data 9 8)), al_node := (data ! 0 = EXTENT_NODE)\<rparr>
              else if length data \<le> INLINE_DATA_SIZE then
                acc\<lparr>al_data := Some data, al_root := None, al_size := None, al_node := False\<rparr>
              else acc)
      | Some Delete \<Rightarrow> at_lsn_empty
      | _ \<Rightarrow> acc)"

definition read_file_at_lsn ::
    "'d block_io \<Rightarrow> log_engine \<Rightarrow> u64 \<Rightarrow> u64 \<Rightarrow> u32 \<Rightarrow> bytes \<Rightarrow> u64 \<Rightarrow> 'd \<Rightarrow> bytes hres \<times> 'd" where
  "read_file_at_lsn io l plba dsb dbs path target_lsn d =
     (case log_walk io l (\<lambda>h. rh_lsn h > target_lsn) (at_lsn_step (fnv1a_64 path)) (d, at_lsn_empty) of
        (r, (d, acc)) \<Rightarrow> and_then (r, d) (\<lambda>_ d.
          case al_data acc of Some data \<Rightarrow> (Ok data, d)
          | None \<Rightarrow> (case al_root acc of
              Some extent_root \<Rightarrow>
                (let sz = (case al_size acc of Some n \<Rightarrow> n | None \<Rightarrow> 0) in
                 if al_node acc then read_extent_file io plba dsb dbs extent_root sz d
                 else read_extent_data io plba dsb dbs extent_root sz d)
            | None \<Rightarrow> (Err NotFound, d))))"

definition version_ops :: "log_op set" where
  "version_ops = {Write, Append, Delete, Rename, Truncate, SetMeta}"

definition version_step ::
    "u64 \<Rightarrow> log_record_header \<Rightarrow> bytes \<Rightarrow> (u64 \<times> u64 \<times> log_op) list \<Rightarrow> (u64 \<times> u64 \<times> log_op) list" where
  "version_step path_hash header payload versions =
     (if rh_path_hash header \<noteq> path_hash then versions
      else case op_from_u8 (rh_op header) of
        Some op \<Rightarrow> (if op \<in> version_ops then versions @ [(rh_lsn header, rh_timestamp_ns header, op)] else versions)
      | None \<Rightarrow> versions)"

definition list_versions ::
    "'d block_io \<Rightarrow> log_engine \<Rightarrow> bytes \<Rightarrow> 'd \<Rightarrow> (u64 \<times> u64 \<times> log_op) list hres \<times> 'd" where
  "list_versions io l path d =
     (case log_walk io l (\<lambda>h. False) (version_step (fnv1a_64 path)) (d, []) of
        (r, (d, versions)) \<Rightarrow> and_then (r, d) (\<lambda>_ d.
          if versions = [] then (Err NotFound, d) else (Ok versions, d)))"

end
