(* ===== verification/Helix_Checkpoint.thy ===== *)
theory Helix_Checkpoint
  imports Helix_Io Helix_Index
begin

text \<open>
  \<^verbatim>\<open>helix/src/checkpoint.rs\<close>: the flat index region, eight CRC-tagged entries per block. The main
  fact is the round trip: loading a region that was written from a list of live, well-formed
  entries rebuilds the same namespace.
\<close>

abbreviation ENTRIES_PER_INDEX_BLOCK :: nat where "ENTRIES_PER_INDEX_BLOCK \<equiv> 8"
abbreviation ENTRY_SIZE :: nat where "ENTRY_SIZE \<equiv> 512"

definition entry_crc :: "index_entry \<Rightarrow> u32" where
  "entry_crc e = crc32c (entry_encode (e\<lparr>e_crc32c := 0\<rparr>))"

definition region_blocks :: "nat \<Rightarrow> nat" where
  "region_blocks entry_count = max (div_ceil entry_count ENTRIES_PER_INDEX_BLOCK) 1"

fun fill_slots :: "index \<Rightarrow> nat \<Rightarrow> nat \<Rightarrow> nat \<Rightarrow> bytes \<Rightarrow> bytes" where
  "fill_slots entries b slot 0 buf = buf"
| "fill_slots entries b slot (Suc n) buf =
     (let idx = b * ENTRIES_PER_INDEX_BLOCK + slot in
      if idx \<ge> length entries then buf
      else let e = entries ! idx;
               e = e\<lparr>e_crc32c := entry_crc e\<rparr>
      in fill_slots entries b (slot + 1) n (splice buf (slot * ENTRY_SIZE) (entry_encode e)))"

definition index_block :: "index \<Rightarrow> nat \<Rightarrow> bytes" where
  "index_block entries b = fill_slots entries b 0 ENTRIES_PER_INDEX_BLOCK (replicate 4096 0)"

definition write_index_region ::
    "'d block_io \<Rightarrow> u64 \<Rightarrow> u64 \<Rightarrow> u32 \<Rightarrow> u64 \<Rightarrow> index \<Rightarrow> 'd \<Rightarrow> unit hres \<times> 'd" where
  "write_index_region io partition_lba_start data_start_block dbs region_start entries d =
     for_each (\<lambda>b d.
         and_then (block_lba partition_lba_start data_start_block dbs (region_start + of_nat b), d) (\<lambda>lba d.
           io_write io lba (index_block entries b) d))
       [0..<region_blocks (length entries)] d"

text \<open>The slots of one block; the counter \<open>loaded\<close> stops the loop at \<open>entry_count\<close>.\<close>

fun load_slots :: "bytes \<Rightarrow> nat \<Rightarrow> nat \<Rightarrow> nat \<Rightarrow> nat \<times> index \<Rightarrow> unit hres \<times> (nat \<times> index)" where
  "load_slots buf slot 0 entry_count s = (Ok (), s)"
| "load_slots buf slot (Suc n) entry_count (loaded, ix) =
     (if loaded \<ge> entry_count then (Ok (), (loaded, ix))
      else let e = entry_decode (slice_of buf (slot * ENTRY_SIZE) 512) in
        if entry_crc e \<noteq> e_crc32c e then (Err IndexCrcMismatch, (loaded, ix))
        else load_slots buf (slot + 1) n entry_count (loaded + 1, upsert ix e))"

fun load_blocks ::
    "'d block_io \<Rightarrow> u64 \<Rightarrow> u64 \<Rightarrow> u32 \<Rightarrow> u64 \<Rightarrow> nat \<Rightarrow> nat \<Rightarrow> nat \<Rightarrow> nat \<Rightarrow> 'd \<times> index \<Rightarrow> unit hres \<times> ('d \<times> index)" where
  "load_blocks io plba dsb dbs region_start b 0 entry_count loaded s = (Ok (), s)"
| "load_blocks io plba dsb dbs region_start b (Suc n) entry_count loaded (d, ix) =
     (if loaded \<ge> entry_count then (Ok (), (d, ix))
      else case and_then (block_lba plba dsb dbs (region_start + of_nat b), d) (\<lambda>lba d. io_read io lba 4096 d) of
        (Ok buf, d) \<Rightarrow>
          (case load_slots buf 0 ENTRIES_PER_INDEX_BLOCK entry_count (loaded, ix) of
             (r, (loaded, ix)) \<Rightarrow>
               and_then (r, (d, ix)) (\<lambda>_ s. load_blocks io plba dsb dbs region_start (b + 1) n entry_count loaded s))
      | (Err e, d) \<Rightarrow> (Err e, (d, ix)) | (Panic, d) \<Rightarrow> (Panic, (d, ix)) | (Diverges, d) \<Rightarrow> (Diverges, (d, ix)))"

definition load_index_region ::
    "'d block_io \<Rightarrow> u64 \<Rightarrow> u64 \<Rightarrow> u32 \<Rightarrow> u64 \<Rightarrow> nat \<Rightarrow> nat \<Rightarrow> 'd \<times> index \<Rightarrow> unit hres \<times> ('d \<times> index)" where
  "load_index_region io partition_lba_start data_start_block dbs region_start block_count entry_count s =
     load_blocks io partition_lba_start data_start_block dbs region_start 0 block_count entry_count 0 s"

subsection \<open>The region reads back\<close>

text \<open>An entry as the region stores it, with its checksum filled in.\<close>

definition tagged :: "index_entry \<Rightarrow> index_entry" where
  "tagged e = e\<lparr>e_crc32c := entry_crc e\<rparr>"

lemma tagged_facts [simp]:
  "entry_wf (tagged e) = entry_wf e" "entry_crc (tagged e) = entry_crc e" "e_crc32c (tagged e) = entry_crc e"
  "e_path (tagged e) = e_path e" "e_key (tagged e) = e_key e" "e_flags (tagged e) = e_flags e"
  "entry_ok (tagged e) = entry_ok e"
  by (simp_all add: tagged_def entry_wf_def entry_crc_def entry_ok_def)

lemma fill_slots_slice:
  assumes "\<forall>e\<in>set es. entry_wf e" "length buf = 4096" "slot + n \<le> 8"
  shows "length (fill_slots es b slot n buf) = 4096 \<and> (\<forall>s<8. slice_of (fill_slots es b slot n buf) (s * 512) 512 =
    (if slot \<le> s \<and> s < slot + n \<and> b * 8 + s < length es then entry_encode (tagged (es ! (b * 8 + s)))
     else slice_of buf (s * 512) 512))"
  using assms(2,3)
proof (induction n arbitrary: slot buf)
  case (Suc n)
  show ?case
  proof (cases "b * 8 + slot < length es")
    case False
    then show ?thesis using Suc.prems by auto
  next
    case True
    let ?e = "entry_encode (tagged (es ! (b * 8 + slot)))"
    have wf: "entry_wf (es ! (b * 8 + slot))" using assms(1) True by simp
    then have le: "length ?e = 512" by simp
    let ?buf = "splice buf (slot * 512) ?e"
    have lb: "slot * 512 + 512 \<le> length buf" using Suc.prems by simp
    have "length ?buf = 4096" using le lb Suc.prems by simp
    note IH = Suc.IH[OF this, of "Suc slot"]
    have f: "fill_slots es b slot (Suc n) buf = fill_slots es b (Suc slot) n ?buf"
      using True by (simp add: tagged_def Let_def)
    have same: "slice_of ?buf (slot * 512) 512 = ?e"
      using slice_splice_same[of "slot * 512" ?e buf] lb le by simp
    have other: "slice_of ?buf (s * 512) 512 = slice_of buf (s * 512) 512" if "s \<noteq> slot" "s < 8" for s
    proof (cases "s < slot")
      case True
      then show ?thesis using lb le by (intro slice_splice_before) auto
    next
      case False
      then show ?thesis using that lb le Suc.prems by (intro slice_splice_after) auto
    qed
    have "slice_of (fill_slots es b slot (Suc n) buf) (s * 512) 512 =
      (if slot \<le> s \<and> s < slot + Suc n \<and> b * 8 + s < length es then entry_encode (tagged (es ! (b * 8 + s)))
       else slice_of buf (s * 512) 512)" if "s < 8" for s
      using IH Suc.prems True same other that unfolding f by (cases "s = slot") auto
    then show ?thesis using IH Suc.prems f by simp
  qed
qed auto

lemma index_block_slot:
  assumes "\<forall>e\<in>set es. entry_wf e" "s < 8" "b * 8 + s < length es"
  shows "slice_of (index_block es b) (s * 512) 512 = entry_encode (tagged (es ! (b * 8 + s)))"
  using fill_slots_slice[OF assms(1), of "replicate 4096 0" 0 8 b] assms(2,3) by (simp add: index_block_def)

lemma length_index_block: "\<forall>e\<in>set es. entry_wf e \<Longrightarrow> length (index_block es b) = 4096"
  using fill_slots_slice[of es "replicate 4096 0" 0 8 b] by (simp add: index_block_def)

lemma load_slots_all:
  assumes "\<forall>e\<in>set es. entry_wf e" "slot + n \<le> 8" "b * 8 + slot \<le> length es"
  shows "load_slots (index_block es b) slot n (length es) (b * 8 + slot, ix) =
    (Ok (), (min (b * 8 + slot + n) (length es), foldl upsert ix (map tagged (take n (drop (b * 8 + slot) es)))))"
  using assms(2,3)
proof (induction n arbitrary: slot ix)
  case (Suc n)
  show ?case
  proof (cases "b * 8 + slot < length es")
    case False
    then show ?thesis using Suc.prems by simp
  next
    case True
    have wf: "entry_wf (es ! (b * 8 + slot))" using assms(1) True by simp
    have e: "entry_decode (slice_of (index_block es b) (slot * 512) 512) = tagged (es ! (b * 8 + slot))"
      using index_block_slot[OF assms(1), of slot b] True Suc.prems wf by simp
    have "load_slots (index_block es b) slot (Suc n) (length es) (b * 8 + slot, ix) =
        load_slots (index_block es b) (Suc slot) n (length es) (b * 8 + Suc slot, upsert ix (tagged (es ! (b * 8 + slot))))"
      using True by (simp add: e Let_def)
    also have "\<dots> = (Ok (), (min (b * 8 + Suc slot + n) (length es),
        foldl upsert (upsert ix (tagged (es ! (b * 8 + slot)))) (map tagged (take n (drop (b * 8 + Suc slot) es)))))"
      by (rule Suc.IH) (use Suc.prems True in auto)
    also have "\<dots> = (Ok (), (min (b * 8 + slot + Suc n) (length es),
        foldl upsert ix (map tagged (take (Suc n) (drop (b * 8 + slot) es)))))"
    proof -
      have "drop (b * 8 + slot) es = es ! (b * 8 + slot) # drop (b * 8 + Suc slot) es"
        using True by (simp add: Cons_nth_drop_Suc)
      then show ?thesis by simp
    qed
    finally show ?thesis .
  qed
qed simp

context partition
begin

lemma write_region_ok:
  assumes "good d" "\<forall>e\<in>set es. entry_wf e" "dsb + start + n \<le> nb"
  shows "\<exists>d'. for_each (\<lambda>b d. and_then (block_lba plba (of_nat dsb) dbs (of_nat start + of_nat b), d) (\<lambda>lba d.
           io_write io lba (index_block es b) d)) [0..<n] d = (Ok (), d') \<and> good d' \<and>
    blk d' = (\<lambda>b. if dsb + start \<le> b \<and> b < dsb + start + n then index_block es (b - (dsb + start)) else blk d b)"
  using assms(3)
proof (induction n)
  case 0
  have "blk d = (\<lambda>b. if dsb + start \<le> b \<and> b < dsb + start + 0 then index_block es (b - (dsb + start)) else blk d b)" by (rule ext) auto
  then show ?case using assms(1) by simp
next
  case (Suc n)
  let ?w = "\<lambda>b d. and_then (block_lba plba (of_nat dsb) dbs (of_nat start + of_nat b), d) (\<lambda>lba d.
           io_write io lba (index_block es b) d)"
  have "dsb + start + n \<le> nb" using Suc.prems by simp
  from Suc.IH[OF this] obtain d1 where d1: "for_each ?w [0..<n] d = (Ok (), d1)" "good d1"
    "blk d1 = (\<lambda>b. if dsb + start \<le> b \<and> b < dsb + start + n then index_block es (b - (dsb + start)) else blk d b)" by blast
  have dz: "dbs \<noteq> 0" by (rule dbs_nonzero[OF assms(1)])
  have b: "dsb + (start + n) < nb" using Suc.prems by simp
  from write_blk[OF d1(2) b length_index_block[OF assms(2), of n]] obtain d2 where
    d2: "io_write io (plba + of_nat (dsb + (start + n)) * (4096 div ucast dbs)) (index_block es n) d1 = (Ok (), d2)" "good d2"
      "blk d2 = (blk d1)(dsb + (start + n) := index_block es n)" by blast
  have w: "?w n d1 = (Ok (), d2)"
    using d2(1) block_lba_eq[OF dz, of dsb "start + n"] by simp
  have "for_each ?w [0..<Suc n] d = (Ok (), d2)"
    using d1(1) w by (simp add: for_each_append)
  then show ?case using d2 d1(3) by (auto simp: fun_eq_iff)
qed


lemma load_blocks_ok:
  assumes "good d" "\<forall>e\<in>set es. entry_wf e" "b * 8 + n * 8 \<ge> length es"
    "\<forall>k. b \<le> k \<and> k < b + n \<longrightarrow> dsb + start + k < nb \<and> blk d (dsb + start + k) = index_block es k"
  shows "\<exists>d'. load_blocks io plba (of_nat dsb) dbs (of_nat start) b n (length es) (min (b * 8) (length es)) (d, ix) =
      (Ok (), (d', foldl upsert ix (map tagged (drop (b * 8) es)))) \<and> good d' \<and> blk d' = blk d"
  using assms(1,3,4)
proof (induction n arbitrary: b d ix)
  case (Suc n)
  show ?case
  proof (cases "b * 8 < length es")
    case False
    then show ?thesis using Suc.prems(1) by auto
  next
    case True
    have b: "dsb + (start + b) < nb" "blk d (dsb + (start + b)) = index_block es b"
      using Suc.prems(3)[rule_format, of b] by (simp_all add: add.assoc)
    from read_blk[OF Suc.prems(1) b(1)] obtain d1 where
      d1: "io_read io (plba + of_nat (dsb + (start + b)) * (4096 div ucast dbs)) 4096 d = (Ok (index_block es b), d1)"
        "good d1" "blk d1 = blk d" using b(2) by auto
    have lba: "block_lba plba (of_nat dsb) dbs (of_nat start + of_nat b) = Ok (plba + of_nat (dsb + (start + b)) * (4096 div ucast dbs))"
      using block_lba_eq[OF dbs_nonzero[OF Suc.prems(1)], of dsb "start + b"] by simp
    have ls: "load_slots (index_block es b) 0 8 (length es) (b * 8, ix) =
      (Ok (), (min (b * 8 + 8) (length es), foldl upsert ix (map tagged (take 8 (drop (b * 8) es)))))"
      using load_slots_all[OF assms(2), of 0 8 b ix] True by simp
    let ?ix = "foldl upsert ix (map tagged (take 8 (drop (b * 8) es)))"
    have "\<forall>k. Suc b \<le> k \<and> k < Suc b + n \<longrightarrow> dsb + start + k < nb \<and> blk d1 (dsb + start + k) = index_block es k"
      using Suc.prems(3) d1(3) by simp
    from Suc.IH[OF d1(2) _ this, of ?ix] Suc.prems(2) obtain d' where
      d': "load_blocks io plba (of_nat dsb) dbs (of_nat start) (Suc b) n (length es) (min (Suc b * 8) (length es)) (d1, ?ix) =
        (Ok (), (d', foldl upsert ?ix (map tagged (drop (Suc b * 8) es))))" "good d'" "blk d' = blk d1" by auto
    have "foldl upsert ?ix (map tagged (drop (Suc b * 8) es)) = foldl upsert ix (map tagged (drop (b * 8) es))"
    proof -
      have "drop (b * 8) es = take 8 (drop (b * 8) es) @ drop (Suc b * 8) es"
        by (metis append_take_drop_id drop_drop mult_Suc)
      then show ?thesis by (metis foldl_append map_append)
    qed
    moreover have "min (b * 8) (length es) = b * 8" "min (b * 8 + 8) (length es) = min (Suc b * 8) (length es)"
      using True by simp_all
    ultimately show ?thesis using d' d1 True by (simp add: lba ls del: foldl_append)
  qed
qed simp

lemma region_covers: "length es \<le> region_blocks (length es) * 8"
  using div_ceil_bounds(1)[of 8 "length es"] by (simp add: region_blocks_def max_def)

lemma write_index_region_ok:
  assumes "good d" "\<forall>e\<in>set es. entry_wf e" "dsb + start + region_blocks (length es) \<le> nb"
  shows "\<exists>d'. write_index_region io plba (of_nat dsb) dbs (of_nat start) es d = (Ok (), d') \<and> good d' \<and>
    blk d' = (\<lambda>b. if dsb + start \<le> b \<and> b < dsb + start + region_blocks (length es)
       then index_block es (b - (dsb + start)) else blk d b)"
  using write_region_ok[OF assms] by (simp add: write_index_region_def)

lemma load_index_region_ok:
  assumes "good d" "\<forall>e\<in>set es. entry_wf e"
    "\<forall>k<region_blocks (length es). dsb + start + k < nb \<and> blk d (dsb + start + k) = index_block es k"
  shows "\<exists>d'. load_index_region io plba (of_nat dsb) dbs (of_nat start) (region_blocks (length es)) (length es) (d, ix) =
      (Ok (), (d', foldl upsert ix (map tagged es))) \<and> good d' \<and> blk d' = blk d"
  using load_blocks_ok[OF assms(1,2), of 0 "region_blocks (length es)" dsb start ix] assms(3) region_covers[of es]
  by (simp add: load_index_region_def)

end

text \<open>The namespace of a reloaded region is that of the entries written, with their checksums.\<close>

lemma ns_reloaded:
  assumes "index_inv es" "\<forall>e\<in>set es. live e"
  shows "index_inv (foldl upsert [] (map tagged es))" "ns (foldl upsert [] (map tagged es)) p = map_option tagged (ns es p)"
proof -
  have ok: "\<forall>e\<in>set (map tagged es). entry_ok e \<and> live e"
    using assms by (auto simp: index_inv_def)
  then show "index_inv (foldl upsert [] (map tagged es))" by (intro helix_ns.puts_inv) auto
  have d: "distinct (map fst (rev (map (\<lambda>e. (epath e, e)) (map tagged es))))"
    using index_inv_distinct[OF assms(1)] by (simp add: comp_def rev_map[symmetric])
  have "ns (foldl upsert [] (map tagged es)) p = map_of (rev (map (\<lambda>e. (epath e, e)) (map tagged es))) p"
    using helix_ns.puts_look[OF index_inv_Nil ok] by (simp add: map_add_def split: option.split)
  also have "\<dots> = map_option tagged (ns es p)"
  proof (cases "ns es p")
    case None
    then have "map_of (rev (map (\<lambda>e. (epath e, e)) (map tagged es))) p = None"
      using assms(2) by (auto simp: ns_None_iff map_of_eq_None_iff)
    with None show ?thesis by simp
  next
    case (Some e)
    then have "(p, tagged e) \<in> set (rev (map (\<lambda>e. (epath e, e)) (map tagged es)))"
      using assms(1) by (auto simp: ns_Some_iff)
    with d Some show ?thesis by (simp add: map_of_eq_Some_iff del: rev_map)
  qed
  finally show "ns (foldl upsert [] (map tagged es)) p = map_option tagged (ns es p)" .
qed

subsection \<open>Properties\<close>

text \<open>
  C35: The checkpoint region is lossless: writing a list of live entries to the region and loading
  it into an empty index succeeds, and every path then looks up to the same entry as before
  (with its checksum field filled in), for any number of entries.
\<close>

theorem checkpoint_region_roundtrip:
  assumes "mempart.good plba dbs nb d" "index_inv es" "\<forall>e\<in>set es. live e"
    and "dsb + start + region_blocks (length es) \<le> nb"
  shows "\<exists>d1 d2 ix. write_index_region mem_io plba (of_nat dsb) dbs (of_nat start) es d = (Ok (), d1) \<and>
    load_index_region mem_io plba (of_nat dsb) dbs (of_nat start) (region_blocks (length es)) (length es) (d1, []) =
      (Ok (), (d2, ix)) \<and>
    (\<forall>p. lookup ix p = map_option (\<lambda>e. e\<lparr>e_crc32c := entry_crc e\<rparr>) (lookup es p))"
proof -
  have wf: "\<forall>e\<in>set es. entry_wf e" using assms(2) by (auto simp: index_inv_def entry_ok_def)
  from mempart.write_index_region_ok[OF assms(1) wf assms(4)] obtain d1 where
    d1: "write_index_region mem_io plba (of_nat dsb) dbs (of_nat start) es d = (Ok (), d1)" "mempart.good plba dbs nb d1"
      "mempart.blk plba dbs d1 = (\<lambda>b. if dsb + start \<le> b \<and> b < dsb + start + region_blocks (length es)
         then index_block es (b - (dsb + start)) else mempart.blk plba dbs d b)" by blast
  have "\<forall>k<region_blocks (length es). dsb + start + k < nb \<and> mempart.blk plba dbs d1 (dsb + start + k) = index_block es k"
    using assms(4) d1(3) by simp
  from mempart.load_index_region_ok[OF d1(2) wf this, of "[]"] obtain d2 where
    "load_index_region mem_io plba (of_nat dsb) dbs (of_nat start) (region_blocks (length es)) (length es) (d1, []) =
      (Ok (), (d2, foldl upsert [] (map tagged es)))" by blast
  with d1(1) ns_reloaded[OF assms(2,3)] assms(2) show ?thesis
    by (auto simp: lookup_ns tagged_def[abs_def])
qed

theorem checkpoint_region_roundtrip_witness:
  "\<exists>d1 d2 ix. write_index_region mem_io 0 512 512 3 [make_dir_entry [SLASH, 97, SLASH] 7 9] demo_dev = (Ok (), d1) \<and>
     load_index_region mem_io 0 512 512 3 1 1 (d1, []) = (Ok (), (d2, ix)) \<and> lookup ix [SLASH, 97, SLASH] \<noteq> None"
proof -
  have p: "path_ok [SLASH, 97, SLASH]" by (simp add: path_ok_def)
  note m = make_dir_entry_ok[OF p, of 7 9]
  have i: "index_inv [make_dir_entry [SLASH, 97, SLASH] 7 9]" by (rule index_inv_single[OF m(1)])
  have l: "\<forall>e\<in>set [make_dir_entry [SLASH, 97, SLASH] 7 9]. live e" using m(3) by simp
  have r: "region_blocks (Suc 0) = Suc 0" by (simp add: region_blocks_def div_ceil_def)
  have "lookup [make_dir_entry [SLASH, 97, SLASH] 7 9] [SLASH, 97, SLASH] \<noteq> None"
    using i m by (auto simp: lookup_ns ns_None_iff)
  with checkpoint_region_roundtrip[OF demo_good i l, of 512 3] show ?thesis by (auto simp: r)
qed

end
