(* ===== verification/Helix_Format.thy ===== *)
theory Helix_Format
  imports Helix_Recovery
begin

text \<open>
  \<^verbatim>\<open>helix/src/format.rs\<close>: laying out a fresh volume (superblocks, log, bitmap, data) and the
  quick check for one. The layout is computed on 64-bit words, so a partition smaller than the
  log region wraps around before it is refused.
\<close>

record layout =
  lo_total :: u64
  lo_segs :: u64
  lo_log_start :: u64
  lo_log_end :: u64
  lo_bitmap_start :: u64
  lo_bitmap_blocks :: u64
  lo_data_start :: u64
  lo_data_blocks :: u64

definition compute_layout :: "u64 \<Rightarrow> layout hres" where
  "compute_layout total_fs_blocks =
     (if total_fs_blocks < 64 then Err FormatTooSmall
      else let superblock_blocks = 2;
               desired_log_segments = min (max (total_fs_blocks div (100 * 256)) 1) 64;
               log_blocks = desired_log_segments * 256;
               log_start = superblock_blocks;
               log_end = log_start + log_blocks - 1;
               data_blocks_approx = total_fs_blocks - superblock_blocks - log_blocks;
               bitmap_blocks = of_nat (div_ceil (unat data_blocks_approx) 32768);
               bitmap_start = log_end + 1;
               data_start = bitmap_start + bitmap_blocks;
               data_block_count = (if total_fs_blocks < data_start then 0 else total_fs_blocks - data_start)
      in if data_block_count = 0 then Err FormatTooSmall
         else Ok \<lparr>lo_total = total_fs_blocks, lo_segs = desired_log_segments, lo_log_start = log_start,
                   lo_log_end = log_end, lo_bitmap_start = bitmap_start, lo_bitmap_blocks = bitmap_blocks,
                   lo_data_start = data_start, lo_data_blocks = data_block_count\<rparr>)"

definition format_sb :: "layout \<Rightarrow> bytes \<Rightarrow> bytes \<Rightarrow> superblock" where
  "format_sb lo label uuid =
     (let label_len = min (length label) 63 in
      sb_zeroed\<lparr>sb_magic := HELIX_MAGIC, sb_version := HELIX_VERSION, sb_block_size := 4096,
        sb_total_blocks := lo_total lo, sb_log_start_block := lo_log_start lo, sb_log_end_block := lo_log_end lo,
        sb_log_segment_count := lo_segs lo, sb_bitmap_start := lo_bitmap_start lo,
        sb_bitmap_blocks := lo_bitmap_blocks lo, sb_data_start_block := lo_data_start lo,
        sb_data_block_count := lo_data_blocks lo, sb_index_root_block := BLOCK_NULL, sb_index_depth := 0,
        sb_committed_lsn := 0, sb_checkpoint_lsn := 0, sb_log_head_segment := 0, sb_log_tail_segment := 0,
        sb_log_head_offset := 64, sb_uuid := uuid,
        sb_label := splice (sb_label sb_zeroed) 0 (take label_len label),
        sb_snapshot_count := 0, sb_snapshot_table_block := BLOCK_NULL,
        sb_blocks_used := 2 + lo_segs lo * 256 + lo_bitmap_blocks lo, sb_file_count := 0, sb_dir_count := 1,
        sb_created_ns := 0, sb_last_mount_ns := 0, sb_mount_count := 0\<rparr>)"

definition format_seg_block :: bytes where
  "format_seg_block = splice (replicate 4096 0) 0
     (sh_encode \<lparr>sh_magic = LOG_SEGMENT_MAGIC, sh_pad_magic = 0, sh_sequence = 0, sh_lsn_start = 0,
        sh_record_count = 0, sh_bytes_used = 0, sh_timestamp_ns = 0, sh_crc32c = 0, sh_reserved = replicate 20 0\<rparr>)"

definition format_helix ::
    "'d block_io \<Rightarrow> u64 \<Rightarrow> u64 \<Rightarrow> u32 \<Rightarrow> bytes \<Rightarrow> bytes \<Rightarrow> 'd \<Rightarrow> superblock hres \<times> 'd" where
  "format_helix io partition_lba_start total_sectors dbs label uuid d =
     (if dbs = 0 then (Panic, d)
      else let sector_scale = 4096 div dbs in
        if sector_scale = 0 then (Panic, d)
        else and_then (compute_layout (total_sectors div ucast sector_scale), d) (\<lambda>lo d.
          let sb = format_sb lo label uuid;
              scale = ucast sector_scale :: u64;
              seg_block_lba = partition_lba_start + lo_log_start lo * scale
          in
          and_then (for_each (\<lambda>j d. io_write io (seg_block_lba + of_nat j)
                (slice_of format_seg_block (j * unat dbs) (unat dbs)) d) [0..<unat scale] d) (\<lambda>_ d.
          and_then (for_each (\<lambda>blk d.
                let abs_lba = partition_lba_start + (lo_bitmap_start lo + of_nat blk) * scale
                in for_each (\<lambda>j d. io_write io (abs_lba + of_nat j) (replicate (unat dbs) 0) d) [0..<unat scale] d)
              [0..<unat (lo_bitmap_blocks lo)] d) (\<lambda>_ d.
          let sb = sb_update_crc sb in
          (case write_superblock io partition_lba_start dbs 0 (d, sb) of (r, (d, sb)) \<Rightarrow>
             and_then (r, d) (\<lambda>_ d.
               case write_superblock io partition_lba_start dbs 1 (d, sb) of (r, (d, sb)) \<Rightarrow>
                 and_then (r, d) (\<lambda>_ d. and_then (io_flush io d) (\<lambda>_ d. (Ok sb, d)))))))))"

fun read_first_block :: "'d block_io \<Rightarrow> u64 \<Rightarrow> nat \<Rightarrow> nat \<Rightarrow> nat \<Rightarrow> bytes \<Rightarrow> 'd \<Rightarrow> bytes option \<times> 'd" where
  "read_first_block io lba dbs j 0 buf d = (Some buf, d)"
| "read_first_block io lba dbs j (Suc n) buf d =
     (case read_blocks io (lba + of_nat j) dbs d of
        (None, d) \<Rightarrow> (None, d)
      | (Some b, d) \<Rightarrow> read_first_block io lba dbs (j + 1) n (splice buf (j * dbs) b) d)"

definition is_helix :: "'d block_io \<Rightarrow> u64 \<Rightarrow> u32 \<Rightarrow> 'd \<Rightarrow> bool hres \<times> 'd" where
  "is_helix io partition_lba_start dbs d =
     (if dbs = 0 then (Panic, d)
      else let scale = 4096 div dbs in
        case read_first_block io partition_lba_start (unat dbs) 0 (unat scale) (replicate 4096 0) d of
          (None, d) \<Rightarrow> (Ok False, d)
        | (Some buf, d) \<Rightarrow> (Ok (sb_is_valid (sb_decode buf)), d))"

subsection \<open>The layout\<close>

lemma unat_min_64: "unat (min a b :: u64) = min (unat a) (unat b)"
  by (simp add: min_def word_le_nat_alt)

lemma unat_max_64: "unat (max a b :: u64) = max (unat a) (unat b)"
  by (simp add: max_def word_le_nat_alt)

text \<open>
  The layout in natural numbers. A partition too small for the log wraps around in the
  computation of \<open>data_blocks_approx\<close>; the huge bitmap that results leaves no data blocks, so the
  format is refused.
\<close>

lemma compute_layout_nat:
  assumes "compute_layout t = Ok lo"
  defines "segs \<equiv> min (max (unat t div 25600) 1) 64"
  shows "unat (lo_segs lo) = segs" "lo_log_start lo = 2" "unat (lo_log_end lo) = 2 + segs * 256 - 1"
    "unat (lo_bitmap_start lo) = 2 + segs * 256"
    "unat (lo_bitmap_blocks lo) = div_ceil (unat t - (2 + segs * 256)) 32768"
    "unat (lo_data_start lo) = 2 + segs * 256 + unat (lo_bitmap_blocks lo)"
    "unat (lo_data_start lo) + unat (lo_data_blocks lo) = unat t" "lo_data_blocks lo \<noteq> 0" "lo_total lo = t"
proof -
  define sw where "sw = min (max (t div (100 * 256)) 1) (64 :: u64)"
  have sw: "unat sw = segs"
    by (simp add: sw_def unat_min_64 unat_max_64 unat_div_distrib segs_def)
  have s64: "segs \<le> 64" "1 \<le> segs" by (auto simp: segs_def)
  have w2: "unat (2 + sw * 256) = 2 + segs * 256" using s64 sw by (simp add: unat_word_ariths)
  then have le: "unat (2 + sw * 256 - 1) = 2 + segs * 256 - 1"
    using s64 by (subst unat_sub) (simp_all add: word_le_nat_alt)
  have bs: "unat (2 + sw * 256 - 1 + 1) = 2 + segs * 256" using w2 by simp
  define ap where "ap = t - 2 - sw * 256"
  define bb where "bb = div_ceil (unat ap) 32768"
  have bbl: "bb \<le> U64 div 32768"
  proof -
    have "bb * 32768 < unat ap + 32768"
      using div_ceil_bounds(2)[of 32768 "unat ap"] by (cases "unat ap = 0") (auto simp: bb_def div_ceil_def)
    moreover have "unat ap < U64" using unsigned_less[of ap, where ?'a = nat] by simp
    ultimately show ?thesis by simp
  qed
  have bbw: "unat (of_nat bb :: u64) = bb" using bbl by (simp add: unat_of_nat take_bit_eq_mod)
  define ds where "ds = 2 + sw * 256 - 1 + 1 + (of_nat bb :: u64)"
  have ds: "unat ds = 2 + segs * 256 + bb"
    using bs bbw bbl s64 by (simp add: ds_def unat_word_ariths)
  have L: "\<not> t < 64" "lo = \<lparr>lo_total = t, lo_segs = sw, lo_log_start = 2, lo_log_end = 2 + sw * 256 - 1,
     lo_bitmap_start = 2 + sw * 256 - 1 + 1, lo_bitmap_blocks = of_nat bb, lo_data_start = ds,
     lo_data_blocks = (if t < ds then 0 else t - ds)\<rparr>" "(if t < ds then 0 else t - ds) \<noteq> 0"
    using assms(1) unfolding compute_layout_def Let_def sw_def[symmetric] ap_def[symmetric] bb_def[symmetric] ds_def[symmetric]
    by (auto split: if_splits)
  then have lt: "ds < t" by (auto split: if_splits simp: order.strict_iff_order)
  then have big: "2 + segs * 256 \<le> unat t" using ds by (simp add: word_less_nat_alt)
  have ap: "unat ap = unat t - (2 + segs * 256)"
  proof -
    have "ap = t - (2 + sw * 256)" by (simp add: ap_def)
    then show ?thesis using big w2 by (simp add: unat_sub word_le_nat_alt)
  qed
  show "unat (lo_segs lo) = segs" "lo_log_start lo = 2" "unat (lo_log_end lo) = 2 + segs * 256 - 1"
    "unat (lo_bitmap_start lo) = 2 + segs * 256" "lo_total lo = t" "lo_data_blocks lo \<noteq> 0"
    using L sw le bs by simp_all
  show "unat (lo_bitmap_blocks lo) = div_ceil (unat t - (2 + segs * 256)) 32768"
    using L(2) bbw ap by (simp add: bb_def)
  show "unat (lo_data_start lo) = 2 + segs * 256 + unat (lo_bitmap_blocks lo)" using L(2) ds bbw by simp
  have "unat (t - ds) = unat t - unat ds" using lt by (intro unat_sub) simp
  then show "unat (lo_data_start lo) + unat (lo_data_blocks lo) = unat t"
    using L(2) lt by (simp add: word_less_nat_alt)
qed

subsection \<open>What a format leaves on the device\<close>

lemma for_each_cong: "(\<And>i. i \<in> set is \<Longrightarrow> f i = g i) \<Longrightarrow> for_each f is s = for_each g is s"
  by (induction "is" arbitrary: s) (simp_all add: and_then_def split: prod.split result.split)

lemma sb_update_crc_idem [simp]: "sb_update_crc (sb_update_crc s) = sb_update_crc s"
  by (simp add: sb_update_crc_def Let_def)

lemma format_sb_wf: "length uuid = 16 \<Longrightarrow> sb_wf (format_sb lo label uuid)"
  by (simp add: format_sb_def Let_def sb_wf_def sb_zeroed_def HELIX_MAGIC_def ascii_def)

lemma length_format_seg_block: "length format_seg_block = 4096"
  by (simp add: format_seg_block_def sh_encode_def LOG_SEGMENT_MAGIC_def ascii_def)

context partition
begin

lemma scale_word:
  assumes "good d"
  shows "ucast (4096 div dbs :: u32) = (4096 div ucast dbs :: u64)" "unat (4096 div ucast dbs :: u64) = 4096 div unat dbs"
    "4096 div dbs \<noteq> 0"
proof -
  have g: "unat dbs dvd 4096" "512 \<le> unat dbs" using assms by (auto simp: good_def geometry_def)
  have lt: "unat dbs < U32" using unsigned_less[of dbs, where ?'a = nat] by simp
  have u: "unat (4096 div dbs) = 4096 div unat dbs" by (simp add: unat_div_distrib)
  show w: "unat (4096 div ucast dbs :: u64) = 4096 div unat dbs"
    using lt by (simp add: unat_div_distrib unsigned_ucast_eq take_bit_eq_mod)
  have "4096 div unat dbs < U64" by (rule le_less_trans[of _ 4096]) simp_all
  then have "unat (ucast (4096 div dbs :: u32) :: u64) = 4096 div unat dbs"
    using u by (simp add: unsigned_ucast_eq take_bit_eq_mod)
  with w show "ucast (4096 div dbs :: u32) = (4096 div ucast dbs :: u64)" by (metis unsigned_word_eqI)
  have "unat dbs \<le> 4096" using g(1) by (intro dvd_imp_le) auto
  then have "4096 div unat dbs \<noteq> 0" using g(2) by (simp add: div_eq_0_iff)
  with u show "4096 div dbs \<noteq> 0" by (metis unat_0)
qed

lemma write_full_block:
  assumes "good d" "b < nb" "length bs = 4096"
  shows "\<exists>d'. for_each (\<lambda>j d. io_write io (plba + of_nat b * (4096 div ucast dbs) + of_nat j)
      (slice_of bs (j * unat dbs) (unat dbs)) d) [0..<4096 div unat dbs] d = (Ok (), d') \<and> good d' \<and>
    blk d' = (blk d)(b := bs)"
proof -
  have "unat dbs dvd 4096" using assms(1) by (simp add: good_def geometry_def)
  then have "4096 div unat dbs * unat dbs = 4096" by (rule dvd_div_mult_self)
  with write_block_sectors[OF assms, of "4096 div unat dbs"] assms(3) show ?thesis by simp
qed

lemma write_zero_blocks:
  assumes "good d" "b0 + n \<le> nb"
  shows "\<exists>d'. for_each (\<lambda>k d. for_each (\<lambda>j d. io_write io (plba + (of_nat b0 + of_nat k) * (4096 div ucast dbs) + of_nat j)
        (replicate (unat dbs) 0) d) [0..<4096 div unat dbs] d) [0..<n] d = (Ok (), d') \<and> good d' \<and>
    blk d' = (\<lambda>b. if b0 \<le> b \<and> b < b0 + n then replicate 4096 0 else blk d b)"
  using assms(2)
proof (induction n)
  case 0
  have "blk d = (\<lambda>b. if b0 \<le> b \<and> b < b0 + 0 then replicate 4096 0 else blk d b)" by (rule ext) auto
  then show ?case using assms(1) by simp
next
  case (Suc n)
  let ?f = "\<lambda>k d. for_each (\<lambda>j d. io_write io (plba + (of_nat b0 + of_nat k) * (4096 div ucast dbs) + of_nat j)
        (replicate (unat dbs) 0) d) [0..<4096 div unat dbs] d"
  have "b0 + n \<le> nb" using Suc.prems by simp
  from Suc.IH[OF this] obtain d1 where d1: "for_each ?f [0..<n] d = (Ok (), d1)" "good d1"
    "blk d1 = (\<lambda>b. if b0 \<le> b \<and> b < b0 + n then replicate 4096 0 else blk d b)" by blast
  have b: "b0 + n < nb" using Suc.prems by simp
  from write_full_block[OF d1(2) b, of "replicate 4096 0"] obtain d2 where
    d2: "for_each (\<lambda>j d. io_write io (plba + of_nat (b0 + n) * (4096 div ucast dbs) + of_nat j)
      (slice_of (replicate 4096 0) (j * unat dbs) (unat dbs)) d) [0..<4096 div unat dbs] d1 = (Ok (), d2)" "good d2"
      "blk d2 = (blk d1)(b0 + n := replicate 4096 0)" by auto
  have "?f n d1 = (Ok (), d2)"
    unfolding d2(1)[symmetric]
  proof (rule for_each_cong)
    fix j assume "j \<in> set [0..<4096 div unat dbs]"
    then have "j * unat dbs + unat dbs \<le> 4096" using sector_addr(2)[OF d1(2) b, of j] by simp
    then show "(\<lambda>d. io_write io (plba + (of_nat b0 + of_nat n) * (4096 div ucast dbs) + of_nat j) (replicate (unat dbs) 0) d) =
       (\<lambda>d. io_write io (plba + of_nat (b0 + n) * (4096 div ucast dbs) + of_nat j)
         (slice_of (replicate 4096 0) (j * unat dbs) (unat dbs)) d)"
      by (simp add: slice_replicate)
  qed
  then show ?case using d1 d2 by (auto simp: for_each_append fun_eq_iff)
qed

lemma format_helix_ok:
  assumes "good d" "compute_layout (total_sectors div (4096 div ucast dbs)) = Ok lo" "unat (lo_total lo) \<le> nb" "length uuid = 16"
    and sb_def: "sb = sb_update_crc (format_sb lo label uuid)"
  shows "\<exists>d'. format_helix io plba total_sectors dbs label uuid d = (Ok sb, d') \<and> good d' \<and>
    blk d' 0 = sb_encode sb \<and> blk d' 1 = sb_encode sb \<and> blk d' 2 = format_seg_block"
proof -
  note sc = scale_word[OF assms(1)]
  note L = compute_layout_nat[OF assms(2)]
  have tot: "lo_total lo = total_sectors div (4096 div ucast dbs)" by (rule L(9))
  have b2: "3 \<le> unat (lo_bitmap_start lo)" unfolding L(4) by (simp add: max_def min_def)
  have "unat (total_sectors div (4096 div ucast dbs)) \<le> nb" using assms(3) unfolding tot .
  then have nb: "unat (lo_bitmap_start lo) + unat (lo_bitmap_blocks lo) \<le> nb" using L(4,6,7) by linarith
  then have nb2: "2 < nb" "1 < nb" using b2 by linarith+
  from write_full_block[OF assms(1) nb2(1) length_format_seg_block] obtain d1 where
    d1: "for_each (\<lambda>j d. io_write io (plba + of_nat 2 * (4096 div ucast dbs) + of_nat j)
      (slice_of format_seg_block (j * unat dbs) (unat dbs)) d) [0..<4096 div unat dbs] d = (Ok (), d1)" "good d1"
      "blk d1 = (blk d)(2 := format_seg_block)" by blast
  have bs: "lo_bitmap_start lo = of_nat (unat (lo_bitmap_start lo))" by simp
  from write_zero_blocks[OF d1(2) nb] obtain d2 where
    d2: "for_each (\<lambda>k d. for_each (\<lambda>j d. io_write io (plba + (lo_bitmap_start lo + of_nat k) * (4096 div ucast dbs) + of_nat j)
        (replicate (unat dbs) 0) d) [0..<4096 div unat dbs] d) [0..<unat (lo_bitmap_blocks lo)] d1 = (Ok (), d2)" "good d2"
      "blk d2 = (\<lambda>b. if unat (lo_bitmap_start lo) \<le> b \<and> b < unat (lo_bitmap_start lo) + unat (lo_bitmap_blocks lo)
         then replicate 4096 0 else blk d1 b)"
    by (simp only: bs[symmetric]) blast
  have wf: "sb_wf sb" using format_sb_wf[OF assms(4)] by (simp add: sb_def)
  from write_superblock_ok[OF d2(2) nb2(2) wf, of 0] obtain d3 where
    d3: "write_superblock io plba dbs 0 (d2, sb) = (Ok (), (d3, sb))" "good d3" "blk d3 = (blk d2)(0 := sb_encode sb)"
    by (auto simp: sb_def)
  from write_superblock_ok[OF d3(2) nb2(2) wf, of 1] obtain d4 where
    d4: "write_superblock io plba dbs 1 (d3, sb) = (Ok (), (d4, sb))" "good d4" "blk d4 = (blk d3)(1 := sb_encode sb)"
    by (auto simp: sb_def)
  from flush_blk[OF d4(2)] obtain d5 where d5: "io_flush io d4 = (Ok (), d5)" "good d5" "blk d5 = blk d4" by blast
  have "format_helix io plba total_sectors dbs label uuid d = (Ok sb, d5)"
    using d1(1) d2(1) d3(1) d4(1) d5(1) dbs_nonzero[OF assms(1)] sc assms(2) L(2)
    by (simp add: format_helix_def Let_def sb_def)
  moreover have "blk d5 0 = sb_encode sb" "blk d5 1 = sb_encode sb" "blk d5 2 = format_seg_block"
    using b2 by (simp_all add: d5(3) d4(3) d3(3) d2(3) d1(3))
  ultimately show ?thesis using d5(2) by blast
qed

end

subsection \<open>Properties\<close>

text \<open>
  C36: Every accepted layout is sound, for all 64-bit sizes: the two superblocks, the log, the
  bitmap and the data region follow one another without overlap or wrap-around and end exactly
  at the end of the partition, the log has 1 to 64 segments, there is at least one data block,
  and the bitmap has a bit for every data block.
\<close>

theorem format_layout_sound:
  assumes "compute_layout t = Ok lo"
  shows "unat (lo_log_start lo) = 2 \<and> unat (lo_log_end lo) + 1 = 2 + unat (lo_segs lo) * 256 \<and>
    unat (lo_bitmap_start lo) = unat (lo_log_end lo) + 1 \<and>
    unat (lo_data_start lo) = unat (lo_bitmap_start lo) + unat (lo_bitmap_blocks lo) \<and>
    unat (lo_data_start lo) + unat (lo_data_blocks lo) = unat t \<and>
    1 \<le> unat (lo_segs lo) \<and> unat (lo_segs lo) \<le> 64 \<and> 1 \<le> unat (lo_data_blocks lo) \<and>
    unat (lo_data_blocks lo) \<le> unat (lo_bitmap_blocks lo) * 32768"
proof -
  note L = compute_layout_nat[OF assms]
  let ?segs = "min (max (unat t div 25600) 1) 64"
  have s: "1 \<le> ?segs" "?segs \<le> 64" by auto
  have "unat t - (2 + ?segs * 256) \<le> unat (lo_bitmap_blocks lo) * 32768"
    unfolding L(5) by (rule div_ceil_bounds(1)) simp
  then have cover: "unat (lo_data_blocks lo) \<le> unat (lo_bitmap_blocks lo) * 32768" using L(6,7) by linarith
  have pos: "1 \<le> unat (lo_data_blocks lo)" using L(8) by (simp add: Suc_le_eq unat_gt_0)
  have "unat (lo_log_start lo) = 2" by (simp add: L(2))
  with L(1,3,4,6,7) s cover pos show ?thesis by (intro conjI) linarith+
qed

theorem format_layout_sound_witness:
  "\<exists>lo. compute_layout 4096 = Ok lo \<and> unat (lo_data_start lo) + unat (lo_data_blocks lo) = 4096"
proof -
  obtain lo where lo: "compute_layout 4096 = Ok lo"
    by (simp add: compute_layout_def Let_def div_ceil_def)
  from format_layout_sound[OF lo] lo show ?thesis by simp
qed

end
