(* ===== verification/Helix_Engine.thy ===== *)
theory Helix_Engine
  imports Helix_Ops Helix_Checkpoint Helix_Format
begin

text \<open>
  \<^verbatim>\<open>helix/src/engine.rs\<close>: one mounted volume. The record extends the volume state of the
  operations with the superblock, the partition and the snapshot LSNs; \<open>mount\<close> rebuilds it
  from the device and the other operations keep the log, the index, the bitmap and the
  superblock in step.
\<close>

record helix_fs = vol +
  fs_sb :: superblock
  fs_plba :: u64
  fs_dbs :: u32
  fs_snapshot_lsns :: "u64 list"

definition from_superblock :: "superblock \<Rightarrow> u64 \<Rightarrow> u32 \<Rightarrow> helix_fs" where
  "from_superblock sb partition_lba_start device_block_size =
     \<lparr>v_log = log_new sb partition_lba_start device_block_size, v_index = [],
      v_bitmap = bitmap_new (unat (sb_data_block_count sb)), fs_sb = sb, fs_plba = partition_lba_start,
      fs_dbs = device_block_size, fs_snapshot_lsns = []\<rparr>"

subsection \<open>Mount\<close>

fun mark_extents :: "extent list \<Rightarrow> block_bitmap \<Rightarrow> block_bitmap" where
  "mark_extents [] bm = bm"
| "mark_extents ((logical, physical, count) # xs) bm =
     mark_extents xs (mark_range_used (unat physical) (unat count) bm)"

definition rebuild_targets :: "index \<Rightarrow> (u64 \<times> u64 \<times> bool) list" where
  "rebuild_targets ix = map (\<lambda>e. (e_extent_root e, e_size e, has_flag e IS_EXTENT_NODE))
     (filter (\<lambda>e. e_flags e AND (IS_DELETED OR IS_DIR OR IS_INLINE) = 0 \<and> e_extent_root e \<noteq> BLOCK_NULL) ix)"

fun rebuild_marks ::
    "'d block_io \<Rightarrow> u64 \<Rightarrow> u64 \<Rightarrow> u32 \<Rightarrow> (u64 \<times> u64 \<times> bool) list \<Rightarrow> 'd \<times> block_bitmap \<Rightarrow> unit hres \<times> ('d \<times> block_bitmap)" where
  "rebuild_marks io plba dsb dbs [] s = (Ok (), s)"
| "rebuild_marks io plba dsb dbs ((extent_root, sz, is_node) # ts) (d, bm) =
     (if is_node then
        let bm = mark_block_used (unat extent_root) bm in
        (case read_extent_node io plba dsb dbs extent_root d of
           (Ok extents, d) \<Rightarrow> rebuild_marks io plba dsb dbs ts (d, mark_extents extents bm)
         | (Err e, d) \<Rightarrow> rebuild_marks io plba dsb dbs ts (d, bm)
         | (Panic, d) \<Rightarrow> (Panic, (d, bm)) | (Diverges, d) \<Rightarrow> (Diverges, (d, bm)))
      else let blocks_needed = div_ceil (unat sz) BLOCK_SIZE in
        rebuild_marks io plba dsb dbs ts
          (d, if blocks_needed > 0 then mark_range_used (unat extent_root) blocks_needed bm else bm))"

definition rebuild_bitmap_from_index :: "'d block_io \<Rightarrow> 'd \<times> helix_fs \<Rightarrow> unit hres \<times> ('d \<times> helix_fs)" where
  "rebuild_bitmap_from_index io = (\<lambda>(d, fs).
     and_then (on_dev_bitmap (rebuild_marks io (fs_plba fs) (sb_data_start_block (fs_sb fs)) (fs_dbs fs)
                 (rebuild_targets (v_index fs))) (d, fs)) (\<lambda>_ (d, fs).
       (Ok (), (d, if sb_index_root_block (fs_sb fs) \<noteq> BLOCK_NULL
                   then fs\<lparr>v_bitmap := mark_range_used (unat (sb_index_root_block (fs_sb fs)))
                              (unat (sb_index_depth (fs_sb fs))) (v_bitmap fs)\<rparr>
                   else fs))))"

definition mount :: "'d block_io \<Rightarrow> u64 \<Rightarrow> u32 \<Rightarrow> 'd \<Rightarrow> helix_fs hres \<times> 'd" where
  "mount io lba_start block_size d =
     and_then (recover_superblock io lba_start block_size d) (\<lambda>sb d.
     if sb_version sb \<noteq> HELIX_VERSION then (Err IncompatibleVersion, d)
     else let fs = from_superblock sb lba_start block_size in
     case and_then (on_log (reload_head_segment io) (d, fs)) (\<lambda>_ (d, fs).
       and_then
         (if sb_index_root_block sb \<noteq> BLOCK_NULL then
            (case load_index_region io lba_start (sb_data_start_block sb) block_size (sb_index_root_block sb)
                    (unat (sb_index_depth sb)) (unat (sb_index_entry_count sb)) (d, v_index fs) of
               (r, (d, ix)) \<Rightarrow> (r, (d, fs\<lparr>v_index := ix\<rparr>)))
          else (Ok (), (d, fs))) (\<lambda>_ (d, fs).
       case replay_log io (v_log fs) (sb_checkpoint_lsn sb) d (v_index fs, []) of
         (r, d, (ix, snapshots)) \<Rightarrow>
           and_then (r, (d, fs\<lparr>v_index := ix\<rparr>)) (\<lambda>_ (d, fs).
             rebuild_bitmap_from_index io (d, fs\<lparr>fs_snapshot_lsns := snapshots\<rparr>)))) of
       (r, (d, fs)) \<Rightarrow> (res_bind r (\<lambda>_. Ok fs), d))"

definition format_and_mount ::
    "'d block_io \<Rightarrow> u64 \<Rightarrow> u64 \<Rightarrow> u32 \<Rightarrow> bytes \<Rightarrow> bytes \<Rightarrow> 'd \<Rightarrow> helix_fs hres \<times> 'd" where
  "format_and_mount io lba_start lba_count block_size label uuid d =
     and_then (format_helix io lba_start lba_count block_size label uuid d) (\<lambda>_ d. mount io lba_start block_size d)"

subsection \<open>Checkpoint and sync\<close>

definition on_sb :: "('d \<times> superblock \<Rightarrow> 'r \<times> ('d \<times> superblock)) \<Rightarrow> 'd \<times> helix_fs \<Rightarrow> 'r \<times> ('d \<times> helix_fs)" where
  "on_sb f = (\<lambda>(d, fs). case f (d, fs_sb fs) of (r, (d, sb)) \<Rightarrow> (r, (d, fs\<lparr>fs_sb := sb\<rparr>)))"

definition on_dev :: "('d \<Rightarrow> 'r \<times> 'd) \<Rightarrow> 'd \<times> 'v \<Rightarrow> 'r \<times> ('d \<times> 'v)" where
  "on_dev f = (\<lambda>(d, v). case f d of (r, d) \<Rightarrow> (r, (d, v)))"

text \<open>The superblock fields that follow the log, and the write of both slots.\<close>

definition sb_track_log :: "u64 \<Rightarrow> log_engine \<Rightarrow> superblock \<Rightarrow> superblock" where
  "sb_track_log committed_lsn l sb = sb\<lparr>sb_committed_lsn := committed_lsn, sb_log_head_segment := of_nat (lg_head l),
     sb_log_head_offset := of_nat (lg_off l), sb_log_tail_segment := of_nat (lg_tail l)\<rparr>"

definition write_both_superblocks :: "'d block_io \<Rightarrow> 'd \<times> helix_fs \<Rightarrow> unit hres \<times> ('d \<times> helix_fs)" where
  "write_both_superblocks io = (\<lambda>(d, fs).
     and_then (on_sb (write_superblock io (fs_plba fs) (fs_dbs fs) 0) (d, fs)) (\<lambda>_ s.
     and_then (on_sb (write_superblock io (fs_plba fs) (fs_dbs fs) 1) s) (\<lambda>_ s.
     on_dev (io_flush io) s)))"

definition sync :: "'d block_io \<Rightarrow> 'd \<times> helix_fs \<Rightarrow> unit hres \<times> ('d \<times> helix_fs)" where
  "sync io s =
     and_then (on_log (log_flush io) s) (\<lambda>committed_lsn (d, fs).
       write_both_superblocks io (d, fs\<lparr>fs_sb := sb_track_log committed_lsn (v_log fs) (fs_sb fs)\<rparr>))"

definition checkpoint :: "'d block_io \<Rightarrow> 'd \<times> helix_fs \<Rightarrow> unit hres \<times> ('d \<times> helix_fs)" where
  "checkpoint io = (\<lambda>(d, fs).
     let lives = filter (\<lambda>e. live e) (v_index fs);
         blocks_needed = region_blocks (length lives)
     in and_then (on_bitmap (alloc_contiguous blocks_needed) (d, fs)) (\<lambda>region_start (d, fs).
        case write_index_region io (fs_plba fs) (sb_data_start_block (fs_sb fs)) (fs_dbs fs) (of_nat region_start) lives d of
          (Ok _, d) \<Rightarrow>
            (let old_root = sb_index_root_block (fs_sb fs);
                 old_blocks = unat (sb_index_depth (fs_sb fs));
                 next_lsn = lg_next_lsn (v_log fs);
                 checkpoint_lsn = (if next_lsn = 0 then 0 else next_lsn - 1);
                 fs = fs\<lparr>v_log := reset_ring (v_log fs)\<rparr>;
                 fs = fs\<lparr>fs_sb := (fs_sb fs)\<lparr>sb_index_root_block := of_nat region_start,
                        sb_index_depth := of_nat blocks_needed, sb_index_entry_count := of_nat (length lives),
                        sb_checkpoint_lsn := checkpoint_lsn\<rparr>\<rparr>
             in and_then (on_log (log_flush io) (d, fs)) (\<lambda>committed_lsn (d, fs).
                and_then (write_both_superblocks io (d, fs\<lparr>fs_sb := sb_track_log committed_lsn (v_log fs) (fs_sb fs)\<rparr>)) (\<lambda>_ (d, fs).
                  (Ok (), (d, if old_root \<noteq> BLOCK_NULL
                              then fs\<lparr>v_bitmap := snd (free_range (unat old_root) old_blocks (v_bitmap fs))\<rparr>
                              else fs)))))
        | (Err e, d) \<Rightarrow> (Err e, (d, fs\<lparr>v_bitmap := snd (free_range region_start blocks_needed (v_bitmap fs))\<rparr>))
        | (Panic, d) \<Rightarrow> (Panic, (d, fs)) | (Diverges, d) \<Rightarrow> (Diverges, (d, fs))))"

definition with_checkpoint_retry ::
    "'d block_io \<Rightarrow> ('d \<times> helix_fs \<Rightarrow> 'a hres \<times> ('d \<times> helix_fs)) \<Rightarrow> 'd \<times> helix_fs \<Rightarrow> 'a hres \<times> ('d \<times> helix_fs)" where
  "with_checkpoint_retry io op s = (case op s of
       (r, s) \<Rightarrow> if r = Err LogFull then and_then (checkpoint io s) (\<lambda>_ s. op s) else (r, s))"

subsection \<open>File operations\<close>

definition fs_write_file :: "'d block_io \<Rightarrow> bytes \<Rightarrow> bytes \<Rightarrow> u64 \<Rightarrow> 'd \<times> helix_fs \<Rightarrow> u64 hres \<times> ('d \<times> helix_fs)" where
  "fs_write_file io path data timestamp_ns = (\<lambda>(d, fs).
     write_file io (fs_plba fs) (fs_dbs fs) (sb_data_start_block (fs_sb fs)) path data timestamp_ns (d, fs))"

definition snapshot_pins :: "u64 list \<Rightarrow> u64 \<Rightarrow> u64 \<Rightarrow> bool" where
  "snapshot_pins snapshot_lsns old_lsn new_lsn = list_ex (\<lambda>s. s \<ge> old_lsn \<and> s < new_lsn) snapshot_lsns"

definition prior_version :: "index \<Rightarrow> bytes \<Rightarrow> (u64 \<times> u64 \<times> u64 \<times> bool) option" where
  "prior_version ix path = (case lookup ix path of None \<Rightarrow> None
     | Some e \<Rightarrow>
       if e_flags e AND (IS_INLINE OR IS_DIR OR IS_DELETED) = 0 \<and> e_extent_root e \<noteq> BLOCK_NULL
       then Some (e_extent_root e, e_size e, e_lsn e, has_flag e IS_EXTENT_NODE) else None)"

definition fs_write :: "'d block_io \<Rightarrow> bytes \<Rightarrow> bytes \<Rightarrow> u64 \<Rightarrow> 'd \<times> helix_fs \<Rightarrow> unit hres \<times> ('d \<times> helix_fs)" where
  "fs_write io path data timestamp_ns = (\<lambda>(d, fs).
     let old = prior_version (v_index fs) path in
     and_then (with_checkpoint_retry io (fs_write_file io path data timestamp_ns) (d, fs)) (\<lambda>new_lsn (d, fs).
       case old of None \<Rightarrow> (Ok (), (d, fs))
       | Some (extent_root, sz, old_lsn, is_node) \<Rightarrow>
         if \<not> snapshot_pins (fs_snapshot_lsns fs) old_lsn new_lsn then
           on_dev_bitmap (free_file_blocks io (fs_plba fs) (sb_data_start_block (fs_sb fs)) (fs_dbs fs)
             extent_root sz is_node) (d, fs)
         else (Ok (), (d, fs))))"

definition O_CREATE :: u32 where "O_CREATE = 0x04"
definition O_TRUNC :: u32 where "O_TRUNC = 0x10"

definition fs_open :: "'d block_io \<Rightarrow> bytes \<Rightarrow> u32 \<Rightarrow> u64 \<Rightarrow> 'd \<times> helix_fs \<Rightarrow> u64 hres \<times> ('d \<times> helix_fs)" where
  "fs_open io path flags timestamp_ns = (\<lambda>(d, fs).
     let exists = (lookup (v_index fs) path \<noteq> None) in
     and_then
       (if \<not> exists then
          if flags AND O_CREATE \<noteq> 0 then fs_write io path [] timestamp_ns (d, fs) else (Err NotFound, (d, fs))
        else if flags AND O_TRUNC \<noteq> 0 then fs_write io path [] timestamp_ns (d, fs)
        else (Ok (), (d, fs))) (\<lambda>_ (d, fs).
       (case lookup (v_index fs) path of None \<Rightarrow> Err NotFound | Some e \<Rightarrow> Ok (e_key e), (d, fs))))"

definition fs_read :: "'d block_io \<Rightarrow> helix_fs \<Rightarrow> bytes \<Rightarrow> 'd \<Rightarrow> bytes hres \<times> 'd" where
  "fs_read io fs path d = (case lookup (v_index fs) path of None \<Rightarrow> (Err NotFound, d)
     | Some idx_entry \<Rightarrow>
       if has_flag idx_entry IS_INLINE then
         (if unat (e_size idx_entry) > INLINE_DATA_SIZE then (Panic, d)
          else (Ok (take (unat (e_size idx_entry)) (e_inline_data idx_entry)), d))
       else read_file io (v_index fs) (fs_plba fs) (sb_data_start_block (fs_sb fs)) (fs_dbs fs) path d)"

definition fs_mkdir :: "'d block_io \<Rightarrow> bytes \<Rightarrow> u64 \<Rightarrow> 'd \<times> helix_fs \<Rightarrow> unit hres \<times> ('d \<times> helix_fs)" where
  "fs_mkdir io path timestamp_ns = with_checkpoint_retry io (\<lambda>s.
     case mkdir io path timestamp_ns s of (r, s) \<Rightarrow> (res_bind r (\<lambda>_. Ok ()), s))"

definition fs_unlink :: "'d block_io \<Rightarrow> bytes \<Rightarrow> u64 \<Rightarrow> 'd \<times> helix_fs \<Rightarrow> unit hres \<times> ('d \<times> helix_fs)" where
  "fs_unlink io path timestamp_ns = with_checkpoint_retry io (\<lambda>(d, fs).
     case unlink io (fs_plba fs) (sb_data_start_block (fs_sb fs)) (fs_dbs fs) path timestamp_ns (d, fs) of
       (r, s) \<Rightarrow> (res_bind r (\<lambda>_. Ok ()), s))"

definition fs_rename :: "'d block_io \<Rightarrow> bytes \<Rightarrow> bytes \<Rightarrow> u64 \<Rightarrow> 'd \<times> helix_fs \<Rightarrow> unit hres \<times> ('d \<times> helix_fs)" where
  "fs_rename io old_path new_path timestamp_ns = with_checkpoint_retry io (\<lambda>(d, fs).
     case rename io (fs_plba fs) (sb_data_start_block (fs_sb fs)) (fs_dbs fs) old_path new_path timestamp_ns (d, fs) of
       (r, s) \<Rightarrow> (res_bind r (\<lambda>_. Ok ()), s))"

abbreviation MAX_TRUNCATE_GROW :: nat where "MAX_TRUNCATE_GROW \<equiv> 1048576"

definition resize :: "bytes \<Rightarrow> nat \<Rightarrow> bytes" where
  "resize xs n = take n xs @ replicate (n - length xs) 0"

definition fs_truncate :: "'d block_io \<Rightarrow> bytes \<Rightarrow> u64 \<Rightarrow> u64 \<Rightarrow> 'd \<times> helix_fs \<Rightarrow> unit hres \<times> ('d \<times> helix_fs)" where
  "fs_truncate io path new_size timestamp_ns = (\<lambda>(d, fs).
     case lookup (v_index fs) path of None \<Rightarrow> (Err NotFound, (d, fs))
     | Some e \<Rightarrow>
       if has_flag e IS_DIR then (Err IsADirectory, (d, fs))
       else if has_flag e IS_DELETED then (Err NotFound, (d, fs))
       else let is_inline = has_flag e IS_INLINE;
                inline_copy = take (min (unat (e_size e)) INLINE_DATA_SIZE) (e_inline_data e)
       in if new_size = e_size e then (Ok (), (d, fs))
          else if new_size > e_size e \<and> unat new_size > MAX_TRUNCATE_GROW then (Err FileTooLarge, (d, fs))
          else and_then
            (if is_inline then (Ok inline_copy, (d, fs))
             else on_dev (read_file io (v_index fs) (fs_plba fs) (sb_data_start_block (fs_sb fs)) (fs_dbs fs) path) (d, fs))
            (\<lambda>current s. fs_write io path (resize current (unat new_size)) timestamp_ns s))"

definition fs_snapshot :: "'d block_io \<Rightarrow> bytes \<Rightarrow> u64 \<Rightarrow> 'd \<times> helix_fs \<Rightarrow> u64 hres \<times> ('d \<times> helix_fs)" where
  "fs_snapshot io name timestamp_ns s =
     and_then (on_log (log_append io Snapshot (fnv1a_64 name) (path_payload name) timestamp_ns) s) (\<lambda>lsn (d, fs).
     and_then (sync io (d, fs\<lparr>fs_snapshot_lsns := fs_snapshot_lsns fs @ [lsn]\<rparr>)) (\<lambda>_ s. (Ok lsn, s)))"

definition fs_versions :: "'d block_io \<Rightarrow> helix_fs \<Rightarrow> bytes \<Rightarrow> 'd \<Rightarrow> (u64 \<times> u64 \<times> log_op) list hres \<times> 'd" where
  "fs_versions io fs path d = list_versions io (v_log fs) path d"

definition fs_stat :: "helix_fs \<Rightarrow> bytes \<Rightarrow> file_stat hres" where
  "fs_stat fs path = stat_file (v_index fs) path"

definition fs_readdir :: "helix_fs \<Rightarrow> bytes \<Rightarrow> dir_entry list hres" where
  "fs_readdir fs path = readdir_op (v_index fs) path"

end
