(* ===== verification/Helix_Volume.thy ===== *)
theory Helix_Volume
  imports Helix_Ops
begin

text \<open>
  What the operations of \<^verbatim>\<open>helix/src/ops/\<close> keep of a volume. The invariant ties the four parts
  together: replaying the records of the log gives the live index (up to two checksum fields),
  every live file's blocks hold its contents, the blocks of different files are disjoint and
  marked in the bitmap, and all of them lie in the data region. Each operation is shown to keep
  it, on success and on every error return, and what it does to the namespace, the contents and
  the free space is stated on top of it.
\<close>

subsection \<open>Indexes that agree up to checksums\<close>

text \<open>
  A replayed entry of an extent file has no content checksum and a reloaded entry has its own
  checksum filled in; everything else is as in the live index.
\<close>

definition strip :: "index_entry \<Rightarrow> index_entry" where
  "strip e = e\<lparr>e_content_crc64 := 0, e_crc32c := 0\<rparr>"

definition nsv :: "index \<Rightarrow> bytes \<Rightarrow> index_entry option" where
  "nsv ix p = map_option strip (ns ix p)"

definition sim :: "index \<Rightarrow> index \<Rightarrow> bool" where
  "sim ix iy \<longleftrightarrow> index_inv ix \<and> index_inv iy \<and> nsv ix = nsv iy"

lemma strip_eqD:
  assumes "strip e = strip e'"
  shows "e_path e = e_path e'" "e_key e = e_key e'" "e_flags e = e_flags e'" "e_lsn e = e_lsn e'" "e_size e = e_size e'"
    "e_extent_root e = e_extent_root e'" "e_inline_data e = e_inline_data e'" "e_created_ns e = e_created_ns e'"
    "e_modified_ns e = e_modified_ns e'" "e_version_count e = e_version_count e'" "e_first_lsn e = e_first_lsn e'"
    "entry_wf e = entry_wf e'"
  using assms by (cases e; cases e'; simp add: strip_def entry_wf_def)+

lemma strip_sel [simp]:
  "e_path (strip e) = e_path e" "e_flags (strip e) = e_flags e" "e_size (strip e) = e_size e"
  "e_extent_root (strip e) = e_extent_root e" "e_inline_data (strip e) = e_inline_data e"
  by (simp_all add: strip_def)

lemma sim_refl: "index_inv ix \<Longrightarrow> sim ix ix"
  by (simp add: sim_def)

lemma sim_ns:
  assumes "sim ix iy" "ns ix p = Some e"
  obtains e' where "ns iy p = Some e'" "strip e' = strip e"
proof -
  have "map_option strip (ns iy p) = Some (strip e)"
    using assms by (metis nsv_def option.map(2) sim_def)
  then show ?thesis using that by auto
qed

lemma sim_ns_None: "sim ix iy \<Longrightarrow> ns ix p = None \<longleftrightarrow> ns iy p = None"
  by (metis map_option_is_None nsv_def sim_def)

lemma sim_lookup: "sim ix iy \<Longrightarrow> map_option strip (lookup ix p) = map_option strip (lookup iy p)"
  by (metis lookup_ns nsv_def sim_def)

lemma nsv_upsert:
  "index_inv ix \<Longrightarrow> entry_ok e \<Longrightarrow> live e \<Longrightarrow> nsv (upsert ix e) = (nsv ix)(epath e := Some (strip e))"
  by (rule ext) (simp add: nsv_def ns_upsert)

lemma sim_upsert:
  assumes "sim ix iy" "entry_ok e" "entry_ok e'" "live e" "live e'" "strip e = strip e'"
  shows "sim (upsert ix e) (upsert iy e')"
  using assms strip_eqD(1)[OF assms(6)] by (simp add: sim_def nsv_upsert index_inv_upsert)

lemma sim_mark_deleted:
  assumes "sim ix iy" "ns ix p = Some e"
  obtains ix' iy' where "mark_deleted ix p = (Ok (), ix')" "mark_deleted iy p = (Ok (), iy')" "sim ix' iy'"
    "ns ix' = (ns ix)(p := None)" "index_inv ix'"
proof -
  have i: "index_inv ix" "index_inv iy" "nsv ix = nsv iy" using assms(1) by (auto simp: sim_def)
  from sim_ns[OF assms] obtain e' where e': "ns iy p = Some e'" by blast
  from helix_ns.del_live[OF i(1) assms(2)] obtain ix' where
    ix': "mark_deleted ix p = (Ok (), ix')" "index_inv ix'" "ns ix' = (ns ix)(p := None)" by blast
  from helix_ns.del_live[OF i(2) e'] obtain iy' where
    iy': "mark_deleted iy p = (Ok (), iy')" "index_inv iy'" "ns iy' = (ns iy)(p := None)" by blast
  have "nsv ix' q = nsv iy' q" for q using fun_cong[OF i(3), of q] ix'(3) iy'(3) by (simp add: nsv_def)
  then have "sim ix' iy'" using ix'(2) iy'(2) by (simp add: sim_def fun_eq_iff)
  with ix' iy' that show ?thesis by blast
qed

lemma inherit_birth_sel [simp]:
  "e_path (inherit_birth ix p e) = e_path e" "e_flags (inherit_birth ix p e) = e_flags e"
  "e_size (inherit_birth ix p e) = e_size e" "e_extent_root (inherit_birth ix p e) = e_extent_root e"
  "e_inline_data (inherit_birth ix p e) = e_inline_data e" "entry_ok (inherit_birth ix p e) = entry_ok e"
  by (simp_all add: inherit_birth_def entry_ok_def entry_wf_def split: option.split)

lemma strip_inherit_birth:
  assumes "sim ix iy" "strip e = strip e'"
  shows "strip (inherit_birth ix p e) = strip (inherit_birth iy p e')"
proof -
  have l: "map_option strip (lookup ix p) = map_option strip (lookup iy p)" by (rule sim_lookup[OF assms(1)])
  show ?thesis
  proof (cases "lookup ix p")
    case None
    with l have "lookup iy p = None" by simp
    with None assms(2) show ?thesis by (simp add: inherit_birth_def)
  next
    case (Some x)
    with l obtain y where y: "lookup iy p = Some y" "strip x = strip y" by (cases "lookup iy p") auto
    note q = strip_eqD[OF y(2)]
    have "strip (e\<lparr>e_created_ns := a, e_first_lsn := b, e_version_count := c\<rparr>) =
       (strip e)\<lparr>e_created_ns := a, e_first_lsn := b, e_version_count := c\<rparr>" for e :: index_entry and a b c
      by (simp add: strip_def)
    then show ?thesis using Some y(1) assms(2) q by (simp add: inherit_birth_def)
  qed
qed

lemma moved_entry_path: "e_path (moved_entry e p lsn ts) = (let l = min (length p) 255 in splice (replicate 256 0) 0 (take l p))"
  by (simp add: moved_entry_def Let_def)

lemma moved_entry_ok:
  assumes "path_ok p" "entry_wf e"
  shows "entry_ok (moved_entry e p lsn ts)" "epath (moved_entry e p lsn ts) = p"
    "e_flags (moved_entry e p lsn ts) = e_flags e"
proof -
  have s: "e_path (moved_entry e p lsn ts) = p @ replicate (256 - length p) 0"
    using assms(1) by (simp add: moved_entry_path path_ok_def splice_def)
  show e: "epath (moved_entry e p lsn ts) = p"
    using assms(1) by (simp add: s path_bytes_def takeWhile_nonzero path_ok_def)
  have k: "e_key (moved_entry e p lsn ts) = fnv1a_64 p" by (simp add: moved_entry_def Let_def)
  have "entry_wf (moved_entry e p lsn ts)"
    using assms s by (simp add: entry_wf_def path_ok_def) (simp add: moved_entry_def Let_def)
  then show "entry_ok (moved_entry e p lsn ts)" using e k by (simp add: entry_ok_def)
qed (simp add: moved_entry_def Let_def)

lemma strip_moved: "strip e = strip e' \<Longrightarrow> strip (moved_entry e p lsn ts) = strip (moved_entry e' p lsn ts)"
  by (cases e; cases e') (simp add: strip_def moved_entry_def Let_def)

subsection \<open>What the records of the operations replay to\<close>

lemma seal_record_sel [simp]:
  "rh_lsn (seal_record (record_header lsn op fl ph sh tx p ts) p) = lsn"
  "rh_op (seal_record (record_header lsn op fl ph sh tx p ts) p) = op_u8 op"
  "rh_flags (seal_record (record_header lsn op fl ph sh tx p ts) p) = fl"
  "rh_timestamp_ns (seal_record (record_header lsn op fl ph sh tx p ts) p) = ts"
  by (simp_all add: seal_record_def record_header_def)

lemma decode_path_payload_path: "str_path p \<Longrightarrow> decode_path_payload (path_payload p @ rest) = Some (p, rest)"
  using decode_path_payload_prefix[of p rest] by (simp add: path_payload_def)

lemma replay_mkdir_record:
  assumes "str_path p" "\<not> lsn \<le> ck"
  shows "replay_record ck (seal_record (record_header lsn MkDir fl ph sh tx (path_payload p) ts) (path_payload p)) (path_payload p) (iy, sn)
    = (Ok (), (upsert iy (make_dir_entry p lsn ts), sn))"
  using assms decode_path_payload_path[OF assms(1), of "[]"] by (simp add: replay_record_def replay_mkdir_def)

lemma replay_delete_record:
  assumes "str_path p" "\<not> lsn \<le> ck"
  shows "replay_record ck (seal_record (record_header lsn Delete fl ph sh tx (path_payload p) ts) (path_payload p)) (path_payload p) (iy, sn)
    = (Ok (), (snd (mark_deleted iy p), sn))"
  using assms decode_path_payload_path[OF assms(1), of "[]"] by (simp add: replay_record_def replay_delete_def)

lemma replay_inline_record:
  assumes "str_path p" "\<not> lsn \<le> ck" "length data \<le> INLINE_DATA_SIZE" "pl = path_payload p @ data"
  shows "replay_record ck (seal_record (record_header lsn Write 0 ph sh tx pl ts) pl) pl (iy, sn)
    = (Ok (), (upsert iy (inherit_birth iy p (make_file_entry p lsn (of_nat (length data)) ts (Some data) BLOCK_NULL (content_crc data))), sn))"
  using assms decode_path_payload_path[OF assms(1), of data]
  by (simp add: replay_record_def replay_write_def Let_def content_crc_def)

lemma replay_extent_record:
  assumes "str_path p" "\<not> lsn \<le> ck" "pl = build_extent_payload p kind sz root"
    and "e = make_file_entry p lsn sz ts None root 0"
  shows "replay_record ck (seal_record (record_header lsn Write REC_IS_EXTENT ph sh tx pl ts) pl) pl (iy, sn)
    = (Ok (), (upsert iy (inherit_birth iy p (if kind = EXTENT_NODE then e\<lparr>e_flags := e_flags e OR IS_EXTENT_NODE\<rparr> else e)), sn))"
proof -
  let ?r = "[kind] @ le_bytes 8 sz @ le_bytes 8 root"
  have d: "decode_path_payload pl = Some (p, ?r)"
    using decode_path_payload_path[OF assms(1), of ?r] by (simp add: assms(3) build_extent_payload_def)
  have "slice_of ?r 1 8 = le_bytes 8 sz" "slice_of ?r 9 8 = le_bytes 8 root" "?r ! 0 = kind" "length ?r = 17"
    by (simp_all add: slice_of_def)
  then show ?thesis using assms(1,2,4) d
    by (simp add: replay_record_def replay_write_def Let_def REC_IS_EXTENT_def)
qed

lemma replay_rename_record:
  assumes "str_path p" "str_path q" "\<not> lsn \<le> ck" "pl = path_payload p @ path_payload q" "lookup iy p = Some e"
  shows "replay_record ck (seal_record (record_header lsn Rename fl ph sh tx pl ts) pl) pl (iy, sn)
    = (Ok (), (upsert (snd (mark_deleted iy p)) (moved_entry e q lsn ts), sn))"
proof -
  have d: "decode_path_payload pl = Some (p, path_payload q)"
    using decode_path_payload_path[OF assms(1)] by (simp add: assms(4))
  have u: "unat (of_nat (length q) :: u16) = length q"
    using assms(2) by (simp add: str_path_def unat_of_nat take_bit_eq_mod)
  have s: "slice_of (path_payload q) 0 2 = le_bytes 2 (of_nat (length q) :: u16)"
    "slice_of (path_payload q) 2 (length q) = q" "length (path_payload q) = 2 + length q"
    by (simp_all add: path_payload_def slice_append1 slice_append2 slice_full)
  show ?thesis using assms d by (simp add: replay_record_def replay_rename_def Let_def s u str_path_def)
qed

subsection \<open>The records in the ring\<close>

context partition
begin

definition log_state :: "'d \<Rightarrow> log_engine \<Rightarrow> log_record list \<Rightarrow> bool" where
  "log_state d l rs \<longleftrightarrow> log_ok plba dbs nb l \<and> (\<exists>rss. log_rep (blk d) l rss \<and> concat rss = rs)"

definition in_ring :: "log_engine \<Rightarrow> nat \<Rightarrow> bool" where
  "in_ring l b \<longleftrightarrow> seg_base l 0 \<le> b \<and> b < seg_base l (lg_segs l)"

lemma in_ring_same: "same_ring l l' \<Longrightarrow> in_ring l' = in_ring l"
  by (simp add: in_ring_def same_ring_def seg_base_def fun_eq_iff)

lemma log_rep_ring_cong:
  assumes "log_ok plba dbs nb l" "log_rep bm l rss" "\<And>b. in_ring l b \<Longrightarrow> bm' b = bm b"
  shows "log_rep bm' l rss"
proof -
  have t: "lg_tail l < lg_segs l" using assms(1) by (simp add: log_ok_def)
  have "seg_img bm' l (ring_seg l i) = seg_img bm l (ring_seg l i)" for i
  proof -
    have "ring_seg l i < lg_segs l" using t by (simp add: ring_seg_def)
    then have "ring_seg l i * 256 + 256 \<le> lg_segs l * 256" by simp
    then show ?thesis using assms(3)
      by (auto simp: seg_img_def seg_base_def in_ring_def intro!: arg_cong[of _ _ concat] map_cong)
  qed
  then show ?thesis using assms(2) by (simp add: log_rep_def)
qed

lemma log_state_cong:
  "log_state d l rs \<Longrightarrow> (\<And>b. in_ring l b \<Longrightarrow> blk d' b = blk d b) \<Longrightarrow> log_state d' l rs"
  unfolding log_state_def using log_rep_ring_cong by blast

text \<open>
  Room for \<open>k\<close> more records of at most a block: in the head segment, or in the next one when the
  ring has another.
\<close>

definition log_room :: "nat \<Rightarrow> log_engine \<Rightarrow> bool" where
  "log_room k l \<longleftrightarrow> lg_off l + k * 4096 \<le> LOG_SEGMENT_BYTES \<or> k \<le> 255 \<and> (lg_head l + 1) mod lg_segs l \<noteq> lg_tail l"

lemma append_state:
  assumes "good d" "log_state d l rs" "record_size (length payload) \<le> 4096"
    and r: "r = (seal_record (record_header (lg_next_lsn l) op fl ph sh tx payload ts) payload, payload)"
  obtains (ok) d' l' where "append_full io op fl ph sh tx payload ts (d, l) = (Ok (lg_next_lsn l), (d', l'))" "good d'"
      "log_state d' l' (rs @ [r])" "\<And>b. \<not> in_ring l b \<Longrightarrow> blk d' b = blk d b" "lg_next_lsn l' = lg_next_lsn l + 1" "same_ring l l'"
      "\<And>j. log_room (1 + j) l \<Longrightarrow> log_room j l'"
  | (full) "append_full io op fl ph sh tx payload ts (d, l) = (Err LogFull, (d, l))" "\<not> log_room 1 l"
proof -
  from assms(2) obtain rss where l: "log_ok plba dbs nb l" "log_rep (blk d) l rss" and rs: "concat rss = rs"
    by (auto simp: log_state_def)
  have ne: "rss \<noteq> []" using l(2) by (auto simp: log_rep_def)
  consider (fit) "lg_off l + record_size (length payload) \<le> LOG_SEGMENT_BYTES"
    | (switch) "lg_off l + record_size (length payload) > LOG_SEGMENT_BYTES" "(lg_head l + 1) mod lg_segs l \<noteq> lg_tail l"
    | (full) "lg_off l + record_size (length payload) > LOG_SEGMENT_BYTES" "(lg_head l + 1) mod lg_segs l = lg_tail l"
    by linarith
  then show ?thesis
  proof cases
    case fit
    have c: "concat (butlast rss @ [last rss @ [r]]) = rs @ [r]"
      using ne rs by (cases rss rule: rev_cases) auto
    from append_fits[OF l assms(1) fit r] obtain l' where
      a: "append_full io op fl ph sh tx payload ts (d, l) = (Ok (lg_next_lsn l), (d, l'))"
        "log_ok plba dbs nb l'" "log_rep (blk d) l' (butlast rss @ [last rss @ [r]])"
        "lg_next_lsn l' = lg_next_lsn l + 1" "same_ring l l'" "lg_off l' = lg_off l + record_size (length payload)"
        "lg_tail l' = lg_tail l" "lg_head l' = lg_head l" by blast
    have st: "log_state d l' (rs @ [r])" using a(2,3) c unfolding log_state_def by blast
    show ?thesis by (rule ok[OF a(1) assms(1) st refl a(4,5)]) (use a(5-8) assms(3) in \<open>auto simp: log_room_def same_ring_def\<close>)
  next
    case switch
    have c: "concat (rss @ [[r]]) = rs @ [r]" using rs by simp
    from append_switch[OF assms(1) l assms(3) switch r] obtain d' l' where
      a: "append_full io op fl ph sh tx payload ts (d, l) = (Ok (lg_next_lsn l), (d', l'))" "good d'"
        "log_ok plba dbs nb l'" "log_rep (blk d') l' (rss @ [[r]])" "log_frame l (blk d) (blk d')"
        "lg_next_lsn l' = lg_next_lsn l + 1" "same_ring l l'" by blast
    show ?thesis
    proof (rule ok[OF a(1,2) _ _ a(6,7)])
      show "log_state d' l' (rs @ [r])" using a(3,4) c unfolding log_state_def by blast
      show "blk d' b = blk d b" if "\<not> in_ring l b" for b
        using a(5) that unfolding log_frame_def in_ring_def by (metis not_le)
      have "lg_off l' = 64 + record_size (length payload)" using a(4) by (simp add: log_rep_def r)
      then show "log_room j l'" if "log_room (1 + j) l" for j using that switch(1) assms(3) by (auto simp: log_room_def)
    qed
  next
    case f: full
    show ?thesis by (rule full[OF append_full_err[OF l assms(3) f]]) (use f assms(3) in \<open>simp add: log_room_def\<close>)
  qed
qed


subsection \<open>The contents of a file and the blocks it owns\<close>

text \<open>Blocks are counted from the start of the data region.\<close>

definition run_blocks :: "extent list \<Rightarrow> nat list" where
  "run_blocks xs = concat (map (\<lambda>(l, p, c). [unat p..<unat p + unat c]) xs)"

definition owned :: "'d \<Rightarrow> nat \<Rightarrow> index_entry \<Rightarrow> nat set" where
  "owned d dsb e =
     (if has_flag e IS_DIR \<or> has_flag e IS_INLINE then {}
      else if has_flag e IS_EXTENT_NODE then
        insert (unat (e_extent_root e))
          (case parse_extent_node (blk d (dsb + unat (e_extent_root e))) of Ok xs \<Rightarrow> set (run_blocks xs) | _ \<Rightarrow> {})
      else {unat (e_extent_root e)..<unat (e_extent_root e) + div_ceil (unat (e_size e)) 4096})"

definition node_ok :: "'d \<Rightarrow> nat \<Rightarrow> nat \<Rightarrow> bytes \<Rightarrow> extent list \<Rightarrow> bool" where
  "node_ok d dsb root data xs \<longleftrightarrow> xs \<noteq> [] \<and> length xs \<le> EXTENTS_PER_LEAF \<and> dsb + root < nb \<and>
     blk d (dsb + root) = extent_node_block xs \<and> runs_hold d dsb data xs \<and>
     (\<forall>k<div_ceil (length data) 4096. \<exists>(l, p, c)\<in>set xs. unat l \<le> k \<and> k < unat l + unat c) \<and>
     distinct (root # run_blocks xs)"

definition run_ok :: "'d \<Rightarrow> nat \<Rightarrow> nat \<Rightarrow> bytes \<Rightarrow> bool" where
  "run_ok d dsb root data \<longleftrightarrow>
     (\<forall>k<div_ceil (length data) 4096. dsb + root + k < nb \<and> blk d (dsb + root + k) = file_block data k)"

definition file_ok :: "'d \<Rightarrow> nat \<Rightarrow> index_entry \<Rightarrow> bytes \<Rightarrow> bool" where
  "file_ok d dsb e data \<longleftrightarrow> \<not> has_flag e IS_DIR \<and> length data < U64 \<and> e_size e = of_nat (length data) \<and>
     (if has_flag e IS_INLINE then length data \<le> INLINE_DATA_SIZE \<and> take (length data) (e_inline_data e) = data
      else e_extent_root e \<noteq> BLOCK_NULL \<and>
        (if has_flag e IS_EXTENT_NODE then \<exists>xs. node_ok d dsb (unat (e_extent_root e)) data xs
         else run_ok d dsb (unat (e_extent_root e)) data))"

lemma file_ok_size: "file_ok d dsb e data \<Longrightarrow> unat (e_size e) = length data"
  by (simp add: file_ok_def unat_of_nat take_bit_eq_mod)

lemma owned_node:
  assumes "node_ok d dsb (unat (e_extent_root e)) data xs" "\<not> has_flag e IS_DIR" "\<not> has_flag e IS_INLINE" "has_flag e IS_EXTENT_NODE"
  shows "owned d dsb e = insert (unat (e_extent_root e)) (set (run_blocks xs))"
  using assms by (simp add: owned_def node_ok_def parse_extent_node_block)

lemma node_ok_cong:
  assumes "node_ok d dsb root data xs" "\<And>b. b \<in> insert root (set (run_blocks xs)) \<Longrightarrow> blk d' (dsb + b) = blk d (dsb + b)"
  shows "node_ok d' dsb root data xs"
proof -
  have "runs_hold d' dsb data xs"
    unfolding runs_hold_def
  proof (intro ballI, clarify, intro conjI allI impI)
    fix l p c assume m: "(l, p, c) \<in> set xs"
    then have h: "unat l + unat c \<le> div_ceil (length data) 4096"
      "\<And>k. k < unat c \<Longrightarrow> dsb + unat p + k < nb \<and> blk d (dsb + unat p + k) = file_block data (unat l + k)"
      using assms(1) by (auto simp: node_ok_def runs_hold_def)
    show "unat l + unat c \<le> div_ceil (length data) 4096" by (rule h(1))
    fix k assume k: "k < unat c"
    have "unat p + k \<in> set (run_blocks xs)" using m k by (force simp: run_blocks_def)
    then have "blk d' (dsb + (unat p + k)) = blk d (dsb + (unat p + k))" by (intro assms(2)) simp
    then show "dsb + unat p + k < nb" "blk d' (dsb + unat p + k) = file_block data (unat l + k)"
      using h(2)[OF k] by (simp_all add: add.assoc)
  qed
  then show ?thesis using assms(1) assms(2)[of root] by (simp add: node_ok_def)
qed

lemma file_ok_cong:
  assumes "file_ok d dsb e data" "\<And>b. b \<in> owned d dsb e \<Longrightarrow> blk d' (dsb + b) = blk d (dsb + b)"
  shows "file_ok d' dsb e data" "owned d' dsb e = owned d dsb e"
proof -
  have "file_ok d' dsb e data \<and> owned d' dsb e = owned d dsb e"
  proof (cases "has_flag e IS_INLINE")
    case True
    then show ?thesis using assms(1) by (simp add: file_ok_def owned_def)
  next
    case inl: False
    have f: "\<not> has_flag e IS_DIR" using assms(1) by (simp add: file_ok_def)
    show ?thesis
    proof (cases "has_flag e IS_EXTENT_NODE")
      case True
      then obtain xs where xs: "node_ok d dsb (unat (e_extent_root e)) data xs"
        using assms(1) inl by (auto simp: file_ok_def)
      note o = owned_node[OF xs f inl True]
      have x': "node_ok d' dsb (unat (e_extent_root e)) data xs"
        by (rule node_ok_cong[OF xs assms(2)[unfolded o]])
      then show ?thesis using assms(1) inl True owned_node[OF x' f inl True] o by (auto simp: file_ok_def)
    next
      case False
      have sz: "unat (e_size e) = length data" by (rule file_ok_size[OF assms(1)])
      have "run_ok d dsb (unat (e_extent_root e)) data" using assms(1) inl False by (simp add: file_ok_def)
      moreover have "unat (e_extent_root e) + k \<in> owned d dsb e" if "k < div_ceil (length data) 4096" for k
        using that f inl False by (simp add: owned_def sz)
      ultimately have "run_ok d' dsb (unat (e_extent_root e)) data"
        using assms(2) unfolding run_ok_def by (metis add.assoc)
      then show ?thesis using assms(1) f inl False by (simp add: file_ok_def owned_def)
    qed
  qed
  then show "file_ok d' dsb e data" "owned d' dsb e = owned d dsb e" by auto
qed

text \<open>A file reads back as its contents.\<close>

lemma read_file_ok:
  assumes "good d" "index_inv ix" "ns ix p = Some e" "file_ok d dsb e data"
  shows "\<exists>d'. read_file io ix plba (of_nat dsb) dbs p d = (Ok data, d') \<and> good d' \<and> blk d' = blk d"
proof -
  have l: "lookup ix p = Some e" using assms(2,3) by (simp add: lookup_ns)
  have f: "\<not> has_flag e IS_DIR" "\<not> has_flag e IS_DELETED" "length data < U64" "e_size e = of_nat (length data)"
    using assms(2,3,4) by (auto simp: file_ok_def ns_Some_iff)
  note sz = file_ok_size[OF assms(4)]
  show ?thesis
  proof (cases "has_flag e IS_INLINE")
    case True
    then show ?thesis using assms(1,4) l f sz by (simp add: read_file_def file_ok_def)
  next
    case inl: False
    show ?thesis
    proof (cases "has_flag e IS_EXTENT_NODE")
      case True
      then obtain xs where xs: "node_ok d dsb (unat (e_extent_root e)) data xs"
        using assms(4) inl by (auto simp: file_ok_def)
      then have "\<exists>d'. read_extent_file io plba (of_nat dsb) dbs (of_nat (unat (e_extent_root e))) (of_nat (length data)) d = (Ok data, d') \<and>
          good d' \<and> blk d' = blk d"
        using f(3) by (intro read_extent_file_ok[OF assms(1)]) (auto simp: node_ok_def)
      then show ?thesis using l f inl True by (simp add: read_file_def)
    next
      case False
      then have "\<exists>d'. read_extent_data io plba (of_nat dsb) dbs (of_nat (unat (e_extent_root e))) (of_nat (length data)) d = (Ok data, d') \<and>
          good d' \<and> blk d' = blk d"
        using assms(4) inl f(3) by (intro read_extent_data_ok[OF assms(1)]) (auto simp: file_ok_def run_ok_def)
      then show ?thesis using l f inl False by (simp add: read_file_def)
    qed
  qed
qed

end

subsection \<open>Freeing a file\<close>

context partition
begin

lemma free_extents_ok:
  assumes "bitmap_inv bm" "distinct (run_blocks xs)" "set (run_blocks xs) \<subseteq> alloc_set bm"
  shows "bitmap_inv (free_extents xs bm) \<and> bm_total (free_extents xs bm) = bm_total bm \<and>
    alloc_set (free_extents xs bm) = alloc_set bm - set (run_blocks xs)"
  using assms
proof (induction xs arbitrary: bm)
  case (Cons x xs)
  obtain l p c where x: "x = (l, p, c)" by (cases x)
  have r: "run_blocks (x # xs) = [unat p..<unat p + unat c] @ run_blocks xs" by (simp add: run_blocks_def x)
  have "{unat p..<unat p + unat c} \<subseteq> alloc_set bm" using Cons.prems(3) unfolding r by auto
  from free_range_Ok[OF Cons.prems(1) this] obtain bm1 where
    bm1: "free_range (unat p) (unat c) bm = (Ok (), bm1)" "alloc_set bm1 = alloc_set bm - {unat p..<unat p + unat c}"
      "bitmap_inv bm1" "bm_total bm1 = bm_total bm" .
  have d: "distinct (run_blocks xs)" "set (run_blocks xs) \<inter> {unat p..<unat p + unat c} = {}"
    using Cons.prems(2) unfolding r by auto
  then have "set (run_blocks xs) \<subseteq> alloc_set bm1" using Cons.prems(3) bm1(2) unfolding r by auto
  from Cons.IH[OF bm1(3) d(1) this] bm1 show ?case unfolding r by (auto simp: x)
qed (simp add: run_blocks_def)

lemma free_file_blocks_ok:
  assumes "good d" "file_ok d dsb e data" "bitmap_inv bm" "\<not> has_flag e IS_INLINE" "owned d dsb e \<subseteq> alloc_set bm"
  shows "\<exists>d' bm'. free_file_blocks io plba (of_nat dsb) dbs (e_extent_root e) (e_size e) (has_flag e IS_EXTENT_NODE) (d, bm) =
      (Ok (), (d', bm')) \<and> good d' \<and> blk d' = blk d \<and> bitmap_inv bm' \<and> bm_total bm' = bm_total bm \<and>
      alloc_set bm' = alloc_set bm - owned d dsb e"
proof -
  have f: "\<not> has_flag e IS_DIR" "e_extent_root e \<noteq> BLOCK_NULL" using assms(2,4) by (auto simp: file_ok_def)
  show ?thesis
  proof (cases "has_flag e IS_EXTENT_NODE")
    case True
    then obtain xs where xs: "node_ok d dsb (unat (e_extent_root e)) data xs"
      using assms(2,4) by (auto simp: file_ok_def)
    note ow = owned_node[OF xs f(1) assms(4) True]
    have n: "xs \<noteq> []" "length xs \<le> EXTENTS_PER_LEAF" "dsb + unat (e_extent_root e) < nb"
      "blk d (dsb + unat (e_extent_root e)) = extent_node_block xs" "distinct (unat (e_extent_root e) # run_blocks xs)"
      using xs by (auto simp: node_ok_def)
    from read_extent_node_ok[OF assms(1) n(1-4)] obtain d' where
      d': "read_extent_node io plba (of_nat dsb) dbs (e_extent_root e) d = (Ok xs, d')" "good d'" "blk d' = blk d" by auto
    have sub: "set (run_blocks xs) \<subseteq> alloc_set bm" "unat (e_extent_root e) \<in> alloc_set bm" using assms(5) ow by auto
    have "distinct (run_blocks xs)" using n(5) by simp
    note fe = free_extents_ok[OF assms(3) this sub(1)]
    then have "unat (e_extent_root e) \<in> alloc_set (free_extents xs bm)" using sub(2) n(5) by simp
    from free_block_Ok[OF conjunct1[OF fe] this] obtain bm' where
      bm': "free_block (unat (e_extent_root e)) (free_extents xs bm) = (Ok (), bm')"
        "alloc_set bm' = alloc_set (free_extents xs bm) - {unat (e_extent_root e)}" "bitmap_inv bm'"
        "bm_total bm' = bm_total (free_extents xs bm)" .
    then show ?thesis using d' f True fe ow by (auto simp: free_file_blocks_def)
  next
    case False
    have ow: "owned d dsb e = {unat (e_extent_root e)..<unat (e_extent_root e) + div_ceil (unat (e_size e)) 4096}"
      using f(1) assms(4) False by (simp add: owned_def)
    from free_range_Ok[OF assms(3) assms(5)[unfolded ow]] obtain bm' where
      "free_range (unat (e_extent_root e)) (div_ceil (unat (e_size e)) 4096) bm = (Ok (), bm')"
      "alloc_set bm' = alloc_set bm - owned d dsb e" "bitmap_inv bm'" "bm_total bm' = bm_total bm" unfolding ow .
    then show ?thesis using assms(1) f False by (simp add: free_file_blocks_def)
  qed
qed

subsection \<open>The files of a volume\<close>

text \<open>
  \<open>A\<close> is the set of allocated blocks and \<open>R\<close> the part of it that belongs to no file (the
  checkpointed index region).
\<close>

definition store_ok :: "'d \<Rightarrow> nat \<Rightarrow> (bytes \<Rightarrow> index_entry option) \<Rightarrow> nat set \<Rightarrow> nat set \<Rightarrow> bool" where
  "store_ok d dsb m A R \<longleftrightarrow> R \<subseteq> A \<and> (\<forall>p\<in>dom m. str_path p) \<and>
     (\<forall>p e. m p = Some e \<longrightarrow> (has_flag e IS_DIR \<or> (\<exists>data. file_ok d dsb e data)) \<and> owned d dsb e \<subseteq> A - R) \<and>
     (\<forall>p q e f. m p = Some e \<longrightarrow> m q = Some f \<longrightarrow> p \<noteq> q \<longrightarrow> owned d dsb e \<inter> owned d dsb f = {})"

lemma store_okD:
  assumes "store_ok d dsb m A R" "m p = Some e"
  shows "owned d dsb e \<subseteq> A - R" "has_flag e IS_DIR \<or> (\<exists>data. file_ok d dsb e data)" "str_path p"
    "m q = Some f \<Longrightarrow> q \<noteq> p \<Longrightarrow> owned d dsb f \<inter> owned d dsb e = {}"
  using assms by (auto simp: store_ok_def)

lemma owned_dir: "has_flag e IS_DIR \<Longrightarrow> owned d dsb e = {}"
  by (simp add: owned_def)

lemma entry_frame:
  assumes "store_ok d dsb m A R" "m p = Some e" "\<And>b. b \<in> A \<Longrightarrow> blk d' (dsb + b) = blk d (dsb + b)"
  shows "owned d' dsb e = owned d dsb e" "file_ok d dsb e data \<Longrightarrow> file_ok d' dsb e data"
proof -
  have "owned d' dsb e = owned d dsb e \<and> (file_ok d dsb e data \<longrightarrow> file_ok d' dsb e data)" for data
  proof (cases "has_flag e IS_DIR")
    case True
    then show ?thesis by (simp add: owned_dir file_ok_def)
  next
    case False
    then obtain x where x: "file_ok d dsb e x" using store_okD(2)[OF assms(1,2)] by blast
    have eq: "blk d' (dsb + b) = blk d (dsb + b)" if "b \<in> owned d dsb e" for b
      using that store_okD(1)[OF assms(1,2)] assms(3) by blast
    show ?thesis using file_ok_cong[OF x eq] file_ok_cong(1)[OF _ eq] by blast
  qed
  then show "owned d' dsb e = owned d dsb e" "file_ok d dsb e data \<Longrightarrow> file_ok d' dsb e data" by auto
qed

lemma store_frame:
  assumes "store_ok d dsb m A R" "\<And>b. b \<in> A \<Longrightarrow> blk d' (dsb + b) = blk d (dsb + b)"
  shows "store_ok d' dsb m A R"
  unfolding store_ok_def
proof (intro conjI allI impI)
  show "R \<subseteq> A" "\<forall>p\<in>dom m. str_path p" using assms(1) by (simp_all add: store_ok_def)
  fix p e assume e: "m p = Some e"
  note fr = entry_frame[OF assms(1) e assms(2)]
  show "has_flag e IS_DIR \<or> (\<exists>data. file_ok d' dsb e data)" using store_okD(2)[OF assms(1) e] fr(2) by blast
  show "owned d' dsb e \<subseteq> A - R" using store_okD(1)[OF assms(1) e] fr(1) by simp
  fix q f assume "m q = Some f" "p \<noteq> q"
  then show "owned d' dsb e \<inter> owned d' dsb f = {}"
    using store_okD(4)[OF assms(1) \<open>m q = Some f\<close> e] fr(1) entry_frame(1)[OF assms(1) \<open>m q = Some f\<close> assms(2)] by simp
qed

lemma store_put:
  assumes "store_ok d dsb m A R" "str_path p" "has_flag e IS_DIR \<or> file_ok d dsb e data" "A \<subseteq> A'" "owned d dsb e \<subseteq> A' - A"
  shows "store_ok d dsb (m(p := Some e)) A' R"
  using assms unfolding store_ok_def by (auto split: if_splits) blast+

lemma store_del:
  "store_ok d dsb m A R \<Longrightarrow> store_ok d dsb (m(p := None)) A R"
  unfolding store_ok_def by (auto split: if_splits)

lemma store_free:
  assumes "store_ok d dsb m A R" "F \<inter> R = {}" "\<And>q f. m q = Some f \<Longrightarrow> owned d dsb f \<inter> F = {}"
  shows "store_ok d dsb m (A - F) R"
  using assms unfolding store_ok_def by blast

lemma store_mono: "store_ok d dsb m A R \<Longrightarrow> A \<subseteq> A' \<Longrightarrow> store_ok d dsb m A' R"
  unfolding store_ok_def by blast

lemma store_move:
  assumes "store_ok d dsb m A R" "m p = Some e" "owned d dsb e' = owned d dsb e" "str_path q"
    "has_flag e' IS_DIR = has_flag e IS_DIR" "\<And>data. file_ok d dsb e data \<Longrightarrow> file_ok d dsb e' data"
  shows "store_ok d dsb (m(p := None, q := Some e')) A R"
proof -
  have "\<exists>x. has_flag e' IS_DIR \<or> file_ok d dsb e' x" using store_okD(2)[OF assms(1,2)] assms(5,6) by blast
  moreover have "owned d dsb e' \<subseteq> A - R" using store_okD(1)[OF assms(1,2)] assms(3) by simp
  moreover have "owned d dsb e' \<inter> owned d dsb f = {}" if "m s = Some f" "s \<noteq> p" for s f
    using store_okD(4)[OF assms(1,2) that] assms(3) by auto
  ultimately show ?thesis using store_del[OF assms(1), of p] assms(4) unfolding store_ok_def
    by (simp split: if_splits) blast
qed

end

subsection \<open>The volume invariant\<close>

context partition
begin

text \<open>
  \<open>rg\<close> is the geometry of the ring and of the bitmap, which no operation changes. \<open>ck\<close> and \<open>base\<close> are the LSN and the index of the last checkpoint, from which the log is
  replayed; \<open>sn\<close> are the snapshots the replay finds.
\<close>

definition vol_shape :: "u64 \<times> u64 \<times> nat \<times> nat \<Rightarrow> nat \<Rightarrow> nat set \<Rightarrow> 'd \<Rightarrow> 'a vol_scheme \<Rightarrow> bool" where
  "vol_shape rg dsb R d v \<longleftrightarrow> good d \<and> bitmap_inv (v_bitmap v) \<and> bm_total (v_bitmap v) < U32 \<and> dsb + bm_total (v_bitmap v) \<le> nb \<and>
     rg = (lg_start (v_log v), lg_end (v_log v), lg_segs (v_log v), bm_total (v_bitmap v)) \<and>
     2 \<le> seg_base (v_log v) 0 \<and> seg_base (v_log v) (lg_segs (v_log v)) \<le> dsb \<and>
     store_ok d dsb (ns (v_index v)) (alloc_set (v_bitmap v)) R"

definition vol_log :: "u64 \<Rightarrow> index \<Rightarrow> 'd \<Rightarrow> 'a vol_scheme \<Rightarrow> u64 list \<Rightarrow> bool" where
  "vol_log ck base d v sn \<longleftrightarrow> ck < lg_next_lsn (v_log v) \<and>
     (\<exists>rs iy. log_state d (v_log v) rs \<and> (\<forall>r\<in>set rs. rh_lsn (fst r) < lg_next_lsn (v_log v)) \<and>
        replay_all ck rs (base, []) = (Ok (), (iy, sn)) \<and> sim (v_index v) iy)"

definition vol_ok :: "u64 \<times> u64 \<times> nat \<times> nat \<Rightarrow> nat \<Rightarrow> u64 \<Rightarrow> index \<Rightarrow> nat set \<Rightarrow> u64 list \<Rightarrow> 'd \<times> 'a vol_scheme \<Rightarrow> bool" where
  "vol_ok rg dsb ck base R sn = (\<lambda>(d, v). vol_shape rg dsb R d v \<and> vol_log ck base d v sn)"

definition lsn_room :: "nat \<Rightarrow> 'd \<times> 'a vol_scheme \<Rightarrow> bool" where
  "lsn_room n = (\<lambda>(d, v). unat (lg_next_lsn (v_log v)) + n < U64)"

lemma vol_logI:
  assumes "ck < lg_next_lsn (v_log v)" "log_state d (v_log v) rs" "\<forall>r\<in>set rs. rh_lsn (fst r) < lg_next_lsn (v_log v)"
    "replay_all ck rs (base, []) = (Ok (), (iy, sn))" "sim (v_index v) iy"
  shows "vol_log ck base d v sn"
  using assms unfolding vol_log_def by blast

lemma vol_index_inv: "vol_ok rg dsb ck base R sn (d, v) \<Longrightarrow> index_inv (v_index v)"
  by (auto simp: vol_ok_def vol_log_def sim_def)

text \<open>
  One logged change: either the log is full and nothing happens, or the record is in the log and
  the volume may move on to any index the record replays to.
\<close>

lemma vol_append:
  assumes vk: "vol_ok rg dsb ck base R sn (d, v)" and room: "lsn_room 1 (d, v)" and sz: "record_size (length payload) \<le> 4096"
    and h: "h = seal_record (record_header (lg_next_lsn (v_log v)) op fl ph sh tx payload ts) payload"
  obtains (ok) d' l' where "on_log (append_full io op fl ph sh tx payload ts) (d, v) = (Ok (lg_next_lsn (v_log v)), (d', v\<lparr>v_log := l'\<rparr>))"
      "good d'" "\<And>b. dsb \<le> b \<Longrightarrow> blk d' b = blk d b" "lg_next_lsn l' = lg_next_lsn (v_log v) + 1" "\<not> lg_next_lsn (v_log v) \<le> ck"
      "\<And>ix' sn'. (\<And>iy. sim (v_index v) iy \<Longrightarrow> \<exists>iy'. replay_record ck h payload (iy, sn) = (Ok (), (iy', sn')) \<and> sim ix' iy') \<Longrightarrow>
         store_ok d dsb (ns ix') (alloc_set (v_bitmap v)) R \<Longrightarrow> vol_ok rg dsb ck base R sn' (d', v\<lparr>v_log := l', v_index := ix'\<rparr>)"
      "\<And>j. log_room (1 + j) (v_log v) \<Longrightarrow> log_room j l'"
  | (full) "on_log (append_full io op fl ph sh tx payload ts) (d, v) = (Err LogFull, (d, v))" "\<not> log_room 1 (v_log v)"
proof -
  let ?l = "v_log v"
  from vk have sh: "vol_shape rg dsb R d v" and lo: "vol_log ck base d v sn" by (auto simp: vol_ok_def)
  from lo obtain rs iy where rs: "ck < lg_next_lsn ?l" "log_state d ?l rs" "\<forall>r\<in>set rs. rh_lsn (fst r) < lg_next_lsn ?l"
    "replay_all ck rs (base, []) = (Ok (), (iy, sn))" "sim (v_index v) iy"
    unfolding vol_log_def by blast
  have g: "good d" and ring: "seg_base ?l (lg_segs ?l) \<le> dsb" using sh by (auto simp: vol_shape_def)
  have lt: "lg_next_lsn ?l < lg_next_lsn ?l + 1"
    using room by (simp add: lsn_room_def word_less_nat_alt unat_word_ariths)
  show ?thesis
  proof (rule append_state[OF g rs(2) sz refl, of op fl ph sh tx ts])
    assume "append_full io op fl ph sh tx payload ts (d, ?l) = (Err LogFull, (d, ?l))" "\<not> log_room 1 ?l"
    then show ?thesis by (intro full) (simp_all add: on_log_def)
  next
    fix d' l'
    assume a: "append_full io op fl ph sh tx payload ts (d, ?l) = (Ok (lg_next_lsn ?l), (d', l'))" "good d'"
      and st: "log_state d' l' (rs @ [(seal_record (record_header (lg_next_lsn ?l) op fl ph sh tx payload ts) payload, payload)])"
      and fr: "\<And>b. \<not> in_ring ?l b \<Longrightarrow> blk d' b = blk d b" and n: "lg_next_lsn l' = lg_next_lsn ?l + 1" and sr: "same_ring ?l l'"
      and lr: "\<And>j. log_room (1 + j) ?l \<Longrightarrow> log_room j l'"
    have fr': "blk d' b = blk d b" if "dsb \<le> b" for b using that fr ring by (auto simp: in_ring_def)
    have vok: "vol_ok rg dsb ck base R sn' (d', v\<lparr>v_log := l', v_index := ix'\<rparr>)"
      if re: "\<And>iy. sim (v_index v) iy \<Longrightarrow> \<exists>iy'. replay_record ck h payload (iy, sn) = (Ok (), (iy', sn')) \<and> sim ix' iy'"
        and so: "store_ok d dsb (ns ix') (alloc_set (v_bitmap v)) R" for ix' sn'
    proof -
      have "store_ok d' dsb (ns ix') (alloc_set (v_bitmap v)) R" by (rule store_frame[OF so]) (simp add: fr')
      then have "vol_shape rg dsb R d' (v\<lparr>v_log := l', v_index := ix'\<rparr>)"
        using sh a(2) sr by (simp add: vol_shape_def same_ring_def seg_base_def)
      moreover obtain iy' where iy': "replay_record ck h payload (iy, sn) = (Ok (), (iy', sn'))" "sim ix' iy'"
        using re[OF rs(5)] by blast
      have "vol_log ck base d' (v\<lparr>v_log := l', v_index := ix'\<rparr>) sn'"
      proof (rule vol_logI)
        show "ck < lg_next_lsn (v_log (v\<lparr>v_log := l', v_index := ix'\<rparr>))" using rs(1) lt n by simp
        show "log_state d' (v_log (v\<lparr>v_log := l', v_index := ix'\<rparr>)) (rs @ [(h, payload)])" using st by (simp add: h)
        show "\<forall>r\<in>set (rs @ [(h, payload)]). rh_lsn (fst r) < lg_next_lsn (v_log (v\<lparr>v_log := l', v_index := ix'\<rparr>))"
          using rs(3) lt n by (auto simp: h)
        show "replay_all ck (rs @ [(h, payload)]) (base, []) = (Ok (), (iy', sn'))"
          using rs(4) iy'(1) by (simp add: replay_all_append)
        show "sim (v_index (v\<lparr>v_log := l', v_index := ix'\<rparr>)) iy'" using iy'(2) by simp
      qed
      ultimately show ?thesis by (simp add: vol_ok_def)
    qed
    show ?thesis
    proof (rule ok[OF _ a(2) fr' n _ vok lr])
      show "on_log (append_full io op fl ph sh tx payload ts) (d, v) = (Ok (lg_next_lsn ?l), (d', v\<lparr>v_log := l'\<rparr>))"
        by (simp add: on_log_def a(1))
      show "\<not> lg_next_lsn ?l \<le> ck" using rs(1) by simp
    qed
  qed
qed

end

subsection \<open>The directories above a path\<close>

lemma split_slash_ne: "split_slash p \<noteq> []"
  by (induction p) (auto split: list.splits)

lemma high_not_slash: "0x80 \<le> (b :: u8) \<Longrightarrow> b \<noteq> SLASH"
  by auto

lemma utf8_valid_cases:
  assumes "utf8_valid (a # r)"
  obtains (1) "a < 0x80" "utf8_valid r"
    | (2) b r' where "a \<ge> 0x80" "r = b # r'" "0x80 \<le> b" "utf8_valid r'" "\<And>s. utf8_valid s \<Longrightarrow> utf8_valid ([a, b] @ s)"
    | (3) b c r' where "a \<ge> 0x80" "r = b # c # r'" "0x80 \<le> b" "0x80 \<le> c" "utf8_valid r'"
        "\<And>s. utf8_valid s \<Longrightarrow> utf8_valid ([a, b, c] @ s)"
    | (4) b c d r' where "a \<ge> 0x80" "r = b # c # d # r'" "0x80 \<le> b" "0x80 \<le> c" "0x80 \<le> d" "utf8_valid r'"
        "\<And>s. utf8_valid s \<Longrightarrow> utf8_valid ([a, b, c, d] @ s)"
proof -
  have ge: "(0x80 :: u8) \<le> x" if "0x90 \<le> x \<or> 0xA0 \<le> x \<or> \<not> x < 0x80" for x using that by (auto simp: word_le_nat_alt word_less_nat_alt)
  show ?thesis
  proof (cases "a < 0x80")
    case True
    with assms 1 show ?thesis by simp
  next
    case a: False
    show ?thesis
    proof (cases "0xC2 \<le> a \<and> a \<le> 0xDF")
      case True
      with a assms obtain b r' where "r = b # r'" "0x80 \<le> b" "b \<le> 0xBF" "utf8_valid r'" by (auto split: list.splits)
      with a True show ?thesis by (intro 2[of b r']) auto
    next
      case c2: False
      show ?thesis
      proof (cases "0xE0 \<le> a \<and> a \<le> 0xEF")
        case True
        with a c2 assms obtain b c r' where r: "r = b # c # r'" by (auto split: list.splits)
        with a c2 True assms have v: "if a = 0xE0 then 0xA0 \<le> b \<and> b \<le> 0xBF
            else if a = 0xED then 0x80 \<le> b \<and> b \<le> 0x9F else 0x80 \<le> b \<and> b \<le> 0xBF" "0x80 \<le> c" "c \<le> 0xBF" "utf8_valid r'"
          by (simp_all only: utf8_valid.simps if_False if_True list.case) auto
        show ?thesis
        proof (rule 3[OF _ r])
          show "a \<ge> 0x80" "0x80 \<le> b" "0x80 \<le> c" "utf8_valid r'" using a v ge by (auto split: if_splits)
          show "utf8_valid ([a, b, c] @ s)" if "utf8_valid s" for s
            unfolding append.simps by (subst utf8_valid.simps(2)) (use a c2 True v that in \<open>auto simp del: utf8_valid.simps\<close>)
        qed
      next
        case e0: False
        have f: "0xF0 \<le> a" "a \<le> 0xF4" using a c2 e0 assms[unfolded utf8_valid.simps(2)] by (auto simp del: utf8_valid.simps split: if_splits)
        note w = assms[unfolded utf8_valid.simps(2) if_not_P[OF a] if_not_P[OF c2] if_not_P[OF e0] if_P[OF conjI[OF f]]]
        then obtain b c d r' where r: "r = b # c # d # r'" by (auto simp del: utf8_valid.simps split: list.splits)
        have v: "if a = 0xF0 then 0x90 \<le> b \<and> b \<le> 0xBF
            else if a = 0xF4 then 0x80 \<le> b \<and> b \<le> 0x8F else 0x80 \<le> b \<and> b \<le> 0xBF"
            "0x80 \<le> c" "c \<le> 0xBF" "0x80 \<le> d" "d \<le> 0xBF" "utf8_valid r'"
          using w[unfolded r list.case] by (simp_all del: utf8_valid.simps)
        show ?thesis
        proof (rule 4[OF _ r])
          show "a \<ge> 0x80" "0x80 \<le> b" "0x80 \<le> c" "0x80 \<le> d" "utf8_valid r'" using a v ge by (auto split: if_splits)
          show "utf8_valid ([a, b, c, d] @ s)" if "utf8_valid s" for s
            unfolding append.simps by (subst utf8_valid.simps(2)) (use a c2 e0 f v that in \<open>auto simp del: utf8_valid.simps\<close>)
        qed
      qed
    qed
  qed
qed

lemma utf8_append:
  assumes "utf8_valid b"
  shows "utf8_valid a \<Longrightarrow> utf8_valid (a @ b)"
proof (induction a rule: measure_induct_rule[where f = length])
  case (less p)
  show ?case
  proof (cases p)
    case (Cons a r)
    have "utf8_valid (a # r)" using less.prems Cons by simp
    then show ?thesis
    proof (cases rule: utf8_valid_cases)
      case 1
      then have "utf8_valid (r @ b)" using less.IH Cons by simp
      then show ?thesis using 1 Cons by simp
    next
      case (2 x r')
      then have "utf8_valid (r' @ b)" using less.IH Cons by simp
      from 2(5)[OF this] show ?thesis by (simp only: Cons 2(2) append.simps)
    next
      case (3 x y r')
      then have "utf8_valid (r' @ b)" using less.IH Cons by simp
      from 3(6)[OF this] show ?thesis by (simp only: Cons 3(2) append.simps)
    next
      case (4 x y z r')
      then have "utf8_valid (r' @ b)" using less.IH Cons by simp
      from 4(7)[OF this] show ?thesis by (simp only: Cons 4(2) append.simps)
    qed
  qed (use assms in simp)
qed

lemma split_slash_chunk:
  assumes "list_all utf8_valid (split_slash r)" "\<forall>b\<in>set bs. b \<noteq> SLASH" "\<And>c. utf8_valid c \<Longrightarrow> utf8_valid (bs @ c)"
  shows "list_all utf8_valid (split_slash (bs @ r))"
proof -
  obtain c cs where c: "split_slash r = c # cs" using split_slash_ne[of r] by (cases "split_slash r") auto
  have "split_slash (bs @ r) = (bs @ c) # cs" using assms(2) by (induction bs) (simp_all add: c)
  then show ?thesis using assms(1,3) c by simp
qed

lemma utf8_split: "utf8_valid p \<Longrightarrow> list_all utf8_valid (split_slash p)"
proof (induction p rule: measure_induct_rule[where f = length])
  case (less p)
  show ?case
  proof (cases p)
    case (Cons a r)
    have "utf8_valid (a # r)" using less.prems Cons by simp
    then show ?thesis
    proof (cases rule: utf8_valid_cases)
      case 1
      then have "list_all utf8_valid (split_slash r)" using less.IH Cons by simp
      then show ?thesis using split_slash_chunk[of r "[a]"] 1 Cons by (cases "a = SLASH") auto
    next
      case (2 b r')
      then have "list_all utf8_valid (split_slash r')" using less.IH Cons by simp
      from split_slash_chunk[OF this, of "[a, b]"] 2 high_not_slash show ?thesis by (simp only: Cons) auto
    next
      case (3 b c r')
      then have "list_all utf8_valid (split_slash r')" using less.IH Cons by simp
      from split_slash_chunk[OF this, of "[a, b, c]"] 3 high_not_slash show ?thesis by (simp only: Cons) auto
    next
      case (4 b c d r')
      then have "list_all utf8_valid (split_slash r')" using less.IH Cons by simp
      from split_slash_chunk[OF this, of "[a, b, c, d]"] 4 high_not_slash show ?thesis by (simp only: Cons) auto
    qed
  qed simp
qed

lemma split_slash_length: "sum_list (map (\<lambda>c. length c + 1) (split_slash p)) = length p + 1"
proof (induction p)
  case (Cons b p)
  then show ?case using split_slash_ne[of p] by (cases "split_slash p") auto
qed simp

lemma split_slash_set: "c \<in> set (split_slash p) \<Longrightarrow> set c \<subseteq> set p"
proof (induction p arbitrary: c)
  case (Cons b p)
  obtain x xs where x: "split_slash p = x # xs" using split_slash_ne[of p] by (cases "split_slash p") auto
  have "set x \<subseteq> set p" "\<And>y. y \<in> set xs \<Longrightarrow> set y \<subseteq> set p" using Cons.IH x by auto
  then show ?case using Cons.prems x by (auto split: if_splits)
qed simp

lemma sum_list_filter_le: "sum_list (map f (filter P xs)) \<le> (sum_list (map f xs) :: nat)"
  by (induction xs) auto

definition dir_names :: "bytes list \<Rightarrow> bytes" where
  "dir_names parts = concat (map (\<lambda>c. c @ [SLASH]) parts)"

lemma dir_names_simps [simp]:
  "dir_names [] = []" "dir_names (c # cs) = c @ [SLASH] @ dir_names cs"
  by (simp_all add: dir_names_def)

lemma length_dir_names: "length (dir_names cs) = sum_list (map (\<lambda>c. length c + 1) cs)"
  by (induction cs) auto

lemma utf8_dir_names: "list_all utf8_valid cs \<Longrightarrow> utf8_valid (dir_names cs)"
  by (induction cs) (auto intro!: utf8_append)

text \<open>Every directory above a string path is a string path: no prefix splits a character.\<close>

lemma parent_dirs_str_path:
  assumes "str_path p" "parts = filter (\<lambda>c. c \<noteq> []) (split_slash p)" "k \<le> length (butlast parts)"
  shows "str_path (SLASH # dir_names (take k (butlast parts)))"
proof -
  obtain r where r: "p = SLASH # r" using assms(1) by (cases p) (auto simp: str_path_def)
  have parts: "parts = filter (\<lambda>c. c \<noteq> []) (split_slash r)" using assms(2) r by simp
  have v: "list_all utf8_valid parts" using utf8_split[of r] assms(1) parts r by (auto simp: str_path_def list_all_iff)
  have tk: "set (take k (butlast parts)) \<subseteq> set parts" using set_take_subset in_set_butlastD by fastforce
  have u: "utf8_valid (SLASH # dir_names (take k (butlast parts)))"
    using utf8_dir_names[of "take k (butlast parts)"] v tk by (auto simp: list_all_iff)
  have z: "0 \<notin> set (dir_names (take k (butlast parts)))"
  proof
    assume "0 \<in> set (dir_names (take k (butlast parts)))"
    then obtain c where "c \<in> set (take k (butlast parts))" "0 \<in> set c" by (auto simp: dir_names_def split: if_splits)
    then have "c \<in> set (split_slash r)" "0 \<in> set c" using tk parts by auto
    then have "0 \<in> set p" using split_slash_set[of c r] r by auto
    then show False using assms(1) by (simp add: str_path_def)
  qed
  have "length (dir_names (take k (butlast parts))) \<le> length r"
  proof (cases "parts = []")
    case False
    let ?f = "\<lambda>c :: bytes. length c + 1"
    have "sum_list (map ?f (take k (butlast parts))) + sum_list (map ?f (drop k (butlast parts))) = sum_list (map ?f (butlast parts))"
      by (metis append_take_drop_id map_append sum_list_append)
    moreover have "sum_list (map ?f parts) = sum_list (map ?f (butlast parts)) + ?f (last parts)"
      using False by (cases parts rule: rev_cases) auto
    moreover have "sum_list (map ?f parts) \<le> length r + 1"
      using sum_list_filter_le[of ?f "\<lambda>c. c \<noteq> []" "split_slash r"] unfolding parts split_slash_length by simp
    ultimately show ?thesis unfolding length_dir_names by simp
  qed simp
  then show ?thesis using u z assms(1) r by (simp add: str_path_def)
qed

definition adds_dirs :: "(bytes \<Rightarrow> index_entry option) \<Rightarrow> (bytes \<Rightarrow> index_entry option) \<Rightarrow> bool" where
  "adds_dirs m m' \<longleftrightarrow> (\<forall>q. m' q = m q \<or> m q = None \<and> ends_with_slash q \<and> (\<exists>e. m' q = Some e \<and> has_flag e IS_DIR))"

lemma adds_dirs_refl: "adds_dirs m m"
  by (simp add: adds_dirs_def)

lemma adds_dirs_trans: "adds_dirs m m1 \<Longrightarrow> adds_dirs m1 m2 \<Longrightarrow> adds_dirs m m2"
  unfolding adds_dirs_def by (metis option.distinct(1))

lemma adds_dirs_put:
  "adds_dirs m m' \<Longrightarrow> m q = None \<Longrightarrow> ends_with_slash q \<Longrightarrow> has_flag e IS_DIR \<Longrightarrow> adds_dirs m (m'(q := Some e))"
  by (simp add: adds_dirs_def)

lemma adds_dirs_keeps: "adds_dirs m m' \<Longrightarrow> m q = Some e \<Longrightarrow> m' q = Some e"
  unfolding adds_dirs_def by (metis option.distinct(1))

lemma adds_dirs_file: "adds_dirs m m' \<Longrightarrow> \<not> ends_with_slash q \<Longrightarrow> m' q = m q"
  unfolding adds_dirs_def by blast

lemma dir_entry_flag [simp]: "has_flag (make_dir_entry p lsn ts) IS_DIR"
  by (simp add: make_dir_entry_def IS_DIR_def)

lemma str_path_record: "str_path p \<Longrightarrow> length rest \<le> 512 \<Longrightarrow> record_size (length (path_payload p @ rest)) \<le> 4096"
  using record_size_bounds[of "length (path_payload p @ rest)"] by (simp add: str_path_def path_payload_def)

context partition
begin

text \<open>The steps that touch neither the bitmap nor the data region and only add directories.\<close>

definition meta_step :: "nat \<Rightarrow> nat \<Rightarrow> 'd \<times> 'a vol_scheme \<Rightarrow> 'd \<times> 'a vol_scheme \<Rightarrow> bool" where
  "meta_step dsb n = (\<lambda>(d, v) (d', v'). v_bitmap v' = v_bitmap v \<and> vol.more v' = vol.more v \<and> (\<forall>b\<ge>dsb. blk d' b = blk d b) \<and>
     adds_dirs (ns (v_index v)) (ns (v_index v')) \<and> unat (lg_next_lsn (v_log v')) \<le> unat (lg_next_lsn (v_log v)) + n \<and>
     (\<forall>j. log_room (n + j) (v_log v) \<longrightarrow> log_room j (v_log v')))"

lemma log_room_le: "log_room k l \<Longrightarrow> j \<le> k \<Longrightarrow> log_room j l"
  by (auto simp: log_room_def)

lemma meta_step_refl: "meta_step dsb n s s"
  by (auto simp: meta_step_def adds_dirs_refl elim: log_room_le)

lemma meta_step_trans: "meta_step dsb n s s1 \<Longrightarrow> meta_step dsb k s1 s2 \<Longrightarrow> meta_step dsb (n + k) s s2"
  by (auto simp: meta_step_def add.assoc intro: adds_dirs_trans)

lemma log_room_mono: "\<forall>j. log_room (n + j) l \<longrightarrow> log_room j l' \<Longrightarrow> n \<le> k \<Longrightarrow> log_room (k + j) l \<Longrightarrow> log_room j l'"
  using log_room_le[of "k + j" l "n + j"] by simp

lemma meta_step_le: "meta_step dsb n s s' \<Longrightarrow> n \<le> k \<Longrightarrow> meta_step dsb k s s'"
  by (cases s; cases s') (auto simp: meta_step_def intro: log_room_mono)

lemma meta_step_room: "meta_step dsb n s s' \<Longrightarrow> lsn_room (n + k) s \<Longrightarrow> lsn_room k s'"
  by (auto simp: meta_step_def lsn_room_def)

text \<open>Creating one directory.\<close>

lemma mkdir_step:
  assumes vk: "vol_ok rg dsb ck base R sn (d, v)" and room: "lsn_room 1 (d, v)" and p: "str_path p" "ends_with_slash p"
    and before: "meta_step dsb n s0 (d, v)" "ns (v_index (snd s0)) p = None"
  obtains (ok) d' l' where "on_log (log_append io MkDir (fnv1a_64 p) (path_payload p) ts) (d, v) = (Ok (lg_next_lsn (v_log v)), (d', v\<lparr>v_log := l'\<rparr>))"
      "vol_ok rg dsb ck base R sn (d', v\<lparr>v_log := l', v_index := upsert (v_index v) (make_dir_entry p (lg_next_lsn (v_log v)) ts)\<rparr>)"
      "meta_step dsb (n + 1) s0 (d', v\<lparr>v_log := l', v_index := upsert (v_index v) (make_dir_entry p (lg_next_lsn (v_log v)) ts)\<rparr>)"
      "ns (upsert (v_index v) (make_dir_entry p (lg_next_lsn (v_log v)) ts)) = (ns (v_index v))(p := Some (make_dir_entry p (lg_next_lsn (v_log v)) ts))"
  | (full) "on_log (log_append io MkDir (fnv1a_64 p) (path_payload p) ts) (d, v) = (Err LogFull, (d, v))" "\<not> log_room 1 (v_log v)"
proof -
  have sz: "record_size (length (path_payload p)) \<le> 4096" using str_path_record[OF p(1), of "[]"] by simp
  let ?e = "make_dir_entry p (lg_next_lsn (v_log v)) ts"
  note m = make_dir_entry_ok[OF str_path_ok[OF p(1)], of "lg_next_lsn (v_log v)" ts]
  have ii: "index_inv (v_index v)" by (rule vol_index_inv[OF vk])
  have up: "ns (upsert (v_index v) ?e) = (ns (v_index v))(p := Some ?e)"
    using ns_upsert[OF ii m(1)] m(2,3) by auto
  have so: "store_ok d dsb (ns (upsert (v_index v) ?e)) (alloc_set (v_bitmap v)) R"
    unfolding up using vk p(1) by (intro store_put) (auto simp: vol_ok_def vol_shape_def owned_dir)
  show ?thesis
  proof (rule vol_append[OF vk room sz refl, of MkDir 0 "fnv1a_64 p" 0 0 ts])
    assume "on_log (append_full io MkDir 0 (fnv1a_64 p) 0 0 (path_payload p) ts) (d, v) = (Err LogFull, d, v)" "\<not> log_room 1 (v_log v)"
    then show ?thesis by (intro full) (simp_all add: log_append_def)
  next
    fix d' l'
    assume a: "on_log (append_full io MkDir 0 (fnv1a_64 p) 0 0 (path_payload p) ts) (d, v) = (Ok (lg_next_lsn (v_log v)), d', v\<lparr>v_log := l'\<rparr>)"
      "good d'" and fr: "\<And>b. dsb \<le> b \<Longrightarrow> blk d' b = blk d b" and nx: "lg_next_lsn l' = lg_next_lsn (v_log v) + 1"
      and lr: "\<And>j. log_room (1 + j) (v_log v) \<Longrightarrow> log_room j l'"
      and ck: "\<not> lg_next_lsn (v_log v) \<le> ck"
      and st: "\<And>ix' sn'. (\<And>iy. sim (v_index v) iy \<Longrightarrow>
           \<exists>iy'. replay_record ck (seal_record (record_header (lg_next_lsn (v_log v)) MkDir 0 (fnv1a_64 p) 0 0 (path_payload p) ts) (path_payload p))
             (path_payload p) (iy, sn) = (Ok (), iy', sn') \<and> sim ix' iy') \<Longrightarrow>
         store_ok d dsb (ns ix') (alloc_set (v_bitmap v)) R \<Longrightarrow> vol_ok rg dsb ck base R sn' (d', v\<lparr>v_log := l', v_index := ix'\<rparr>)"
    have vo: "vol_ok rg dsb ck base R sn (d', v\<lparr>v_log := l', v_index := upsert (v_index v) ?e\<rparr>)"
      using replay_mkdir_record[OF p(1) ck] sim_upsert[OF _ m(1) m(1) m(3) m(3) refl] by (intro st so) auto
    show ?thesis
    proof (rule ok[OF _ vo _ up])
      show "on_log (log_append io MkDir (fnv1a_64 p) (path_payload p) ts) (d, v) = (Ok (lg_next_lsn (v_log v)), d', v\<lparr>v_log := l'\<rparr>)"
        using a(1) by (simp add: log_append_def)
      show "meta_step dsb (n + 1) s0 (d', v\<lparr>v_log := l', v_index := upsert (v_index v) ?e\<rparr>)"
        using fr nx lr before p(2) up adds_dirs_put[of "ns (v_index (snd s0))" "ns (v_index v)" p ?e] by (cases s0) (auto simp: meta_step_def unat_word_ariths)
    qed
  qed
qed

lemma dir_loop_ok:
  assumes "vol_ok rg dsb ck base R sn (d, v)" "lsn_room (length parts) (d, v)"
    "\<And>k. 0 < k \<Longrightarrow> k \<le> length parts \<Longrightarrow> str_path (current @ dir_names (take k parts))"
  shows "\<exists>r s'. dir_loop io ts current parts (d, v) = (r, s') \<and> (r = Ok () \<or> r = Err LogFull \<and> \<not> log_room (length parts) (v_log v)) \<and> vol_ok rg dsb ck base R sn s' \<and>
    meta_step dsb (length parts) (d, v) s'"
  using assms
proof (induction parts arbitrary: current d v)
  case Nil
  then show ?case by (auto simp: meta_step_refl)
next
  case (Cons part parts)
  let ?c = "current @ part @ [SLASH]"
  have ps: "str_path ?c" using Cons.prems(3)[of 1] by simp
  have rest: "str_path (?c @ dir_names (take k parts))" if "0 < k" "k \<le> length parts" for k
    using Cons.prems(3)[of "Suc k"] that by simp
  have ew: "ends_with_slash ?c" by (simp add: ends_with_slash_def)
  have lk: "lookup (v_index v) ?c = ns (v_index v) ?c" using lookup_ns[OF vol_index_inv[OF Cons.prems(1)]] by simp
  show ?case
  proof (cases "ns (v_index v) ?c = None")
    case True
    have r1: "lsn_room 1 (d, v)" using Cons.prems(2) by (simp add: lsn_room_def)
    have nw: "ns (v_index (snd (d, v))) ?c = None" using True by simp
    show ?thesis
    proof (rule mkdir_step[OF Cons.prems(1) r1 ps ew meta_step_refl[of dsb 0] nw, of ts])
      assume f: "on_log (log_append io MkDir (fnv1a_64 ?c) (path_payload ?c) ts) (d, v) = (Err LogFull, d, v)"
        and nr: "\<not> log_room 1 (v_log v)"
      from f have "dir_loop io ts current (part # parts) (d, v) = (Err LogFull, (d, v))" using lk True by (simp add: Let_def)
      moreover have "\<not> log_room (length (part # parts)) (v_log v)" using nr by (auto simp: log_room_def)
      ultimately show ?thesis using Cons.prems(1) meta_step_refl by blast
    next
      fix d' l'
      let ?v = "v\<lparr>v_log := l', v_index := upsert (v_index v) (make_dir_entry ?c (lg_next_lsn (v_log v)) ts)\<rparr>"
      assume a: "on_log (log_append io MkDir (fnv1a_64 ?c) (path_payload ?c) ts) (d, v) = (Ok (lg_next_lsn (v_log v)), d', v\<lparr>v_log := l'\<rparr>)"
        and vo: "vol_ok rg dsb ck base R sn (d', ?v)" and "meta_step dsb (0 + 1) (d, v) (d', ?v)"
      then have ms: "meta_step dsb 1 (d, v) (d', ?v)" by simp
      have "lsn_room (length parts) (d', ?v)" using meta_step_room[OF ms] Cons.prems(2) by simp
      from Cons.IH[OF vo this rest] obtain r s' where
        r: "dir_loop io ts ?c parts (d', ?v) = (r, s')" "r = Ok () \<or> r = Err LogFull \<and> \<not> log_room (length parts) l'" "vol_ok rg dsb ck base R sn s'"
          "meta_step dsb (length parts) (d', ?v) s'" by auto
      have lr: "log_room (length (part # parts)) (v_log v) \<Longrightarrow> log_room (length parts) l'" using ms by (simp add: meta_step_def)
      have "dir_loop io ts current (part # parts) (d, v) = (r, s')" using lk True a r(1) by (simp add: Let_def)
      then show ?thesis using r(2,3) lr meta_step_trans[OF ms r(4)] by auto
    qed
  next
    case False
    have "lsn_room (length parts) (d, v)" using Cons.prems(2) by (simp add: lsn_room_def)
    from Cons.IH[OF Cons.prems(1) this rest] obtain r s' where
      r: "dir_loop io ts ?c parts (d, v) = (r, s')" "r = Ok () \<or> r = Err LogFull \<and> \<not> log_room (length parts) (v_log v)" "vol_ok rg dsb ck base R sn s'"
        "meta_step dsb (length parts) (d, v) s'" by blast
    have lr: "log_room (length (part # parts)) (v_log v) \<Longrightarrow> log_room (length parts) (v_log v)" by (erule log_room_le) simp
    have "dir_loop io ts current (part # parts) (d, v) = (r, s')" using lk False r(1) by (auto simp: Let_def)
    then show ?thesis using r(2,3) lr meta_step_trans[OF meta_step_refl[of dsb 1] r(4)] by auto
  qed
qed

lemma ensure_parent_dirs_ok:
  assumes "vol_ok rg dsb ck base R sn (d, v)" "lsn_room (length p) (d, v)" "str_path p"
  shows "\<exists>r s'. ensure_parent_dirs io p ts (d, v) = (r, s') \<and> (r = Ok () \<or> r = Err LogFull \<and> \<not> log_room (length p) (v_log v)) \<and> vol_ok rg dsb ck base R sn s' \<and>
    meta_step dsb (length p) (d, v) s'"
proof -
  define parts where "parts = filter (\<lambda>c. c \<noteq> []) (split_slash p)"
  have len: "length (butlast parts) \<le> length p"
  proof -
    have "length (split_slash p) \<le> length p + 1"
      using split_slash_length[of p] sum_list_mono[of "split_slash p" "\<lambda>c. 1" "\<lambda>c. length c + 1"]
      by (simp add: sum_list_triv)
    then have "length parts \<le> length p + 1" unfolding parts_def using length_filter_le[of "\<lambda>c. c \<noteq> []" "split_slash p"] by linarith
    then show ?thesis by simp
  qed
  show ?thesis
  proof (cases "length parts \<le> 1")
    case True
    then have "ensure_parent_dirs io p ts (d, v) = (Ok (), (d, v))" by (simp add: ensure_parent_dirs_def parts_def[symmetric])
    then show ?thesis using assms(1) meta_step_refl by blast
  next
    case False
    have room: "lsn_room (length (butlast parts)) (d, v)" using assms(2) len by (simp add: lsn_room_def)
    have sp: "str_path ([SLASH] @ dir_names (take k (butlast parts)))" if "0 < k" "k \<le> length (butlast parts)" for k
      using parent_dirs_str_path[OF assms(3) parts_def that(2)] by simp
    from dir_loop_ok[OF assms(1) room sp] obtain r s' where
      r: "dir_loop io ts [SLASH] (butlast parts) (d, v) = (r, s')" "r = Ok () \<or> r = Err LogFull \<and> \<not> log_room (length (butlast parts)) (v_log v)"
        "vol_ok rg dsb ck base R sn s'" "meta_step dsb (length (butlast parts)) (d, v) s'" by blast
    have "meta_step dsb (length p) (d, v) s'" by (rule meta_step_le[OF r(4) len])
    moreover have "ensure_parent_dirs io p ts (d, v) = (r, s')" using False r(1) by (simp add: ensure_parent_dirs_def parts_def[symmetric])
    ultimately show ?thesis using r(2,3) log_room_le[OF _ len] by blast
  qed
qed

end

end
