(* ===== verification/Helix_Files.thy ===== *)
theory Helix_Files
  imports Helix_Volume
begin

text \<open>
  What \<open>write_file\<close>, \<open>unlink\<close>, \<open>mkdir\<close> and \<open>rename\<close> of \<^verbatim>\<open>helix/src/ops/\<close> do to a volume: each is
  total, keeps the volume invariant on every return, and changes exactly the entry it names.
  \<open>file_res\<close>, \<open>unlinked\<close> and \<open>moved\<close> say what a call did to the name space, the data region and the
  bitmap, and for which reasons it can fail.
\<close>

subsection \<open>Writing the data blocks\<close>

context partition
begin

lemma scale_ok: "good d \<Longrightarrow> sector_scale dbs = Ok (4096 div ucast dbs)"
  using dbs_nonzero by (simp add: sector_scale_def)

lemma padded_block:
  assumes "off = i * 4096" "off \<le> length data" "chunk = min (length data - off) 4096"
  shows "splice (replicate 4096 0) 0 (slice_of data off chunk) = file_block data i"
proof -
  have "slice_of data off chunk = take 4096 (drop (i * 4096) data)"
    using assms by (auto simp: slice_of_def min_def)
  then show ?thesis by (simp add: file_block_def Let_def splice_def)
qed

lemma write_data_blocks_ok:
  assumes "good d" "\<And>b. b \<in> set bs \<Longrightarrow> dsb + b < nb" "distinct bs" "i + length bs \<le> div_ceil (length data) 4096"
    "bs \<noteq> [] \<longrightarrow> off = i * 4096"
  shows "\<exists>d'. write_data_blocks io plba (of_nat dsb) (4096 div ucast dbs) (map of_nat bs) off data d = (True, d') \<and> good d' \<and>
    (\<forall>j<length bs. blk d' (dsb + bs ! j) = file_block data (i + j)) \<and> (\<forall>b. b \<notin> (+) dsb ` set bs \<longrightarrow> blk d' b = blk d b)"
  using assms
proof (induction bs arbitrary: i off d)
  case (Cons b bs)
  define chunk where "chunk = min (length data - off) 4096"
  have off: "off = i * 4096" using Cons.prems(5) by simp
  have lt: "off < length data" using div_ceil_less[of 4096 i "length data"] Cons.prems(4) by (simp add: off)
  have bf: "splice (replicate 4096 0) 0 (slice_of data off chunk) = file_block data i"
    by (rule padded_block[OF off _ chunk_def]) (use lt in simp)
  have "dsb + b < nb" using Cons.prems(2) by simp
  from write_blk[OF Cons.prems(1) this, of "file_block data i"] obtain d1 where
    d1: "io_write io (plba + of_nat (dsb + b) * (4096 div ucast dbs)) (file_block data i) d = (Ok (), d1)" "good d1"
      "blk d1 = (blk d)(dsb + b := file_block data i)" by auto
  have nx: "bs \<noteq> [] \<longrightarrow> off + chunk = Suc i * 4096"
  proof
    assume "bs \<noteq> []"
    then have "Suc i < div_ceil (length data) 4096" using Cons.prems(4) by (cases bs) auto
    from div_ceil_less[OF _ this] show "off + chunk = Suc i * 4096" by (simp add: chunk_def off)
  qed
  have "Suc i + length bs \<le> div_ceil (length data) 4096" using Cons.prems(4) by simp
  from Cons.IH[OF d1(2) _ _ this nx] Cons.prems(2,3) obtain d' where
    d': "write_data_blocks io plba (of_nat dsb) (4096 div ucast dbs) (map of_nat bs) (off + chunk) data d1 = (True, d')" "good d'"
      "\<forall>j<length bs. blk d' (dsb + bs ! j) = file_block data (Suc i + j)" "\<forall>b. b \<notin> (+) dsb ` set bs \<longrightarrow> blk d' b = blk d1 b" by auto
  have w: "write_data_blocks io plba (of_nat dsb) (4096 div ucast dbs) (map of_nat (b # bs)) off data d = (True, d')"
    using d1(1) d'(1) by (simp add: Let_def chunk_def[symmetric] bf io_write_def split: prod.splits if_splits)
  moreover have "blk d' (dsb + (b # bs) ! j) = file_block data (i + j)" if "j < length (b # bs)" for j
  proof (cases j)
    case 0
    have "dsb + b \<notin> (+) dsb ` set bs" using Cons.prems(3) by auto
    then show ?thesis using d'(4) d1(3) 0 by simp
  qed (use d'(3) that in auto)
  moreover have "blk d' x = blk d x" if "x \<notin> (+) dsb ` set (b # bs)" for x
    using d'(4) d1(3) that by auto
  ultimately show ?case using d'(2) by blast
qed simp

subsection \<open>Allocating the runs of a fragmented file\<close>

fun logical_ok :: "nat \<Rightarrow> extent list \<Rightarrow> bool" where
  "logical_ok k [] = True"
| "logical_ok k ((l, p, c) # xs) = (unat l = k \<and> logical_ok (k + unat c) xs)"

lemma run_blocks_append: "run_blocks (xs @ ys) = run_blocks xs @ run_blocks ys"
  by (simp add: run_blocks_def)

lemma run_blocks_single: "run_blocks [(l, p, c)] = [unat p..<unat p + unat c]"
  by (simp add: run_blocks_def)

lemma logical_ok_snoc:
  "logical_ok k (xs @ [(l, p, c)]) \<longleftrightarrow> logical_ok k xs \<and> unat l = k + length (run_blocks xs)"
  by (induction k xs rule: logical_ok.induct) (auto simp: run_blocks_def)

definition runs_ok :: "block_bitmap \<Rightarrow> nat \<Rightarrow> extent list \<Rightarrow> block_bitmap \<Rightarrow> bool" where
  "runs_ok bm0 k xs bm \<longleftrightarrow> bitmap_inv bm \<and> bm_total bm = bm_total bm0 \<and> alloc_set bm = alloc_set bm0 \<union> set (run_blocks xs) \<and>
     distinct (run_blocks xs) \<and> set (run_blocks xs) \<inter> alloc_set bm0 = {} \<and> length (run_blocks xs) = k \<and> logical_ok 0 xs \<and>
     (\<forall>(l, p, c)\<in>set xs. 0 < unat c \<and> unat p + unat c \<le> bm_total bm0)"

lemma runs_ok_grow:
  assumes ok: "runs_ok bm0 k (xs @ [(l, p, c)]) bm" and b: "unat p + unat c \<notin> alloc_set bm" "unat p + unat c < bm_total bm0"
    and tot: "bm_total bm0 < U32"
    and bm': "bitmap_inv bm'" "bm_total bm' = bm_total bm" "alloc_set bm' = insert (unat p + unat c) (alloc_set bm)"
  shows "runs_ok bm0 (Suc k) (xs @ [(l, p, c + 1)]) bm'"
proof -
  have c: "unat (c + 1) = unat c + 1" using b(2) tot by (simp add: unat_word_ariths)
  have r: "run_blocks (xs @ [(l, p, c + 1)]) = run_blocks (xs @ [(l, p, c)]) @ [unat p + unat c]"
    by (simp add: run_blocks_append run_blocks_single c)
  show ?thesis unfolding runs_ok_def r
    using ok b bm' c by (auto simp: runs_ok_def logical_ok_snoc)
qed

lemma runs_ok_new:
  assumes ok: "runs_ok bm0 k xs bm" and b: "b \<notin> alloc_set bm" "b < bm_total bm0" and tot: "bm_total bm0 < U32" and k: "k < U64"
    and bm': "bitmap_inv bm'" "bm_total bm' = bm_total bm" "alloc_set bm' = insert b (alloc_set bm)"
  shows "runs_ok bm0 (Suc k) (xs @ [(of_nat k, of_nat b, 1)]) bm'"
proof -
  have u: "unat (of_nat b :: u64) = b" "unat (of_nat k :: u64) = k"
    using b(2) tot k by (simp_all add: unat_of_nat take_bit_eq_mod)
  have r: "run_blocks (xs @ [(of_nat k, of_nat b, 1)]) = run_blocks xs @ [b]"
    by (simp add: run_blocks_append run_blocks_single u)
  show ?thesis unfolding runs_ok_def r
    using ok b bm' by (auto simp: runs_ok_def logical_ok_snoc u)
qed

lemma runs_ok_count: "runs_ok bm0 k xs bm \<Longrightarrow> k + card (alloc_set bm0) = card (alloc_set bm)"
  by (auto simp: runs_ok_def card_Un_disjoint distinct_card inf_commute)

lemma bitmap_free_card: "bitmap_inv bm \<Longrightarrow> bm_free bm + card (alloc_set bm) = bm_total bm"
proof -
  assume "bitmap_inv bm"
  moreover have "card (alloc_set bm) \<le> card {..<bm_total bm}" by (rule card_mono) (auto simp: alloc_set_def)
  ultimately show ?thesis by (simp add: bitmap_inv_def)
qed

lemma alloc_extents_ok:
  assumes "runs_ok bm0 k xs bm" "bm_total bm0 < U32"
  shows "(n \<le> bm_free bm \<longrightarrow> (\<exists>xs' bm'. alloc_extents n (of_nat k) xs bm = (Ok xs', bm') \<and> runs_ok bm0 (k + n) xs' bm' \<and> length xs' \<le> length xs + n)) \<and>
    (bm_free bm < n \<longrightarrow> (\<exists>bm'. alloc_extents n (of_nat k) xs bm = (Err NoSpace, bm') \<and> bitmap_inv bm' \<and> bm_total bm' = bm_total bm0 \<and>
       alloc_set bm \<subseteq> alloc_set bm' \<and> bm_free bm' = 0))"
  using assms
proof (induction n arbitrary: k xs bm)
  case (Suc n)
  have inv: "bitmap_inv bm" and tot: "bm_total bm = bm_total bm0" using Suc.prems(1) by (auto simp: runs_ok_def)
  show ?case
  proof (cases "bm_free bm = 0")
    case True
    then show ?thesis using alloc_block_full[OF True] inv tot by simp
  next
    case False
    then have f: "0 < bm_free bm" by simp
    from alloc_block_Ok[OF inv f] obtain b bm1 where
      b: "alloc_block bm = (Ok b, bm1)" "b < bm_total bm" "b \<notin> alloc_set bm"
        "alloc_set bm1 = insert b (alloc_set bm)" "bitmap_inv bm1" "bm_total bm1 = bm_total bm" "bm_free bm1 = bm_free bm - 1" .
    have kU: "k < U64"
    proof -
      have "card (alloc_set bm) \<le> card {..<bm_total bm}" by (rule card_mono) (auto simp: alloc_set_def)
      then show ?thesis using runs_ok_count[OF Suc.prems(1)] Suc.prems(2) tot by simp
    qed
    have step: "\<exists>xs1. runs_ok bm0 (Suc k) xs1 bm1 \<and> length xs1 \<le> Suc (length xs) \<and>
        alloc_extents (Suc n) (of_nat k) xs bm = alloc_extents n (of_nat (Suc k)) xs1 bm1"
    proof (cases "xs \<noteq> [] \<and> (case last xs of (l, p, c) \<Rightarrow> p + ucast c = of_nat b)")
      case True
      then obtain ys l p c where xs: "xs = ys @ [(l, p, c)]" and pc: "p + ucast c = (of_nat b :: u64)"
        by (cases xs rule: rev_cases) auto
      have le: "unat p + unat c \<le> bm_total bm0" using Suc.prems(1) by (simp add: runs_ok_def xs)
      have "unat (ucast c :: u64) = unat c"
        using le Suc.prems(2) by (simp add: unsigned_ucast_eq take_bit_eq_mod)
      then have "unat (p + ucast c) = unat p + unat c" using le Suc.prems(2) by (simp add: unat_word_ariths)
      moreover have "unat (of_nat b :: u64) = b" using b(2) tot Suc.prems(2) by (simp add: unat_of_nat take_bit_eq_mod)
      ultimately have e: "unat p + unat c = b" unfolding pc by simp
      have "runs_ok bm0 (Suc k) (ys @ [(l, p, c + 1)]) bm1"
        using b tot by (intro runs_ok_grow[OF Suc.prems(1)[unfolded xs] _ _ Suc.prems(2)]) (simp_all add: e)
      moreover have "alloc_extents (Suc n) (of_nat k) xs bm = alloc_extents n (of_nat (Suc k)) (ys @ [(l, p, c + 1)]) bm1"
        using b(1) pc by (simp add: xs add.commute)
      ultimately show ?thesis using xs by (intro exI[of _ "ys @ [(l, p, c + 1)]"]) auto
    next
      case False
      have "runs_ok bm0 (Suc k) (xs @ [(of_nat k, of_nat b, 1)]) bm1"
        using b tot by (intro runs_ok_new[OF Suc.prems(1) _ _ Suc.prems(2) kU]) simp_all
      moreover have "alloc_extents (Suc n) (of_nat k) xs bm = alloc_extents n (of_nat (Suc k)) (xs @ [(of_nat k, of_nat b, 1)]) bm1"
        using b(1) False by (simp only: alloc_extents.simps and_then_simps if_False) (simp add: add.commute)
      ultimately show ?thesis by (intro exI[of _ "xs @ [(of_nat k, of_nat b, 1)]"]) auto
    qed
    then obtain xs1 where xs1: "runs_ok bm0 (Suc k) xs1 bm1" "length xs1 \<le> Suc (length xs)"
        "alloc_extents (Suc n) (of_nat k) xs bm = alloc_extents n (of_nat (Suc k)) xs1 bm1" by blast
    note ih = Suc.IH[OF xs1(1) Suc.prems(2)]
    show ?thesis
    proof (intro conjI impI)
      assume "Suc n \<le> bm_free bm"
      then have "n \<le> bm_free bm1" using b(7) by simp
      then show "\<exists>xs' bm'. alloc_extents (Suc n) (of_nat k) xs bm = (Ok xs', bm') \<and> runs_ok bm0 (k + Suc n) xs' bm' \<and>
          length xs' \<le> length xs + Suc n" using conjunct1[OF ih] xs1(2) unfolding xs1(3) by force
    next
      assume "bm_free bm < Suc n"
      then have "bm_free bm1 < n" using b(7) f by simp
      then show "\<exists>bm'. alloc_extents (Suc n) (of_nat k) xs bm = (Err NoSpace, bm') \<and> bitmap_inv bm' \<and> bm_total bm' = bm_total bm0 \<and>
          alloc_set bm \<subseteq> alloc_set bm' \<and> bm_free bm' = 0" using conjunct2[OF ih] b(4) unfolding xs1(3) by blast
    qed
  qed
qed auto

end

context partition
begin

lemma extent_blocks_eq: "extent_blocks xs = map of_nat (run_blocks xs)"
proof -
  have "map (\<lambda>j. p + of_nat j) [0..<unat c] = map of_nat [unat p..<unat p + unat c]" for p :: u64 and c :: u32
    by (rule nth_equalityI) auto
  then show ?thesis by (simp add: extent_blocks_def run_blocks_def map_concat comp_def case_prod_unfold)
qed

lemma logical_ok_split: "logical_ok k (ys @ (l, p, c) # zs) \<Longrightarrow> unat l = k + length (run_blocks ys)"
  by (induction k ys rule: logical_ok.induct) (auto simp: run_blocks_def)

lemma logical_ok_cover:
  "logical_ok k0 xs \<Longrightarrow> k0 \<le> k \<Longrightarrow> k < k0 + length (run_blocks xs) \<Longrightarrow> \<exists>(l, p, c)\<in>set xs. unat l \<le> k \<and> k < unat l + unat c"
proof (induction k0 xs rule: logical_ok.induct)
  case (2 k0 l p c xs)
  then show ?case by (cases "k < k0 + unat c") (auto simp: run_blocks_def)
qed (simp add: run_blocks_def)

lemma runs_ok_node:
  assumes "runs_ok bm0 k xs bm" "k = div_ceil (length data) 4096" "dsb + bm_total bm0 \<le> nb"
    "\<forall>j<length (run_blocks xs). blk d (dsb + run_blocks xs ! j) = file_block data j"
  shows "runs_hold d dsb data xs" "\<forall>i<div_ceil (length data) 4096. \<exists>(l, p, c)\<in>set xs. unat l \<le> i \<and> i < unat l + unat c"
proof -
  have lo: "logical_ok 0 xs" and len: "length (run_blocks xs) = div_ceil (length data) 4096" using assms(1,2) by (auto simp: runs_ok_def)
  show "\<forall>i<div_ceil (length data) 4096. \<exists>(l, p, c)\<in>set xs. unat l \<le> i \<and> i < unat l + unat c"
    using logical_ok_cover[OF lo] len by simp
  show "runs_hold d dsb data xs"
    unfolding runs_hold_def
  proof (intro ballI, clarify, intro conjI allI impI)
    fix l p c assume m: "(l, p, c) \<in> set xs"
    then obtain ys zs where xs: "xs = ys @ (l, p, c) # zs" by (meson split_list)
    have l: "unat l = length (run_blocks ys)" using logical_ok_split[OF lo[unfolded xs]] by simp
    have r: "run_blocks xs = run_blocks ys @ [unat p..<unat p + unat c] @ run_blocks zs" by (simp add: xs run_blocks_def)
    show "unat l + unat c \<le> div_ceil (length data) 4096" unfolding len[symmetric] r by (simp add: l)
    fix i assume i: "i < unat c"
    have "unat p + unat c \<le> bm_total bm0" using assms(1) m by (auto simp: runs_ok_def)
    then show "dsb + unat p + i < nb" using i assms(3) by simp
    have "run_blocks xs ! (unat l + i) = unat p + i" unfolding r using i by (simp add: l nth_append)
    moreover have "unat l + i < length (run_blocks xs)" unfolding r using i by (simp add: l)
    ultimately show "blk d (dsb + unat p + i) = file_block data (unat l + i)" using assms(4) by (metis add.assoc)
  qed
qed

subsection \<open>Committing a write\<close>

lemma file_ok_fields:
  assumes "e_flags e' = e_flags e" "e_size e' = e_size e" "e_extent_root e' = e_extent_root e" "e_inline_data e' = e_inline_data e"
  shows "file_ok d dsb e' data = file_ok d dsb e data" "owned d dsb e' = owned d dsb e"
  using assms by (simp_all add: file_ok_def owned_def)

lemma commit_write:
  assumes vk: "vol_ok rg dsb ck base R sn (d, v)" and room: "lsn_room 1 (d, v)" and sz: "record_size (length payload) \<le> 4096"
    and p: "str_path p" and st: "store_ok d dsb (ns (v_index v)) A R" "A \<subseteq> alloc_set (v_bitmap v)"
    and e: "\<And>lsn. entry_ok (e lsn)" "\<And>lsn. live (e lsn)" "\<And>lsn. epath (e lsn) = p"
    and f: "\<And>lsn. file_ok d dsb (e lsn) data" "\<And>lsn. owned d dsb (e lsn) \<subseteq> alloc_set (v_bitmap v) - A"
    and rp: "\<And>iy lsn. \<not> lsn \<le> ck \<Longrightarrow> \<exists>e2. replay_record ck (seal_record (record_header lsn Write fl ph 0 0 payload ts) payload) payload (iy, sn) =
        (Ok (), (upsert iy (inherit_birth iy p e2), sn)) \<and> strip e2 = strip (e lsn) \<and> entry_ok e2 \<and> live e2"
  obtains (ok) d' l' where "on_log (append_full io Write fl ph 0 0 payload ts) (d, v) = (Ok (lg_next_lsn (v_log v)), (d', v\<lparr>v_log := l'\<rparr>))"
      "vol_ok rg dsb ck base R sn (d', commit_entry p (e (lg_next_lsn (v_log v))) (v\<lparr>v_log := l'\<rparr>))"
      "\<And>b. dsb \<le> b \<Longrightarrow> blk d' b = blk d b" "lg_next_lsn l' = lg_next_lsn (v_log v) + 1"
      "ns (v_index (commit_entry p (e (lg_next_lsn (v_log v))) (v\<lparr>v_log := l'\<rparr>))) =
         (ns (v_index v))(p := Some (inherit_birth (v_index v) p (e (lg_next_lsn (v_log v)))))"
      "file_ok d' dsb (inherit_birth (v_index v) p (e (lg_next_lsn (v_log v)))) data"
      "owned d' dsb (inherit_birth (v_index v) p (e (lg_next_lsn (v_log v)))) = owned d dsb (e (lg_next_lsn (v_log v)))"
      "\<And>j. log_room (1 + j) (v_log v) \<Longrightarrow> log_room j l'"
  | (full) "on_log (append_full io Write fl ph 0 0 payload ts) (d, v) = (Err LogFull, (d, v))" "\<not> log_room 1 (v_log v)"
proof -
  define lsn where "lsn = lg_next_lsn (v_log v)"
  define e1 where "e1 = inherit_birth (v_index v) p (e lsn)"
  have ii: "index_inv (v_index v)" by (rule vol_index_inv[OF vk])
  have eo: "entry_ok e1" "live e1" "epath e1 = p" using e by (auto simp: e1_def)
  have up: "ns (upsert (v_index v) e1) = (ns (v_index v))(p := Some e1)" using ns_upsert[OF ii eo(1)] eo(2,3) by auto
  have f1: "file_ok d dsb e1 data" "owned d dsb e1 = owned d dsb (e lsn)"
    using file_ok_fields[of e1 "e lsn"] f by (auto simp: e1_def)
  have so: "store_ok d dsb (ns (upsert (v_index v) e1)) (alloc_set (v_bitmap v)) R"
    unfolding up using f(2)[of lsn] f1 by (intro store_put[OF st(1) p _ st(2)]) auto
  show ?thesis
  proof (rule vol_append[OF vk room sz refl, of Write fl ph 0 0 ts])
    assume "on_log (append_full io Write fl ph 0 0 payload ts) (d, v) = (Err LogFull, d, v)" "\<not> log_room 1 (v_log v)"
    then show ?thesis by (rule full)
  next
    fix d' l'
    assume a: "on_log (append_full io Write fl ph 0 0 payload ts) (d, v) = (Ok (lg_next_lsn (v_log v)), d', v\<lparr>v_log := l'\<rparr>)"
      "good d'" and fr: "\<And>b. dsb \<le> b \<Longrightarrow> blk d' b = blk d b" and n: "lg_next_lsn l' = lg_next_lsn (v_log v) + 1"
      and lr: "\<And>j. log_room (1 + j) (v_log v) \<Longrightarrow> log_room j l'"
      and ck: "\<not> lg_next_lsn (v_log v) \<le> ck"
      and stp: "\<And>ix' sn'. (\<And>iy. sim (v_index v) iy \<Longrightarrow>
           \<exists>iy'. replay_record ck (seal_record (record_header (lg_next_lsn (v_log v)) Write fl ph 0 0 payload ts) payload)
             payload (iy, sn) = (Ok (), iy', sn') \<and> sim ix' iy') \<Longrightarrow>
         store_ok d dsb (ns ix') (alloc_set (v_bitmap v)) R \<Longrightarrow> vol_ok rg dsb ck base R sn' (d', v\<lparr>v_log := l', v_index := ix'\<rparr>)"
    have vo: "vol_ok rg dsb ck base R sn (d', v\<lparr>v_log := l', v_index := upsert (v_index v) e1\<rparr>)"
    proof (rule stp[OF _ so])
      fix iy assume s: "sim (v_index v) iy"
      obtain e2 where e2: "replay_record ck (seal_record (record_header lsn Write fl ph 0 0 payload ts) payload) payload (iy, sn) =
          (Ok (), (upsert iy (inherit_birth iy p e2), sn))" "strip e2 = strip (e lsn)" "entry_ok e2" "live e2"
        using rp[OF ck] unfolding lsn_def by blast
      have "sim (upsert (v_index v) e1) (upsert iy (inherit_birth iy p e2))"
        using strip_inherit_birth[OF s e2(2)[symmetric], of p] eo e2(3,4) s by (intro sim_upsert) (auto simp: e1_def)
      then show "\<exists>iy'. replay_record ck (seal_record (record_header (lg_next_lsn (v_log v)) Write fl ph 0 0 payload ts) payload)
          payload (iy, sn) = (Ok (), iy', sn) \<and> sim (upsert (v_index v) e1) iy'" using e2(1) unfolding lsn_def by blast
    qed
    have ce: "commit_entry p (e lsn) (v\<lparr>v_log := l'\<rparr>) = v\<lparr>v_log := l', v_index := upsert (v_index v) e1\<rparr>"
      by (simp add: commit_entry_def e1_def)
    have f': "file_ok d' dsb e1 data" "owned d' dsb e1 = owned d dsb e1" using file_ok_cong[OF f1(1), of d'] fr by simp_all
    show ?thesis
    proof (rule ok[OF a(1) _ fr n])
      show "vol_ok rg dsb ck base R sn (d', commit_entry p (e (lg_next_lsn (v_log v))) (v\<lparr>v_log := l'\<rparr>))"
        using vo ce unfolding lsn_def by simp
      show "ns (v_index (commit_entry p (e (lg_next_lsn (v_log v))) (v\<lparr>v_log := l'\<rparr>))) =
         (ns (v_index v))(p := Some (inherit_birth (v_index v) p (e (lg_next_lsn (v_log v)))))"
        using ce up unfolding lsn_def e1_def by simp
      show "file_ok d' dsb (inherit_birth (v_index v) p (e (lg_next_lsn (v_log v)))) data"
        using f'(1) unfolding lsn_def e1_def .
      show "owned d' dsb (inherit_birth (v_index v) p (e (lg_next_lsn (v_log v)))) = owned d dsb (e (lg_next_lsn (v_log v)))"
        using f'(2) f1(2) unfolding lsn_def e1_def by simp
    qed (assumption | rule lr)+
  qed
qed

end

lemma inline_entry_sel:
  assumes "length data \<le> INLINE_DATA_SIZE" "e = make_file_entry p lsn sz ts (Some data) root crc"
  shows "e_flags e = IS_INLINE" "e_size e = sz" "take (length data) (e_inline_data e) = data"
  using assms by (simp_all add: make_file_entry_def entry_zeroed_def splice_def Let_def)

lemma strip_crc: "strip (make_file_entry p lsn sz ts None root crc) = strip (make_file_entry p lsn sz ts None root crc')"
  by (simp add: make_file_entry_def strip_def Let_def)

lemma strip_flags: "strip e = strip e' \<Longrightarrow> strip (e\<lparr>e_flags := x\<rparr>) = strip (e'\<lparr>e_flags := x\<rparr>)"
  by (cases e; cases e') (simp add: strip_def)

lemma flag_consts [simp]:
  "IS_DIR AND IS_INLINE = 0" "IS_INLINE AND IS_DIR = 0" "IS_EXTENT_NODE AND IS_DIR = 0" "IS_EXTENT_NODE AND IS_INLINE = 0"
  "IS_EXTENT_NODE AND IS_DELETED = 0" "IS_INLINE \<noteq> 0" "IS_EXTENT_NODE \<noteq> 0"
  by (simp_all add: IS_DIR_def IS_INLINE_def IS_EXTENT_NODE_def IS_DELETED_def)

lemma length_build_extent_payload: "length (build_extent_payload p k sz root) = 2 + length p + 17"
  by (simp add: build_extent_payload_def path_payload_def)

lemma block_not_null: "b < U32 \<Longrightarrow> (of_nat b :: u64) \<noteq> BLOCK_NULL"
proof
  assume b: "b < U32" and e: "(of_nat b :: u64) = BLOCK_NULL"
  have "unat (of_nat b :: u64) = b" using b by (simp add: unat_of_nat take_bit_eq_mod)
  then show False using b unfolding e by (simp add: BLOCK_NULL_def)
qed

context partition
begin

definition wrote :: "nat \<Rightarrow> bytes \<Rightarrow> bytes \<Rightarrow> 'd \<times> 'a vol_scheme \<Rightarrow> 'd \<times> 'a vol_scheme \<Rightarrow> bool" where
  "wrote dsb p data = (\<lambda>(d, v) (d', v'). \<exists>e. ns (v_index v') = (ns (v_index v))(p := Some e) \<and> file_ok d' dsb e data \<and>
     owned d' dsb e \<inter> alloc_set (v_bitmap v) = {} \<and> alloc_set (v_bitmap v') = alloc_set (v_bitmap v) \<union> owned d' dsb e)"

definition keeps :: "nat \<Rightarrow> nat \<Rightarrow> 'd \<times> 'a vol_scheme \<Rightarrow> 'd \<times> 'a vol_scheme \<Rightarrow> bool" where
  "keeps dsb n = (\<lambda>(d, v) (d', v'). vol.more v' = vol.more v \<and> (\<forall>b\<in>alloc_set (v_bitmap v). blk d' (dsb + b) = blk d (dsb + b)) \<and>
     alloc_set (v_bitmap v) \<subseteq> alloc_set (v_bitmap v') \<and> unat (lg_next_lsn (v_log v')) \<le> unat (lg_next_lsn (v_log v)) + n \<and>
     (\<forall>j. log_room (n + j) (v_log v) \<longrightarrow> log_room j (v_log v')))"

lemma keeps_refl: "keeps dsb n s s"
  by (auto simp: keeps_def elim: log_room_le)

lemma keeps_rebitmap:
  assumes "alloc_set (v_bitmap v) \<subseteq> alloc_set bm'" "\<And>b. b \<in> alloc_set (v_bitmap v) \<Longrightarrow> blk d' (dsb + b) = blk d (dsb + b)"
  shows "keeps dsb n (d, v) (d', v\<lparr>v_bitmap := bm'\<rparr>)"
  using assms by (auto simp: keeps_def elim: log_room_le)

text \<open>
  A failed write leaves the namespace alone and gives its space back, unless it ran out of
  blocks. It fails only when the log has no room, or when no run of free blocks holds the data.
\<close>

definition write_res :: "nat \<Rightarrow> bytes \<Rightarrow> bytes \<Rightarrow> 'd \<times> 'a vol_scheme \<Rightarrow> u64 hres \<Rightarrow> 'd \<times> 'a vol_scheme \<Rightarrow> bool" where
  "write_res dsb p data s r s' = (case r of Ok lsn \<Rightarrow> wrote dsb p data s s' | Panic \<Rightarrow> False | Diverges \<Rightarrow> False
     | Err e \<Rightarrow> v_index (snd s') = v_index (snd s) \<and>
         (alloc_set (v_bitmap (snd s')) = alloc_set (v_bitmap (snd s)) \<or> e = NoSpace \<and> bm_free (v_bitmap (snd s')) = 0) \<and>
         (e = LogFull \<and> \<not> log_room 1 (v_log (snd s)) \<or>
          e \<in> {NoSpace, ExtentCorrupt} \<and> INLINE_DATA_SIZE < length data \<and>
            (\<forall>b. \<not> free_run (v_bitmap (snd s)) b (div_ceil (length data) 4096))))"

lemma vol_ok_grow:
  assumes "vol_ok rg dsb ck base R sn (d, v)" "bitmap_inv bm'" "bm_total bm' = bm_total (v_bitmap v)"
    "alloc_set (v_bitmap v) \<subseteq> alloc_set bm'" "good d1"
    and eq: "\<And>b. b \<in> alloc_set (v_bitmap v) \<Longrightarrow> blk d1 (dsb + b) = blk d (dsb + b)" "\<And>b. b < dsb \<Longrightarrow> blk d1 b = blk d b"
  shows "vol_ok rg dsb ck base R sn (d1, v\<lparr>v_bitmap := bm'\<rparr>)" "store_ok d1 dsb (ns (v_index v)) (alloc_set (v_bitmap v)) R"
proof -
  have sh: "vol_shape rg dsb R d v" and lo: "vol_log ck base d v sn" using assms(1) by (auto simp: vol_ok_def)
  then have "store_ok d dsb (ns (v_index v)) (alloc_set (v_bitmap v)) R" by (simp add: vol_shape_def)
  from store_frame[OF this eq(1)] show so: "store_ok d1 dsb (ns (v_index v)) (alloc_set (v_bitmap v)) R" .
  have "vol_shape rg dsb R d1 (v\<lparr>v_bitmap := bm'\<rparr>)"
    using sh assms(2,3,5) store_mono[OF so assms(4)] by (simp add: vol_shape_def)
  moreover have "log_state d1 (v_log v) rs" if "log_state d (v_log v) rs" for rs
    using that eq(2) sh by (rule_tac log_state_cong) (auto simp: vol_shape_def in_ring_def)
  then have "vol_log ck base d1 (v\<lparr>v_bitmap := bm'\<rparr>) sn"
    using lo unfolding vol_log_def by (simp add: vol_log_def) blast
  ultimately show "vol_ok rg dsb ck base R sn (d1, v\<lparr>v_bitmap := bm'\<rparr>)" by (simp add: vol_ok_def)
qed

lemma write_inline_ok:
  assumes vk: "vol_ok rg dsb ck base R sn (d, v)" and room: "lsn_room 1 (d, v)" and p: "str_path p" and len: "length data \<le> INLINE_DATA_SIZE"
  shows "\<exists>r s'. write_inline io p data ts (d, v) = (r, s') \<and> vol_ok rg dsb ck base R sn s' \<and> keeps dsb 1 (d, v) s' \<and>
    write_res dsb p data (d, v) r s'"
proof -
  define e where "e lsn = make_file_entry p lsn (of_nat (length data)) ts (Some data) BLOCK_NULL (content_crc data)" for lsn
  note m = make_file_entry_ok[OF str_path_ok[OF p]]
  note es = inline_entry_sel[OF len e_def]
  have st: "store_ok d dsb (ns (v_index v)) (alloc_set (v_bitmap v)) R" using vk by (simp add: vol_ok_def vol_shape_def)
  have f: "file_ok d dsb (e lsn) data" "owned d dsb (e lsn) = {}" for lsn
    using es[of lsn] len by (simp_all add: file_ok_def owned_def)
  have sz: "record_size (length (path_payload p @ data)) \<le> 4096" using str_path_record[OF p, of data] len by simp
  have ent: "entry_ok (e lsn)" "live (e lsn)" "epath (e lsn) = p" for lsn unfolding e_def by (rule m)+
  have rp: "\<exists>e2. replay_record ck (seal_record (record_header lsn Write 0 (fnv1a_64 p) 0 0 (path_payload p @ data) ts) (path_payload p @ data))
        (path_payload p @ data) (iy, sn) = (Ok (), (upsert iy (inherit_birth iy p e2), sn)) \<and> strip e2 = strip (e lsn) \<and> entry_ok e2 \<and> live e2"
    if "\<not> lsn \<le> ck" for lsn iy
    using replay_inline_record[OF p that len refl] ent[of lsn] by (intro exI[of _ "e lsn"]) (simp add: e_def)
  show ?thesis
  proof (rule commit_write[OF vk room sz p st subset_refl ent f(1) _ rp])
    show "owned d dsb (e lsn) \<subseteq> alloc_set (v_bitmap v) - alloc_set (v_bitmap v)" for lsn by (simp add: f(2))
  next
    assume "on_log (append_full io Write 0 (fnv1a_64 p) 0 0 (path_payload p @ data) ts) (d, v) = (Err LogFull, d, v)"
      and nr: "\<not> log_room 1 (v_log v)"
    then have "write_inline io p data ts (d, v) = (Err LogFull, (d, v))" by (simp add: write_inline_def log_append_def)
    then show ?thesis using vk nr by (auto simp: keeps_refl write_res_def)
  next
    fix d' l'
    let ?lsn = "lg_next_lsn (v_log v)"
    let ?v = "commit_entry p (e ?lsn) (v\<lparr>v_log := l'\<rparr>)"
    assume a: "on_log (append_full io Write 0 (fnv1a_64 p) 0 0 (path_payload p @ data) ts) (d, v) = (Ok ?lsn, d', v\<lparr>v_log := l'\<rparr>)"
      and vo: "vol_ok rg dsb ck base R sn (d', ?v)" and fr: "\<And>b. dsb \<le> b \<Longrightarrow> blk d' b = blk d b" and n: "lg_next_lsn l' = ?lsn + 1"
      and nm: "ns (v_index ?v) = (ns (v_index v))(p := Some (inherit_birth (v_index v) p (e ?lsn)))"
      and fo: "file_ok d' dsb (inherit_birth (v_index v) p (e ?lsn)) data"
      and lr: "\<And>j. log_room (1 + j) (v_log v) \<Longrightarrow> log_room j l'"
      and ow: "owned d' dsb (inherit_birth (v_index v) p (e ?lsn)) = owned d dsb (e ?lsn)"
    have "write_inline io p data ts (d, v) = (Ok ?lsn, (d', ?v))" using a by (simp add: write_inline_def log_append_def e_def)
    moreover have "keeps dsb 1 (d, v) (d', ?v)" using fr n lr by (simp add: keeps_def commit_entry_def unat_word_ariths)
    moreover have "v_bitmap ?v = v_bitmap v" by (simp add: commit_entry_def)
    then have "wrote dsb p data (d, v) (d', ?v)" using nm fo ow f(2) unfolding wrote_def by auto
    ultimately show ?thesis using vo by (auto simp: write_res_def)
  qed
qed

end

text \<open>The commit of a file whose blocks \<open>B\<close> are allocated and written.\<close>

definition extent_entry :: "bytes \<Rightarrow> bytes \<Rightarrow> u64 \<Rightarrow> u8 \<Rightarrow> nat \<Rightarrow> u64 \<Rightarrow> index_entry" where
  "extent_entry p data ts kind root lsn =
     (let e = make_file_entry p lsn (of_nat (length data)) ts None (of_nat root) (content_crc data)
      in if kind = EXTENT_NODE then e\<lparr>e_flags := e_flags e OR IS_EXTENT_NODE\<rparr> else e)"

lemma extent_entry_sel:
  "e_flags (extent_entry p data ts kind root lsn) = (if kind = EXTENT_NODE then IS_EXTENT_NODE else 0)"
  "e_size (extent_entry p data ts kind root lsn) = of_nat (length data)"
  "e_extent_root (extent_entry p data ts kind root lsn) = of_nat root"
  by (simp_all add: extent_entry_def make_file_entry_def entry_zeroed_def Let_def)

lemma extent_entry_ok:
  assumes "str_path p"
  shows "entry_ok (extent_entry p data ts kind root lsn)" "epath (extent_entry p data ts kind root lsn) = p"
    "live (extent_entry p data ts kind root lsn)"
  using make_file_entry_ok[OF str_path_ok[OF assms]] extent_entry_sel(1)[of p data ts kind root lsn]
  by (auto simp: extent_entry_def Let_def entry_ok_def entry_wf_def)

lemma replay_extent_entry:
  assumes "str_path p" "\<not> lsn \<le> ck" "pl = build_extent_payload p kind (of_nat (length data)) (of_nat root)"
  shows "\<exists>e2. replay_record ck (seal_record (record_header lsn Write REC_IS_EXTENT ph sh tx pl ts) pl) pl (iy, sn) =
    (Ok (), (upsert iy (inherit_birth iy p e2), sn)) \<and> strip e2 = strip (extent_entry p data ts kind root lsn) \<and> entry_ok e2 \<and> live e2"
proof -
  define e where "e = make_file_entry p lsn (of_nat (length data)) ts None (of_nat root :: u64) 0"
  let ?e2 = "if kind = EXTENT_NODE then e\<lparr>e_flags := e_flags e OR IS_EXTENT_NODE\<rparr> else e"
  have s: "strip e = strip (make_file_entry p lsn (of_nat (length data)) ts None (of_nat root) (content_crc data))"
    unfolding e_def by (rule strip_crc)
  have fl: "e_flags e = 0" by (simp add: e_def make_file_entry_def entry_zeroed_def Let_def)
  have st: "strip ?e2 = strip (extent_entry p data ts kind root lsn)"
    using s strip_flags[OF s] strip_eqD(3)[OF s] by (simp add: extent_entry_def Let_def)
  have "entry_ok e" "live e" unfolding e_def by (rule make_file_entry_ok[OF str_path_ok[OF assms(1)]])+
  then have "entry_ok ?e2" "live ?e2" using fl by (auto simp: entry_ok_def entry_wf_def)
  then show ?thesis using replay_extent_record[OF assms e_def] st by blast
qed

context partition
begin

lemma commit_extent:
  assumes vk: "vol_ok rg dsb ck base R sn (d1, v\<lparr>v_bitmap := bm'\<rparr>)" and room: "lsn_room 1 (d, v)" and p: "str_path p"
    and st: "store_ok d1 dsb (ns (v_index v)) (alloc_set (v_bitmap v)) R"
    and B: "alloc_set bm' = alloc_set (v_bitmap v) \<union> B" "B \<inter> alloc_set (v_bitmap v) = {}"
    and fr: "\<And>b. b \<in> alloc_set (v_bitmap v) \<Longrightarrow> blk d1 (dsb + b) = blk d (dsb + b)"
    and f: "\<And>lsn. file_ok d1 dsb (extent_entry p data ts kind root lsn) data" "\<And>lsn. owned d1 dsb (extent_entry p data ts kind root lsn) = B"
    and pl: "pl = build_extent_payload p kind (of_nat (length data)) (of_nat root)"
  obtains (ok) d' l' lsn where "on_log (append_full io Write REC_IS_EXTENT (fnv1a_64 p) 0 0 pl ts) (d1, v\<lparr>v_bitmap := bm'\<rparr>) =
        (Ok lsn, (d', v\<lparr>v_bitmap := bm'\<rparr>\<lparr>v_log := l'\<rparr>))"
      "vol_ok rg dsb ck base R sn (d', commit_entry p (extent_entry p data ts kind root lsn) (v\<lparr>v_bitmap := bm'\<rparr>\<lparr>v_log := l'\<rparr>))"
      "keeps dsb 1 (d, v) (d', commit_entry p (extent_entry p data ts kind root lsn) (v\<lparr>v_bitmap := bm'\<rparr>\<lparr>v_log := l'\<rparr>))"
      "wrote dsb p data (d, v) (d', commit_entry p (extent_entry p data ts kind root lsn) (v\<lparr>v_bitmap := bm'\<rparr>\<lparr>v_log := l'\<rparr>))"
  | (full) "on_log (append_full io Write REC_IS_EXTENT (fnv1a_64 p) 0 0 pl ts) (d1, v\<lparr>v_bitmap := bm'\<rparr>) = (Err LogFull, (d1, v\<lparr>v_bitmap := bm'\<rparr>))" "\<not> log_room 1 (v_log v)"
proof -
  let ?v1 = "v\<lparr>v_bitmap := bm'\<rparr>"
  let ?lsn = "lg_next_lsn (v_log ?v1)"
  define e where "e = extent_entry p data ts kind root"
  have room1: "lsn_room 1 (d1, ?v1)" using room by (simp add: lsn_room_def)
  have sz: "record_size (length pl) \<le> 4096" using record_size_bounds[of "length pl"] p
    by (simp add: pl length_build_extent_payload str_path_def)
  have st1: "store_ok d1 dsb (ns (v_index ?v1)) (alloc_set (v_bitmap v)) R" using st by simp
  have sub: "alloc_set (v_bitmap v) \<subseteq> alloc_set (v_bitmap ?v1)" using B by simp
  note ent = extent_entry_ok[OF p, of data ts kind root, folded e_def]
  have ow: "owned d1 dsb (e lsn) \<subseteq> alloc_set (v_bitmap ?v1) - alloc_set (v_bitmap v)" for lsn using B f(2) by (auto simp: e_def)
  have rp: "\<exists>e2. replay_record ck (seal_record (record_header lsn Write REC_IS_EXTENT (fnv1a_64 p) 0 0 pl ts) pl) pl (iy, sn) =
      (Ok (), (upsert iy (inherit_birth iy p e2), sn)) \<and> strip e2 = strip (e lsn) \<and> entry_ok e2 \<and> live e2"
    if "\<not> lsn \<le> ck" for iy lsn
    unfolding e_def by (rule replay_extent_entry[OF p that pl])
  show ?thesis
  proof (rule commit_write[OF vk room1 sz p st1 sub ent(1,3,2) f(1)[folded e_def] ow rp])
    assume "on_log (append_full io Write REC_IS_EXTENT (fnv1a_64 p) 0 0 pl ts) (d1, ?v1) = (Err LogFull, d1, ?v1)" "\<not> log_room 1 (v_log ?v1)"
    then show ?thesis by (intro full) simp_all
  next
    fix d' l'
    let ?v = "commit_entry p (e ?lsn) (?v1\<lparr>v_log := l'\<rparr>)"
    assume a: "on_log (append_full io Write REC_IS_EXTENT (fnv1a_64 p) 0 0 pl ts) (d1, ?v1) = (Ok ?lsn, d', ?v1\<lparr>v_log := l'\<rparr>)"
      and vo: "vol_ok rg dsb ck base R sn (d', ?v)" and fr': "\<And>b. dsb \<le> b \<Longrightarrow> blk d' b = blk d1 b" and nx: "lg_next_lsn l' = ?lsn + 1"
      and nm: "ns (v_index ?v) = (ns (v_index ?v1))(p := Some (inherit_birth (v_index ?v1) p (e ?lsn)))"
      and fo: "file_ok d' dsb (inherit_birth (v_index ?v1) p (e ?lsn)) data"
      and lr: "\<And>j. log_room (1 + j) (v_log ?v1) \<Longrightarrow> log_room j l'"
      and ow: "owned d' dsb (inherit_birth (v_index ?v1) p (e ?lsn)) = owned d1 dsb (e ?lsn)"
    have k: "keeps dsb 1 (d, v) (d', ?v)" using fr fr' nx B(1) lr by (simp add: keeps_def commit_entry_def unat_word_ariths)
    have "v_bitmap ?v = bm'" by (simp add: commit_entry_def)
    then have w: "wrote dsb p data (d, v) (d', ?v)"
      using nm fo ow f(2)[of ?lsn, folded e_def] B unfolding wrote_def
      by (simp only: prod.case) (intro exI[of _ "inherit_birth (v_index v) p (e ?lsn)"], auto)
    show ?thesis by (rule ok[OF a vo[unfolded e_def] k[unfolded e_def] w[unfolded e_def]])
  qed
qed

lemma write_contiguous_ok:
  assumes vk: "vol_ok rg dsb ck base R sn (d, v)" and room: "lsn_room 1 (d, v)" and p: "str_path p" and len: "length data < U64"
    and al: "alloc_contiguous (div_ceil (length data) 4096) (v_bitmap v) = (Ok start, bm')"
  shows "\<exists>r s'. write_contiguous io plba dbs (of_nat dsb) p data ts start (d, v\<lparr>v_bitmap := bm'\<rparr>) = (r, s') \<and> vol_ok rg dsb ck base R sn s' \<and>
    keeps dsb 1 (d, v) s' \<and> write_res dsb p data (d, v) r s'"
proof -
  define n where "n = div_ceil (length data) 4096"
  define pl where "pl = build_extent_payload p EXTENT_CONTIGUOUS (of_nat (length data)) (of_nat start)"
  have sh: "good d" "bitmap_inv (v_bitmap v)" "bm_total (v_bitmap v) < U32" "dsb + bm_total (v_bitmap v) \<le> nb"
    using vk by (auto simp: vol_ok_def vol_shape_def)
  note ac = alloc_contiguous_Ok[OF sh(2) al, folded n_def]
  have run: "start + n \<le> bm_total (v_bitmap v)" "{start..<start + n} \<inter> alloc_set (v_bitmap v) = {}"
    using ac(1) by (auto simp: free_run_def)
  have us: "unat (of_nat start :: u64) = start" using run(1) sh(3) by (simp add: unat_of_nat take_bit_eq_mod)
  have mp: "map (\<lambda>i. of_nat start + of_nat i :: u64) [0..<n] = map of_nat [start..<start + n]" by (rule nth_equalityI) auto
  have "\<exists>d1. write_data_blocks io plba (of_nat dsb) (4096 div ucast dbs) (map of_nat [start..<start + n]) 0 data d = (True, d1) \<and> good d1 \<and>
     (\<forall>j<length [start..<start + n]. blk d1 (dsb + [start..<start + n] ! j) = file_block data (0 + j)) \<and>
     (\<forall>b. b \<notin> (+) dsb ` set [start..<start + n] \<longrightarrow> blk d1 b = blk d b)"
    using run(1) sh(4) by (intro write_data_blocks_ok[OF sh(1)]) (auto simp: n_def)
  then obtain d1 where d1: "write_data_blocks io plba (of_nat dsb) (4096 div ucast dbs) (map of_nat [start..<start + n]) 0 data d = (True, d1)"
    "good d1" "\<And>j. j < n \<Longrightarrow> blk d1 (dsb + start + j) = file_block data j" "\<And>b. b \<notin> (+) dsb ` {start..<start + n} \<Longrightarrow> blk d1 b = blk d b"
    by (auto simp: add.assoc)
  have fr: "blk d1 (dsb + b) = blk d (dsb + b)" if "b \<in> alloc_set (v_bitmap v)" for b using that run(2) by (intro d1(4)) auto
  have lo: "blk d1 b = blk d b" if "b < dsb" for b using that by (intro d1(4)) auto
  note g = vol_ok_grow[OF vk ac(4,5) _ d1(2) fr lo]
  have v1: "vol_ok rg dsb ck base R sn (d1, v\<lparr>v_bitmap := bm'\<rparr>)" "store_ok d1 dsb (ns (v_index v)) (alloc_set (v_bitmap v)) R"
    using g ac(3) by auto
  have bn: "(of_nat start :: u64) \<noteq> BLOCK_NULL" using block_not_null[of start] run(1) ac(2) sh(3) by simp
  have ul: "unat (of_nat (length data) :: u64) = length data" using len by (simp add: unat_of_nat take_bit_eq_mod)
  have k: "EXTENT_CONTIGUOUS \<noteq> EXTENT_NODE" by (simp add: EXTENT_CONTIGUOUS_def EXTENT_NODE_def)
  have f: "file_ok d1 dsb (extent_entry p data ts EXTENT_CONTIGUOUS start lsn) data"
    "owned d1 dsb (extent_entry p data ts EXTENT_CONTIGUOUS start lsn) = {start..<start + n}" for lsn
    using d1(3) run(1) sh(4) len bn k by (auto simp: file_ok_def owned_def extent_entry_sel us ul n_def run_ok_def)
  show ?thesis
  proof (rule commit_extent[OF v1(1) room p v1(2) ac(3) run(2) fr f pl_def])
    assume a: "on_log (append_full io Write REC_IS_EXTENT (fnv1a_64 p) 0 0 pl ts) (d1, v\<lparr>v_bitmap := bm'\<rparr>) = (Err LogFull, d1, v\<lparr>v_bitmap := bm'\<rparr>)"
      and nr: "\<not> log_room 1 (v_log v)"
    have "{start..<start + n} \<subseteq> alloc_set bm'" using ac(3) by simp
    from free_range_Ok[OF ac(4) this] obtain bm2 where
      bm2: "free_range start n bm' = (Ok (), bm2)" "alloc_set bm2 = alloc_set bm' - {start..<start + n}" "bitmap_inv bm2" "bm_total bm2 = bm_total bm'" .
    have al2: "alloc_set bm2 = alloc_set (v_bitmap v)" using bm2(2) ac(3) run(2) by auto
    have "write_contiguous io plba dbs (of_nat dsb) p data ts start (d, v\<lparr>v_bitmap := bm'\<rparr>) = (Err LogFull, (d1, v\<lparr>v_bitmap := bm2\<rparr>))"
      using a bm2(1) d1(1) by (simp add: write_contiguous_def scale_ok[OF sh(1)] mp n_def[symmetric] pl_def[symmetric])
    moreover have "vol_ok rg dsb ck base R sn (d1, v\<lparr>v_bitmap := bm2\<rparr>)"
      using bm2(3,4) ac(5) al2 by (intro vol_ok_grow(1)[OF vk _ _ _ d1(2) fr lo]) auto
    ultimately show ?thesis using keeps_rebitmap[of v bm2 d1 dsb d 1] fr al2 nr by (auto simp: write_res_def)
  next
    fix d' l' lsn
    let ?v = "commit_entry p (extent_entry p data ts EXTENT_CONTIGUOUS start lsn) (v\<lparr>v_bitmap := bm'\<rparr>\<lparr>v_log := l'\<rparr>)"
    assume a: "on_log (append_full io Write REC_IS_EXTENT (fnv1a_64 p) 0 0 pl ts) (d1, v\<lparr>v_bitmap := bm'\<rparr>) = (Ok lsn, d', v\<lparr>v_bitmap := bm'\<rparr>\<lparr>v_log := l'\<rparr>)"
      and res: "vol_ok rg dsb ck base R sn (d', ?v)" "keeps dsb 1 (d, v) (d', ?v)" "wrote dsb p data (d, v) (d', ?v)"
    have "write_contiguous io plba dbs (of_nat dsb) p data ts start (d, v\<lparr>v_bitmap := bm'\<rparr>) = (Ok lsn, (d', ?v))"
      using a d1(1) k by (simp add: write_contiguous_def scale_ok[OF sh(1)] mp n_def[symmetric] pl_def[symmetric] extent_entry_def)
    then show ?thesis using res by (auto simp: write_res_def)
  qed
qed


lemma runs_ok_start: "bitmap_inv bm \<Longrightarrow> runs_ok bm 0 [] bm"
  by (simp add: runs_ok_def run_blocks_def)

text \<open>Both roll-backs of a fragmented write give back exactly what was allocated.\<close>

lemma free_runs:
  assumes "runs_ok bm0 k xs bm"
  shows "bitmap_inv (free_extents xs bm)" "bm_total (free_extents xs bm) = bm_total bm0" "alloc_set (free_extents xs bm) = alloc_set bm0"
  using free_extents_ok[of bm xs] assms by (auto simp: runs_ok_def)

lemma roll_back_ok:
  assumes "runs_ok bm0 k xs bm" "alloc_block bm = (Ok node, bm2)"
  shows "bitmap_inv (free_extents xs (snd (free_block node bm2)))" "bm_total (free_extents xs (snd (free_block node bm2))) = bm_total bm0"
    "alloc_set (free_extents xs (snd (free_block node bm2))) = alloc_set bm0"
    "bitmap_inv bm2" "bm_total bm2 = bm_total bm0" "alloc_set bm2 = insert node (alloc_set bm)" "node \<notin> alloc_set bm" "node < bm_total bm0"
proof -
  have inv: "bitmap_inv bm" "bm_total bm = bm_total bm0" using assms(1) by (auto simp: runs_ok_def)
  have "0 < bm_free bm" using alloc_block_full[of bm] assms(2) by (cases "bm_free bm = 0") auto
  from alloc_block_Ok[OF inv(1) this] assms(2) have
    b: "node < bm_total bm" "node \<notin> alloc_set bm" "alloc_set bm2 = insert node (alloc_set bm)" "bitmap_inv bm2" "bm_total bm2 = bm_total bm"
    by auto
  then show "bitmap_inv bm2" "bm_total bm2 = bm_total bm0" "alloc_set bm2 = insert node (alloc_set bm)" "node \<notin> alloc_set bm" "node < bm_total bm0"
    using inv by auto
  note w = free_block_weak[OF b(4), of node]
  have "runs_ok bm0 k xs (snd (free_block node bm2))" using assms(1) w b inv(2) by (auto simp: runs_ok_def)
  from free_runs[OF this] show "bitmap_inv (free_extents xs (snd (free_block node bm2)))"
    "bm_total (free_extents xs (snd (free_block node bm2))) = bm_total bm0"
    "alloc_set (free_extents xs (snd (free_block node bm2))) = alloc_set bm0" .
qed

lemma node_entry_ok:
  assumes "runs_ok (v_bitmap v) (div_ceil (length data) 4096) xs bm" "alloc_block bm = (Ok node, bm2)" "bm_total (v_bitmap v) < U32"
    "dsb + bm_total (v_bitmap v) \<le> nb" "xs \<noteq> []" "length xs \<le> EXTENTS_PER_LEAF" "length data < U64"
    "\<forall>j<length (run_blocks xs). blk d (dsb + run_blocks xs ! j) = file_block data j" "blk d (dsb + node) = extent_node_block xs"
    "e_flags e = IS_EXTENT_NODE" "e_size e = of_nat (length data)" "e_extent_root e = of_nat node"
  shows "file_ok d dsb e data" "owned d dsb e = insert node (set (run_blocks xs))"
proof -
  note r = roll_back_ok[OF assms(1,2)]
  have u: "unat (of_nat node :: u64) = node" using r(8) assms(3) by (simp add: unat_of_nat take_bit_eq_mod)
  have "node \<notin> set (run_blocks xs)" "distinct (run_blocks xs)" using r(7) assms(1) by (auto simp: runs_ok_def)
  then have n: "node_ok d dsb node data xs"
    using runs_ok_node[OF assms(1) refl assms(4,8)] assms(4,5,6,9) r(8) by (auto simp: node_ok_def)
  have bn: "(of_nat node :: u64) \<noteq> BLOCK_NULL" using block_not_null[of node] r(8) assms(3) by simp
  show "file_ok d dsb e data" using n u bn assms(7,10,11,12) by (auto simp: file_ok_def)
  show "owned d dsb e = insert node (set (run_blocks xs))"
    using owned_node[of d dsb e data xs] n u assms(10,12) by simp
qed

lemma write_file_fragmented_ok:
  assumes vk: "vol_ok rg dsb ck base R sn (d, v)" and room: "lsn_room 1 (d, v)" and p: "str_path p" and len: "length data < U64"
    and ne: "INLINE_DATA_SIZE < length data" and no: "\<forall>b. \<not> free_run (v_bitmap v) b (div_ceil (length data) 4096)"
  shows "\<exists>r s'. write_file_fragmented io plba dbs (of_nat dsb) p data ts (d, v) = (r, s') \<and> vol_ok rg dsb ck base R sn s' \<and>
    keeps dsb 1 (d, v) s' \<and> write_res dsb p data (d, v) r s'"
proof -
  define n where "n = div_ceil (length data) 4096"
  have sh: "good d" "bitmap_inv (v_bitmap v)" "bm_total (v_bitmap v) < U32" "dsb + bm_total (v_bitmap v) \<le> nb"
    using vk by (auto simp: vol_ok_def vol_shape_def)
  note ax = alloc_extents_ok[OF runs_ok_start[OF sh(2)] sh(3), of n]
  show ?thesis
  proof (cases "bm_free (v_bitmap v) < n")
    case True
    with ax obtain bm' where bm': "alloc_extents n 0 [] (v_bitmap v) = (Err NoSpace, bm')" "bitmap_inv bm'"
      "bm_total bm' = bm_total (v_bitmap v)" "alloc_set (v_bitmap v) \<subseteq> alloc_set bm'" "bm_free bm' = 0" by auto
    have "write_file_fragmented io plba dbs (of_nat dsb) p data ts (d, v) = (Err NoSpace, (d, v\<lparr>v_bitmap := bm'\<rparr>))"
      using bm'(1) by (simp add: write_file_fragmented_def on_bitmap_def n_def)
    moreover have "vol_ok rg dsb ck base R sn (d, v\<lparr>v_bitmap := bm'\<rparr>)" by (rule vol_ok_grow(1)[OF vk bm'(2-4) sh(1)]) auto
    ultimately show ?thesis using keeps_rebitmap[of v bm' d dsb d 1] bm' ne no by (auto simp: write_res_def)
  next
    case False
    with ax obtain xs bm1 where x: "alloc_extents n 0 [] (v_bitmap v) = (Ok xs, bm1)" "runs_ok (v_bitmap v) n xs bm1" by auto
    have n0: "0 < n" using div_ceil_bounds(1)[of 4096 "length data"] ne by (cases n) (auto simp: n_def)
    then have xne: "xs \<noteq> []" using x(2) by (auto simp: runs_ok_def run_blocks_def)
    have r: "alloc_set bm1 = alloc_set (v_bitmap v) \<union> set (run_blocks xs)" "distinct (run_blocks xs)"
      "set (run_blocks xs) \<inter> alloc_set (v_bitmap v) = {}" "length (run_blocks xs) = n" "bitmap_inv bm1" "bm_total bm1 = bm_total (v_bitmap v)"
      using x(2) by (auto simp: runs_ok_def)
    have lt: "b < bm_total (v_bitmap v)" if "b \<in> set (run_blocks xs)" for b using that r(1,6) alloc_set_less[of b bm1] by auto
    have "\<exists>d1. write_data_blocks io plba (of_nat dsb) (4096 div ucast dbs) (map of_nat (run_blocks xs)) 0 data d = (True, d1) \<and> good d1 \<and>
       (\<forall>j<length (run_blocks xs). blk d1 (dsb + run_blocks xs ! j) = file_block data (0 + j)) \<and>
       (\<forall>b. b \<notin> (+) dsb ` set (run_blocks xs) \<longrightarrow> blk d1 b = blk d b)"
      using lt r(4) sh(4) by (intro write_data_blocks_ok[OF sh(1) _ r(2)]) (fastforce simp: n_def)+
    then obtain d1 where d1: "write_data_blocks io plba (of_nat dsb) (4096 div ucast dbs) (map of_nat (run_blocks xs)) 0 data d = (True, d1)"
      "good d1" "\<forall>j<length (run_blocks xs). blk d1 (dsb + run_blocks xs ! j) = file_block data j"
      "\<And>b. b \<notin> (+) dsb ` set (run_blocks xs) \<Longrightarrow> blk d1 b = blk d b" by auto
    have fr: "blk d1 (dsb + b) = blk d (dsb + b)" if "b \<in> alloc_set (v_bitmap v)" for b using that r(3) by (intro d1(4)) auto
    have lo: "blk d1 b = blk d b" if "b < dsb" for b using that by (intro d1(4)) auto
    have wf: "write_file_fragmented io plba dbs (of_nat dsb) p data ts (d, v) =
      (case on_bitmap alloc_block (d1, v\<lparr>v_bitmap := bm1\<rparr>) of
        (Ok node_block, (d, v)) \<Rightarrow>
          (let roll_back = (\<lambda>v. v\<lparr>v_bitmap := free_extents xs (snd (free_block node_block (v_bitmap v)))\<rparr>) in
           case write_extent_node io plba (of_nat dsb) dbs (of_nat node_block) xs d of
             (Ok _, d) \<Rightarrow>
               (case on_log (append_full io Write REC_IS_EXTENT (fnv1a_64 p) 0 0
                     (build_extent_payload p EXTENT_NODE (of_nat (length data)) (of_nat node_block)) ts) (d, v) of
                  (Ok lsn, (d, v)) \<Rightarrow>
                    (let entry = make_file_entry p lsn (of_nat (length data)) ts None (of_nat node_block) (content_crc data)
                     in (Ok lsn, (d, commit_entry p (entry\<lparr>e_flags := e_flags entry OR IS_EXTENT_NODE\<rparr>) v)))
                | (Err e, (d, v)) \<Rightarrow> (Err e, (d, roll_back v))
                | (Panic, s) \<Rightarrow> (Panic, s) | (Diverges, s) \<Rightarrow> (Diverges, s))
           | (Err e, d) \<Rightarrow> (Err e, (d, roll_back v))
           | (Panic, d) \<Rightarrow> (Panic, (d, v)) | (Diverges, d) \<Rightarrow> (Diverges, (d, v)))
      | (Err e, (d, v)) \<Rightarrow> (Err e, (d, v\<lparr>v_bitmap := free_extents xs (v_bitmap v)\<rparr>))
      | (Panic, s) \<Rightarrow> (Panic, s) | (Diverges, s) \<Rightarrow> (Diverges, s))"
      using x(1) d1(1) unfolding write_file_fragmented_def on_bitmap_def n_def
      by (simp add: scale_ok[OF sh(1)] extent_blocks_eq)
    have fail: "\<exists>r s'. write_file_fragmented io plba dbs (of_nat dsb) p data ts (d, v) = (r, s') \<and> vol_ok rg dsb ck base R sn s' \<and>
        keeps dsb 1 (d, v) s' \<and> write_res dsb p data (d, v) r s'"
      if w: "write_file_fragmented io plba dbs (of_nat dsb) p data ts (d, v) = (Err e, (d2, v\<lparr>v_bitmap := bm'\<rparr>))"
        and bm': "bitmap_inv bm'" "bm_total bm' = bm_total (v_bitmap v)" "alloc_set bm' = alloc_set (v_bitmap v)"
        and d2: "good d2" "\<And>b. b \<in> alloc_set (v_bitmap v) \<Longrightarrow> blk d2 (dsb + b) = blk d (dsb + b)" "\<And>b. b < dsb \<Longrightarrow> blk d2 b = blk d b"
        and why: "e = LogFull \<and> \<not> log_room 1 (v_log v) \<or> e \<in> {NoSpace, ExtentCorrupt}"
      for e d2 bm'
    proof -
      have "vol_ok rg dsb ck base R sn (d2, v\<lparr>v_bitmap := bm'\<rparr>)" using bm' by (intro vol_ok_grow(1)[OF vk _ _ _ d2]) auto
      then show ?thesis using w keeps_rebitmap[of v bm' d2 dsb d 1] bm' d2(2) why ne no by (auto simp: write_res_def)
    qed
    show ?thesis
    proof (cases "bm_free bm1 = 0")
      case True
      then have "write_file_fragmented io plba dbs (of_nat dsb) p data ts (d, v) = (Err NoSpace, (d1, v\<lparr>v_bitmap := free_extents xs bm1\<rparr>))"
        by (simp add: wf on_bitmap_def alloc_block_full)
      from fail[OF this free_runs[OF x(2)] d1(2) fr lo] show ?thesis by simp
    next
      case False
      then have "0 < bm_free bm1" by simp
      from alloc_block_Ok[OF r(5) this] obtain node bm2 where ab: "alloc_block bm1 = (Ok node, bm2)" by blast
      note rb = roll_back_ok[OF x(2) ab]
      have nlt: "dsb + node < nb" using rb(8) sh(4) by simp
      show ?thesis
      proof (cases "length xs \<le> EXTENTS_PER_LEAF")
        case False
        then have "write_file_fragmented io plba dbs (of_nat dsb) p data ts (d, v) =
            (Err ExtentCorrupt, (d1, v\<lparr>v_bitmap := free_extents xs (snd (free_block node bm2))\<rparr>))"
          by (simp add: wf on_bitmap_def ab write_extent_node_def Let_def)
        from fail[OF this rb(1-3) d1(2) fr lo] show ?thesis by simp
      next
        case True
        from write_extent_node_ok[OF d1(2) xne True nlt] obtain d2 where
          d2: "write_extent_node io plba (of_nat dsb) dbs (of_nat node) xs d1 = (Ok (), d2)" "good d2"
            "blk d2 = (blk d1)(dsb + node := extent_node_block xs)" by auto
        have nn: "node \<notin> alloc_set (v_bitmap v)" "node \<notin> set (run_blocks xs)" using rb(7) r(1) by auto
        have fr2: "blk d2 (dsb + b) = blk d (dsb + b)" if "b \<in> alloc_set (v_bitmap v)" for b using that nn fr d2(3) by auto
        have lo2: "blk d2 b = blk d b" if "b < dsb" for b using that lo d2(3) by simp
        have hold: "\<forall>j<length (run_blocks xs). blk d2 (dsb + run_blocks xs ! j) = file_block data j"
          using d1(3) d2(3) nn(2) by (auto simp: in_set_conv_nth)
        define pl where "pl = build_extent_payload p EXTENT_NODE (of_nat (length data)) (of_nat node)"
        have al2: "alloc_set bm2 = alloc_set (v_bitmap v) \<union> insert node (set (run_blocks xs))" using rb(6) r(1) by auto
        have dj: "insert node (set (run_blocks xs)) \<inter> alloc_set (v_bitmap v) = {}" using nn r(3) by auto
        have v2: "vol_ok rg dsb ck base R sn (d2, v\<lparr>v_bitmap := bm2\<rparr>)" "store_ok d2 dsb (ns (v_index v)) (alloc_set (v_bitmap v)) R"
          using vol_ok_grow[OF vk rb(4,5) _ d2(2) fr2 lo2] al2 by auto
        have "blk d2 (dsb + node) = extent_node_block xs" by (simp add: d2(3))
        note f = node_entry_ok[OF x(2)[unfolded n_def] ab sh(3,4) xne True len hold this, of "extent_entry p data ts EXTENT_NODE node lsn" for lsn,
            unfolded extent_entry_sel if_P[OF refl], OF refl refl refl]
        show ?thesis
        proof (rule commit_extent[OF v2(1) room p v2(2) al2 dj fr2 f pl_def])
          assume "on_log (append_full io Write REC_IS_EXTENT (fnv1a_64 p) 0 0 pl ts) (d2, v\<lparr>v_bitmap := bm2\<rparr>) = (Err LogFull, d2, v\<lparr>v_bitmap := bm2\<rparr>)"
            and nr: "\<not> log_room 1 (v_log v)"
          then have "write_file_fragmented io plba dbs (of_nat dsb) p data ts (d, v) =
              (Err LogFull, (d2, v\<lparr>v_bitmap := free_extents xs (snd (free_block node bm2))\<rparr>))"
            using d2(1) by (simp add: wf on_bitmap_def ab Let_def pl_def)
          from fail[OF this rb(1-3) d2(2) fr2 lo2] nr show ?thesis by simp
        next
          fix d' l' lsn
          let ?v = "commit_entry p (extent_entry p data ts EXTENT_NODE node lsn) (v\<lparr>v_bitmap := bm2\<rparr>\<lparr>v_log := l'\<rparr>)"
          assume a: "on_log (append_full io Write REC_IS_EXTENT (fnv1a_64 p) 0 0 pl ts) (d2, v\<lparr>v_bitmap := bm2\<rparr>) = (Ok lsn, d', v\<lparr>v_bitmap := bm2\<rparr>\<lparr>v_log := l'\<rparr>)"
            and res: "vol_ok rg dsb ck base R sn (d', ?v)" "keeps dsb 1 (d, v) (d', ?v)" "wrote dsb p data (d, v) (d', ?v)"
          have "write_file_fragmented io plba dbs (of_nat dsb) p data ts (d, v) = (Ok lsn, (d', ?v))"
            using a d2(1) by (simp add: wf on_bitmap_def ab Let_def pl_def extent_entry_def)
          then show ?thesis using res by (auto simp: write_res_def)
        qed
      qed
    qed
  qed
qed

end

subsection \<open>write_file\<close>

lemma validate_path_cases: "validate_path p = Ok () \<or> (\<exists>e. validate_path p = Err e)"
  by (simp add: validate_path_def)

context partition
begin

lemma meta_keeps: "meta_step dsb n s s' \<Longrightarrow> keeps dsb n s s'"
  by (auto simp: meta_step_def keeps_def)

lemma keeps_trans:
  assumes "keeps dsb n s s1" "keeps dsb k s1 s2"
  shows "keeps dsb (n + k) s s2"
  using assms by (auto simp: keeps_def add.assoc)

lemma keeps_le: "keeps dsb n s s' \<Longrightarrow> n \<le> k \<Longrightarrow> keeps dsb k s s'"
  by (cases s; cases s') (auto simp: keeps_def intro: log_room_mono)

text \<open>\<open>wrote\<close> up to the parent directories that the call creates.\<close>

definition file_res :: "nat \<Rightarrow> bytes \<Rightarrow> bytes \<Rightarrow> 'd \<times> 'a vol_scheme \<Rightarrow> u64 hres \<Rightarrow> 'd \<times> 'a vol_scheme \<Rightarrow> bool" where
  "file_res dsb p data = (\<lambda>(d, v) r (d', v'). case r of
       Ok lsn \<Rightarrow> \<exists>m e. adds_dirs (ns (v_index v)) m \<and> ns (v_index v') = m(p := Some e) \<and> file_ok d' dsb e data \<and>
         owned d' dsb e \<inter> alloc_set (v_bitmap v) = {} \<and> alloc_set (v_bitmap v') = alloc_set (v_bitmap v) \<union> owned d' dsb e
     | Err e \<Rightarrow> adds_dirs (ns (v_index v)) (ns (v_index v')) \<and>
         (alloc_set (v_bitmap v') = alloc_set (v_bitmap v) \<or> e = NoSpace \<and> bm_free (v_bitmap v') = 0) \<and>
         (validate_path p = Err e \<or> e = PathInvalid \<and> length p > 1 \<and> ends_with_slash p \<or>
          e = IsADirectory \<and> (\<exists>f. lookup_flex (v_index v) p = Some f \<and> has_flag f IS_DIR) \<or>
          e = LogFull \<and> \<not> log_room (length p + 1) (v_log v) \<or>
          e \<in> {NoSpace, ExtentCorrupt} \<and> INLINE_DATA_SIZE < length data \<and>
            (\<forall>b. \<not> free_run (v_bitmap v) b (div_ceil (length data) 4096)))
     | Panic \<Rightarrow> False | Diverges \<Rightarrow> False)"

lemma file_res_compose:
  assumes "meta_step dsb (length p) s s1" "write_res dsb p data s1 r s'"
  shows "file_res dsb p data s r s'"
  using assms by (cases s; cases s1; cases s'; cases r) (auto simp: meta_step_def write_res_def file_res_def wrote_def)

lemma write_data_ok:
  assumes vk: "vol_ok rg dsb ck base R sn (d, v)" and room: "lsn_room 1 (d, v)" and p: "str_path p" and len: "length data < U64"
  shows "\<exists>r s'. (if length data \<le> INLINE_DATA_SIZE then write_inline io p data ts (d, v)
       else case on_bitmap (alloc_contiguous (div_ceil (length data) BLOCK_SIZE)) (d, v) of
           (Ok start, s) \<Rightarrow> write_contiguous io plba dbs (of_nat dsb) p data ts start s
         | (Err e, s) \<Rightarrow>
             (if e = NoSpace then write_file_fragmented io plba dbs (of_nat dsb) p data ts s else (Err e, s))
         | (Panic, s) \<Rightarrow> (Panic, s) | (Diverges, s) \<Rightarrow> (Diverges, s)) = (r, s') \<and>
    vol_ok rg dsb ck base R sn s' \<and> keeps dsb 1 (d, v) s' \<and> write_res dsb p data (d, v) r s'"
proof (cases "length data \<le> INLINE_DATA_SIZE")
  case True
  then show ?thesis using write_inline_ok[OF vk room p True] by simp
next
  case False
  have inv: "bitmap_inv (v_bitmap v)" using vk by (auto simp: vol_ok_def vol_shape_def)
  have ne: "INLINE_DATA_SIZE < length data" using False by simp
  have n0: "0 < div_ceil (length data) 4096" using div_ceil_bounds(1)[of 4096 "length data"] ne by (cases "div_ceil (length data) 4096") auto
  from alloc_contiguous_cases[OF inv n0] consider
    (run) s bm' where "alloc_contiguous (div_ceil (length data) 4096) (v_bitmap v) = (Ok s, bm')"
    | (none) "alloc_contiguous (div_ceil (length data) 4096) (v_bitmap v) = (Err NoSpace, v_bitmap v)"
        "\<forall>b. \<not> free_run (v_bitmap v) b (div_ceil (length data) 4096)" by blast
  then show ?thesis
  proof cases
    case run
    then show ?thesis using write_contiguous_ok[OF vk room p len run] False by (simp add: on_bitmap_def)
  next
    case none
    then show ?thesis using write_file_fragmented_ok[OF vk room p len ne none(2)] False by (simp add: on_bitmap_def)
  qed
qed

lemma write_file_ok:
  assumes vk: "vol_ok rg dsb ck base R sn (d, v)" and room: "lsn_room (length p + 1) (d, v)" and p: "str_path p" and len: "length data < U64"
  shows "\<exists>r s'. write_file io plba dbs (of_nat dsb) p data ts (d, v) = (r, s') \<and> vol_ok rg dsb ck base R sn s' \<and>
    keeps dsb (length p + 1) (d, v) s' \<and> file_res dsb p data (d, v) r s'"
proof -
  consider (path) e where "validate_path p = Err e" | (slash) "validate_path p = Ok ()" "length p > 1 \<and> ends_with_slash p"
    | (dir) "validate_path p = Ok ()" "\<not> (length p > 1 \<and> ends_with_slash p)"
        "case lookup_flex (v_index v) p of Some existing \<Rightarrow> has_flag existing IS_DIR | None \<Rightarrow> False"
    | (go) "validate_path p = Ok ()" "\<not> (length p > 1 \<and> ends_with_slash p)"
        "\<not> (case lookup_flex (v_index v) p of Some existing \<Rightarrow> has_flag existing IS_DIR | None \<Rightarrow> False)"
    using validate_path_cases[of p] by blast
  then show ?thesis
  proof cases
    case go
    have room': "lsn_room (length p) (d, v)" using room by (auto simp: lsn_room_def)
    from ensure_parent_dirs_ok[OF vk room' p, of ts] obtain r d1 v1 where
      e: "ensure_parent_dirs io p ts (d, v) = (r, (d1, v1))" "r = Ok () \<or> r = Err LogFull \<and> \<not> log_room (length p) (v_log v)" "vol_ok rg dsb ck base R sn (d1, v1)"
        "meta_step dsb (length p) (d, v) (d1, v1)" by auto
    from e(2) show ?thesis
    proof
      assume r: "r = Err LogFull \<and> \<not> log_room (length p) (v_log v)"
      have "write_file io plba dbs (of_nat dsb) p data ts (d, v) = (Err LogFull, (d1, v1))"
        using go e(1) r by (simp add: write_file_def)
      moreover have "file_res dsb p data (d, v) (Err LogFull) (d1, v1)"
        using e(4) r log_room_le[of "length p + 1" "v_log v" "length p"] by (auto simp: file_res_def meta_step_def)
      ultimately show ?thesis
        using e(3) keeps_le[OF meta_keeps[OF e(4)], of "length p + 1"] by auto
    next
      assume r: "r = Ok ()"
      have "lsn_room 1 (d1, v1)" using meta_step_room[OF e(4) room] .
      from write_data_ok[OF e(3) this p len, of ts] obtain r' s' where
        w: "(if length data \<le> INLINE_DATA_SIZE then write_inline io p data ts (d1, v1)
       else case on_bitmap (alloc_contiguous (div_ceil (length data) BLOCK_SIZE)) (d1, v1) of
           (Ok start, s) \<Rightarrow> write_contiguous io plba dbs (of_nat dsb) p data ts start s
         | (Err e, s) \<Rightarrow>
             (if e = NoSpace then write_file_fragmented io plba dbs (of_nat dsb) p data ts s else (Err e, s))
         | (Panic, s) \<Rightarrow> (Panic, s) | (Diverges, s) \<Rightarrow> (Diverges, s)) = (r', s')"
        "vol_ok rg dsb ck base R sn s'" "keeps dsb 1 (d1, v1) s'" "write_res dsb p data (d1, v1) r' s'" by blast
      have "write_file io plba dbs (of_nat dsb) p data ts (d, v) = (r', s')"
        by (simp only: write_file_def go(1) and_then_simps case_prod_conv if_not_P[OF go(2)] if_not_P[OF go(3)] e(1) r Let_def w(1))
      then show ?thesis using w(2) file_res_compose[OF e(4) w(4)] keeps_trans[OF meta_keeps[OF e(4)] w(3)] by blast
    qed
  qed (use vk in \<open>auto simp: write_file_def keeps_refl file_res_def adds_dirs_refl split: option.splits\<close>)
qed

end

subsection \<open>unlink\<close>

definition flex_path :: "index \<Rightarrow> bytes \<Rightarrow> bytes" where
  "flex_path ix path = (if lookup ix path \<noteq> None then path
     else if \<not> ends_with_slash path then path @ [SLASH] else butlast path)"

lemma lookup_flex_path: "index_inv ix \<Longrightarrow> lookup_flex ix p = Some e \<Longrightarrow> ns ix (flex_path ix p) = Some e"
  by (auto simp: lookup_flex_def flex_path_def lookup_ns split: option.splits if_splits)

context partition
begin

lemma vol_ok_rebitmap:
  assumes "vol_ok rg dsb ck base R sn (d, v)" "bitmap_inv bm'" "bm_total bm' = bm_total (v_bitmap v)"
    "store_ok d dsb (ns (v_index v)) (alloc_set bm') R" "good d1" "blk d1 = blk d"
  shows "vol_ok rg dsb ck base R sn (d1, v\<lparr>v_bitmap := bm'\<rparr>)"
proof -
  have sh: "vol_shape rg dsb R d v" and lo: "vol_log ck base d v sn" using assms(1) by (auto simp: vol_ok_def)
  have "vol_shape rg dsb R d1 (v\<lparr>v_bitmap := bm'\<rparr>)"
    using sh assms(2,3,5) store_frame[OF assms(4), of d1] assms(6) by (simp add: vol_shape_def)
  moreover have "log_state d1 (v_log v) rs" if "log_state d (v_log v) rs" for rs
    using log_state_cong[OF that, of d1] assms(6) by simp
  then have "vol_log ck base d1 (v\<lparr>v_bitmap := bm'\<rparr>) sn" using lo by (simp add: vol_log_def) blast
  ultimately show ?thesis by (simp add: vol_ok_def)
qed

text \<open>Giving back the blocks of an entry that is no longer in the name space.\<close>

lemma vol_free_owned:
  assumes vk: "vol_ok rg dsb ck base R sn (d, v)" and fo: "file_ok d dsb e data" "\<not> has_flag e IS_INLINE"
    and ow: "owned d dsb e \<subseteq> alloc_set (v_bitmap v) - R" "\<forall>q f. ns (v_index v) q = Some f \<longrightarrow> owned d dsb f \<inter> owned d dsb e = {}"
  obtains d' bm' where "on_dev_bitmap (free_file_blocks io plba (of_nat dsb) dbs (e_extent_root e) (e_size e) (has_flag e IS_EXTENT_NODE)) (d, v) =
      (Ok (), (d', v\<lparr>v_bitmap := bm'\<rparr>))" "vol_ok rg dsb ck base R sn (d', v\<lparr>v_bitmap := bm'\<rparr>)" "blk d' = blk d"
      "alloc_set bm' = alloc_set (v_bitmap v) - owned d dsb e"
proof -
  have sh: "good d" "bitmap_inv (v_bitmap v)" "store_ok d dsb (ns (v_index v)) (alloc_set (v_bitmap v)) R"
    using vk by (auto simp: vol_ok_def vol_shape_def)
  have sub: "owned d dsb e \<subseteq> alloc_set (v_bitmap v)" using ow(1) by blast
  from free_file_blocks_ok[OF sh(1) fo(1) sh(2) fo(2) sub] obtain d' bm' where
    f: "free_file_blocks io plba (of_nat dsb) dbs (e_extent_root e) (e_size e) (has_flag e IS_EXTENT_NODE) (d, v_bitmap v) = (Ok (), (d', bm'))"
      "good d'" "blk d' = blk d" "bitmap_inv bm'" "bm_total bm' = bm_total (v_bitmap v)"
      "alloc_set bm' = alloc_set (v_bitmap v) - owned d dsb e" by blast
  have "store_ok d dsb (ns (v_index v)) (alloc_set bm') R"
    unfolding f(6) using ow by (intro store_free[OF sh(3)]) auto
  from that[OF _ vol_ok_rebitmap[OF vk f(4,5) this f(2,3)] f(3,6)] show ?thesis by (simp add: on_dev_bitmap_def f(1))
qed

text \<open>One logged removal.\<close>

lemma delete_step:
  assumes vk: "vol_ok rg dsb ck base R sn (d, v)" and room: "lsn_room 1 (d, v)" and q: "ns (v_index v) q = Some e"
  obtains (ok) d' l' ix' where "on_log (log_append io Delete (fnv1a_64 q) (path_payload q) ts) (d, v) = (Ok (lg_next_lsn (v_log v)), (d', v\<lparr>v_log := l'\<rparr>))"
      "mark_deleted (v_index v) q = (Ok (), ix')" "ns ix' = (ns (v_index v))(q := None)"
      "vol_ok rg dsb ck base R sn (d', v\<lparr>v_log := l', v_index := ix'\<rparr>)"
      "\<And>b. dsb \<le> b \<Longrightarrow> blk d' b = blk d b" "lg_next_lsn l' = lg_next_lsn (v_log v) + 1"
  | (full) "on_log (log_append io Delete (fnv1a_64 q) (path_payload q) ts) (d, v) = (Err LogFull, (d, v))" "\<not> log_room 1 (v_log v)"
proof -
  have so: "store_ok d dsb (ns (v_index v)) (alloc_set (v_bitmap v)) R" using vk by (auto simp: vol_ok_def vol_shape_def)
  have p: "str_path q" by (rule store_okD(3)[OF so q])
  have sz: "record_size (length (path_payload q)) \<le> 4096" using str_path_record[OF p, of "[]"] by simp
  from sim_mark_deleted[OF sim_refl[OF vol_index_inv[OF vk]] q] obtain ix' where
    ix': "mark_deleted (v_index v) q = (Ok (), ix')" "ns ix' = (ns (v_index v))(q := None)" by blast
  show ?thesis
  proof (rule vol_append[OF vk room sz refl, of Delete 0 "fnv1a_64 q" 0 0 ts])
    assume "on_log (append_full io Delete 0 (fnv1a_64 q) 0 0 (path_payload q) ts) (d, v) = (Err LogFull, d, v)" "\<not> log_room 1 (v_log v)"
    then show ?thesis by (intro full) (simp_all add: log_append_def)
  next
    fix d' l'
    assume a: "on_log (append_full io Delete 0 (fnv1a_64 q) 0 0 (path_payload q) ts) (d, v) = (Ok (lg_next_lsn (v_log v)), d', v\<lparr>v_log := l'\<rparr>)"
      and fr: "\<And>b. dsb \<le> b \<Longrightarrow> blk d' b = blk d b" and n: "lg_next_lsn l' = lg_next_lsn (v_log v) + 1"
      and ck: "\<not> lg_next_lsn (v_log v) \<le> ck"
      and st: "\<And>ix' sn'. (\<And>iy. sim (v_index v) iy \<Longrightarrow>
           \<exists>iy'. replay_record ck (seal_record (record_header (lg_next_lsn (v_log v)) Delete 0 (fnv1a_64 q) 0 0 (path_payload q) ts) (path_payload q))
             (path_payload q) (iy, sn) = (Ok (), iy', sn') \<and> sim ix' iy') \<Longrightarrow>
         store_ok d dsb (ns ix') (alloc_set (v_bitmap v)) R \<Longrightarrow> vol_ok rg dsb ck base R sn' (d', v\<lparr>v_log := l', v_index := ix'\<rparr>)"
    have vo: "vol_ok rg dsb ck base R sn (d', v\<lparr>v_log := l', v_index := ix'\<rparr>)"
    proof (rule st)
      fix iy assume s: "sim (v_index v) iy"
      from sim_mark_deleted[OF s q] ix'(1) obtain iy' where "mark_deleted iy q = (Ok (), iy')" "sim ix' iy'" by auto
      then show "\<exists>iy'. replay_record ck (seal_record (record_header (lg_next_lsn (v_log v)) Delete 0 (fnv1a_64 q) 0 0 (path_payload q) ts) (path_payload q))
             (path_payload q) (iy, sn) = (Ok (), iy', sn) \<and> sim ix' iy'" using replay_delete_record[OF p ck] by simp
    next
      show "store_ok d dsb (ns ix') (alloc_set (v_bitmap v)) R" unfolding ix'(2) by (rule store_del[OF so])
    qed
    show ?thesis by (rule ok[OF _ ix' vo fr n]) (use a in \<open>simp add: log_append_def\<close>)
  qed
qed

text \<open>The entry goes and exactly its blocks are free again.\<close>

definition unlinked :: "nat \<Rightarrow> bytes \<Rightarrow> 'd \<times> 'a vol_scheme \<Rightarrow> 'd \<times> 'a vol_scheme \<Rightarrow> bool" where
  "unlinked dsb q = (\<lambda>(d, v) (d', v'). \<exists>e. ns (v_index v) q = Some e \<and> ns (v_index v') = (ns (v_index v))(q := None) \<and>
     alloc_set (v_bitmap v') = alloc_set (v_bitmap v) - owned d dsb e \<and> (\<forall>b\<ge>dsb. blk d' b = blk d b) \<and> vol.more v' = vol.more v \<and>
     lg_next_lsn (v_log v') = lg_next_lsn (v_log v) + 1)"

lemma unlink_ok:
  assumes vk: "vol_ok rg dsb ck base R sn (d, v)" and room: "lsn_room 1 (d, v)"
  shows "(\<exists>e. unlink io plba (of_nat dsb) dbs p ts (d, v) = (Err e, (d, v)) \<and>
       (e = NotFound \<and> lookup_flex (v_index v) p = None \<or>
        e = DirectoryNotEmpty \<and> (\<exists>f. lookup_flex (v_index v) p = Some f \<and> has_flag f IS_DIR) \<or> e = LogFull \<and> \<not> log_room 1 (v_log v))) \<or>
    (\<exists>lsn s'. unlink io plba (of_nat dsb) dbs p ts (d, v) = (Ok lsn, s') \<and> vol_ok rg dsb ck base R sn s' \<and>
       unlinked dsb (flex_path (v_index v) p) (d, v) s')"
proof (cases "lookup_flex (v_index v) p")
  case None
  then show ?thesis by (simp add: unlink_def)
next
  case (Some e)
  let ?q = "flex_path (v_index v) p"
  have ii: "index_inv (v_index v)" by (rule vol_index_inv[OF vk])
  have q: "ns (v_index v) ?q = Some e" by (rule lookup_flex_path[OF ii Some])
  have nd: "\<not> has_flag e IS_DELETED" using q ii by (auto simp: ns_Some_iff)
  have so: "store_ok d dsb (ns (v_index v)) (alloc_set (v_bitmap v)) R" using vk by (auto simp: vol_ok_def vol_shape_def)
  show ?thesis
  proof (cases "has_flag e IS_DIR \<and> readdir (v_index v) (if ends_with_slash p then p else p @ [SLASH]) \<noteq> []")
    case True
    then show ?thesis using Some nd by (simp add: unlink_def)
  next
    case go: False
    have u: "unlink io plba (of_nat dsb) dbs p ts (d, v) =
        and_then (on_log (log_append io Delete (fnv1a_64 ?q) (path_payload ?q) ts) (d, v)) (\<lambda>lsn s.
             and_then (on_index (\<lambda>ix. mark_deleted ix ?q) s) (\<lambda>_ s.
             and_then
               (if \<not> has_flag e IS_INLINE \<and> \<not> has_flag e IS_DIR then
                  on_dev_bitmap (free_file_blocks io plba (of_nat dsb) dbs (e_extent_root e) (e_size e) (has_flag e IS_EXTENT_NODE)) s
                else (Ok (), s)) (\<lambda>_ s. (Ok lsn, s))))"
      unfolding unlink_def flex_path_def[symmetric] using Some
      by (simp only: prod.case option.case if_not_P[OF nd] if_not_P[OF go] Let_def)
    show ?thesis
    proof (rule delete_step[OF vk room q, of ts])
      assume "on_log (log_append io Delete (fnv1a_64 ?q) (path_payload ?q) ts) (d, v) = (Err LogFull, d, v)" "\<not> log_room 1 (v_log v)"
      then show ?thesis unfolding u by simp
    next
      fix d' l' ix'
      let ?v = "v\<lparr>v_log := l', v_index := ix'\<rparr>"
      assume a: "on_log (log_append io Delete (fnv1a_64 ?q) (path_payload ?q) ts) (d, v) = (Ok (lg_next_lsn (v_log v)), d', v\<lparr>v_log := l'\<rparr>)"
        and md: "mark_deleted (v_index v) ?q = (Ok (), ix')" and nm: "ns ix' = (ns (v_index v))(?q := None)"
        and vo: "vol_ok rg dsb ck base R sn (d', ?v)"
        and fr: "\<And>b. dsb \<le> b \<Longrightarrow> blk d' b = blk d b" and n: "lg_next_lsn l' = lg_next_lsn (v_log v) + 1"
      show ?thesis
      proof (cases "\<not> has_flag e IS_INLINE \<and> \<not> has_flag e IS_DIR")
        case False
        then have o: "owned d dsb e = {}" by (auto simp: owned_def)
        have "unlink io plba (of_nat dsb) dbs p ts (d, v) = (Ok (lg_next_lsn (v_log v)), (d', ?v))"
          unfolding u if_not_P[OF False] using a md by (simp add: on_index_def)
        then show ?thesis using vo nm fr n q o by (auto simp: unlinked_def)
      next
        case True
        have b: "b \<in> alloc_set (v_bitmap v) \<Longrightarrow> blk d' (dsb + b) = blk d (dsb + b)" for b by (simp add: fr)
        obtain data where fo: "file_ok d dsb e data" using store_okD(2)[OF so q] True by blast
        have fo': "file_ok d' dsb e data" "owned d' dsb e = owned d dsb e" using entry_frame[OF so q b] fo by auto
        have o1: "owned d' dsb e \<subseteq> alloc_set (v_bitmap ?v) - R" using store_okD(1)[OF so q] fo'(2) by simp
        have o2: "owned d' dsb f \<inter> owned d' dsb e = {}" if "ns (v_index ?v) r = Some f" for r f
        proof -
          have "ns (v_index v) r = Some f" "r \<noteq> ?q" using that nm by (auto split: if_splits)
          then show ?thesis using store_okD(4)[OF so q] entry_frame(1)[OF so _ b] fo'(2) by metis
        qed
        from True have inl: "\<not> has_flag e IS_INLINE" by simp
        from o2 have o3: "\<forall>r f. ns (v_index ?v) r = Some f \<longrightarrow> owned d' dsb f \<inter> owned d' dsb e = {}" by blast
        from vol_free_owned[OF vo fo'(1) inl o1 o3] obtain d2 bm2 where
          f: "on_dev_bitmap (free_file_blocks io plba (of_nat dsb) dbs (e_extent_root e) (e_size e) (has_flag e IS_EXTENT_NODE)) (d', ?v) = (Ok (), (d2, ?v\<lparr>v_bitmap := bm2\<rparr>))"
            "vol_ok rg dsb ck base R sn (d2, ?v\<lparr>v_bitmap := bm2\<rparr>)" "blk d2 = blk d'" "alloc_set bm2 = alloc_set (v_bitmap ?v) - owned d' dsb e"
          by blast
        have "unlink io plba (of_nat dsb) dbs p ts (d, v) = (Ok (lg_next_lsn (v_log v)), (d2, ?v\<lparr>v_bitmap := bm2\<rparr>))"
          unfolding u if_P[OF True] using a md f(1) by (simp add: on_index_def)
        then show ?thesis using f nm fr n q fo'(2) by (auto simp: unlinked_def)
      qed
    qed
  qed
qed

end

subsection \<open>mkdir\<close>

lemma split_slash_snoc: "split_slash (p @ [SLASH]) = split_slash p @ [[]]"
proof (induction p)
  case (Cons b p)
  then show ?case using split_slash_ne[of p] by (cases "split_slash p") auto
qed simp

lemma split_slash_trim: "filter (\<lambda>c. c \<noteq> []) (split_slash (trim_end_slash p)) = filter (\<lambda>c. c \<noteq> []) (split_slash p)"
proof (induction p rule: rev_induct)
  case (snoc b p)
  show ?case
  proof (cases "b = SLASH")
    case True
    then show ?thesis using snoc by (simp add: trim_end_slash_snoc split_slash_snoc)
  next
    case False
    then show ?thesis using trim_end_slash_id[of "[b]" p] by simp
  qed
qed (simp add: trim_end_slash_def)

lemma ensure_parent_dirs_trim: "ensure_parent_dirs_trimmed io p ts s = ensure_parent_dirs io p ts s"
  by (simp add: ensure_parent_dirs_trimmed_def ensure_parent_dirs_def split_slash_trim)

context partition
begin

lemma mkdir_ok:
  assumes vk: "vol_ok rg dsb ck base R sn (d, v)" and room: "lsn_room (length p + 2) (d, v)" and p: "str_path p"
    and n: "n = (if ends_with_slash p then p else p @ [SLASH])"
  shows "\<exists>r d' v'. mkdir io p ts (d, v) = (r, (d', v')) \<and> vol_ok rg dsb ck base R sn (d', v') \<and> meta_step dsb (length p + 2) (d, v) (d', v') \<and>
    (case r of Ok lsn \<Rightarrow> ns (v_index v) n = None \<and> (\<exists>e. ns (v_index v') n = Some e \<and> has_flag e IS_DIR) | Err e \<Rightarrow> True | _ \<Rightarrow> False)"
proof -
  have ii: "index_inv (v_index v)" by (rule vol_index_inv[OF vk])
  consider (path) e where "validate_path p = Err e" | (long) "validate_path p = Ok ()" "length n > MAX_PATH_LEN"
    | (dup) "validate_path p = Ok ()" "\<not> length n > MAX_PATH_LEN" "lookup (v_index v) n \<noteq> None \<or> lookup (v_index v) (trim_end_slash n) \<noteq> None"
    | (go) "validate_path p = Ok ()" "\<not> length n > MAX_PATH_LEN" "lookup (v_index v) n = None" "lookup (v_index v) (trim_end_slash n) = None"
    using validate_path_cases[of p] by blast
  then show ?thesis
  proof cases
    case go
    have np: "str_path n" "ends_with_slash n"
      using p go(2) utf8_append[of "[SLASH]" p] by (auto simp: n str_path_def ends_with_slash_def)
    have ln: "length n \<le> length p + 1" by (simp add: n)
    have n0: "ns (v_index v) n = None" using go(3) ii by (simp add: lookup_ns)
    have room': "lsn_room (length n) (d, v)" using room ln by (auto simp: lsn_room_def)
    from ensure_parent_dirs_ok[OF vk room' np(1), of ts] obtain r d1 v1 where
      e: "ensure_parent_dirs io n ts (d, v) = (r, (d1, v1))" "r = Ok () \<or> r = Err LogFull" "vol_ok rg dsb ck base R sn (d1, v1)"
        "meta_step dsb (length n) (d, v) (d1, v1)" by auto
    have m: "mkdir io p ts (d, v) = and_then (r, (d1, v1)) (\<lambda>_ s.
       and_then (on_log (log_append io MkDir (fnv1a_64 n) (path_payload n) ts) s) (\<lambda>lsn (d, v).
         (Ok lsn, (d, v\<lparr>v_index := upsert (v_index v) (make_dir_entry n lsn ts)\<rparr>))))"
      using go e(1) unfolding mkdir_def n[symmetric] by (simp add: ensure_parent_dirs_trim)
    note le = meta_step_le[of dsb _ "(d, v)" _ "length p + 2"]
    from e(2) show ?thesis
    proof
      assume "r = Err LogFull"
      then show ?thesis using m e(3) le[OF e(4)] ln by auto
    next
      assume r: "r = Ok ()"
      have r1: "lsn_room 1 (d1, v1)" using meta_step_room[OF e(4), of 1] room ln by (auto simp: lsn_room_def)
      have sn0: "ns (v_index (snd (d, v))) n = None" using n0 by simp
      show ?thesis
      proof (rule mkdir_step[OF e(3) r1 np e(4) sn0, of ts])
        assume "on_log (log_append io MkDir (fnv1a_64 n) (path_payload n) ts) (d1, v1) = (Err LogFull, d1, v1)"
        then show ?thesis using m r e(3) le[OF e(4)] ln by auto
      next
        fix d' l'
        let ?e = "make_dir_entry n (lg_next_lsn (v_log v1)) ts"
        let ?v = "v1\<lparr>v_log := l', v_index := upsert (v_index v1) ?e\<rparr>"
        assume a: "on_log (log_append io MkDir (fnv1a_64 n) (path_payload n) ts) (d1, v1) = (Ok (lg_next_lsn (v_log v1)), d', v1\<lparr>v_log := l'\<rparr>)"
          and vo: "vol_ok rg dsb ck base R sn (d', ?v)" and ms: "meta_step dsb (length n + 1) (d, v) (d', ?v)"
          and up: "ns (upsert (v_index v1) ?e) = (ns (v_index v1))(n := Some ?e)"
        have "mkdir io p ts (d, v) = (Ok (lg_next_lsn (v_log v1)), (d', ?v))" using m r a by simp
        then show ?thesis using vo le[OF ms] ln n0 up by auto
      qed
    qed
  qed (use vk in \<open>auto simp: mkdir_def n[symmetric] meta_step_refl\<close>)
qed

subsection \<open>rename\<close>

lemma moved_entry_file:
  "e_flags (moved_entry e p lsn ts) = e_flags e" "e_size (moved_entry e p lsn ts) = e_size e"
  "e_extent_root (moved_entry e p lsn ts) = e_extent_root e" "e_inline_data (moved_entry e p lsn ts) = e_inline_data e"
  by (simp_all add: moved_entry_def Let_def)

text \<open>
  One logged move, from a state whose index \<open>ix\<close> differs from the logged one only at the
  target: \<open>clobber_dest\<close> removes the target without a record.
\<close>

definition moved :: "nat \<Rightarrow> bytes \<Rightarrow> bytes \<Rightarrow> 'd \<times> 'a vol_scheme \<Rightarrow> 'd \<times> 'a vol_scheme \<Rightarrow> bool" where
  "moved dsb p q = (\<lambda>(d, v) (d', v'). \<exists>e e'. ns (v_index v) p = Some e \<and> ns (v_index v') = (ns (v_index v))(p := None, q := Some e') \<and>
     e_flags e' = e_flags e \<and> e_size e' = e_size e \<and> e_extent_root e' = e_extent_root e \<and> e_inline_data e' = e_inline_data e \<and>
     (\<forall>b\<ge>dsb. blk d' b = blk d b) \<and> vol.more v' = vol.more v \<and> lg_next_lsn (v_log v') = lg_next_lsn (v_log v) + 1)"

lemma rename_step:
  assumes vk: "vol_ok rg dsb ck base R sn (d, v)" and room: "lsn_room 1 (d, v)" and p: "ns (v_index v) p = Some e" and q: "str_path q" "p \<noteq> q"
    and ix: "index_inv ix" "ns ix = (ns (v_index v))(q := ns ix q)"
  obtains (ok) d' l' ix1 where "on_log (append_full io Rename 0 (fnv1a_64 p) (fnv1a_64 q) 0 (path_payload p @ path_payload q) ts) (d, v) =
        (Ok (lg_next_lsn (v_log v)), (d', v\<lparr>v_log := l'\<rparr>))" "mark_deleted ix p = (Ok (), ix1)"
      "vol_ok rg dsb ck base R sn (d', v\<lparr>v_log := l', v_index := upsert ix1 (moved_entry e q (lg_next_lsn (v_log v)) ts)\<rparr>)"
      "ns (upsert ix1 (moved_entry e q (lg_next_lsn (v_log v)) ts)) = (ns (v_index v))(p := None, q := Some (moved_entry e q (lg_next_lsn (v_log v)) ts))"
      "\<And>b. dsb \<le> b \<Longrightarrow> blk d' b = blk d b" "lg_next_lsn l' = lg_next_lsn (v_log v) + 1"
  | (full) "on_log (append_full io Rename 0 (fnv1a_64 p) (fnv1a_64 q) 0 (path_payload p @ path_payload q) ts) (d, v) = (Err LogFull, (d, v))" "\<not> log_room 1 (v_log v)"
proof -
  let ?e = "moved_entry e q (lg_next_lsn (v_log v)) ts"
  let ?pl = "path_payload p @ path_payload q"
  have so: "store_ok d dsb (ns (v_index v)) (alloc_set (v_bitmap v)) R" using vk by (auto simp: vol_ok_def vol_shape_def)
  have sp: "str_path p" by (rule store_okD(3)[OF so p])
  have ii: "index_inv (v_index v)" by (rule vol_index_inv[OF vk])
  have "length (path_payload q) \<le> 512" using q(1) by (simp add: path_payload_def str_path_def)
  then have sz: "record_size (length ?pl) \<le> 4096" by (rule str_path_record[OF sp])
  have wf: "entry_wf e" "live e" using p ii by (auto simp: ns_Some_iff index_inv_def entry_ok_def)
  note mv = moved_entry_ok[OF str_path_ok[OF q(1)] wf(1), of "lg_next_lsn (v_log v)" ts]
  have lv: "live ?e" using mv(3) wf(2) by simp
  have pix: "ns ix p = Some e" using ix(2) p q(2) by (metis fun_upd_other)
  from sim_mark_deleted[OF sim_refl[OF ix(1)] pix] obtain ix1 where
    ix1: "mark_deleted ix p = (Ok (), ix1)" "ns ix1 = (ns ix)(p := None)" "index_inv ix1" by blast
  have up: "ns (upsert ix1 ?e) = (ns (v_index v))(p := None, q := Some ?e)"
  proof -
    have "ns (upsert ix1 ?e) = (ns ix1)(q := Some ?e)" using ns_upsert[OF ix1(3) mv(1)] mv(2) lv by auto
    then show ?thesis unfolding ix1(2) using fun_cong[OF ix(2)] by (auto simp: fun_eq_iff)
  qed
  have s1: "store_ok d dsb (ns (upsert ix1 ?e)) (alloc_set (v_bitmap v)) R"
    unfolding up using moved_entry_file[of e q] file_ok_fields[of ?e e d dsb]
    by (intro store_move[OF so p _ q(1)]) auto
  show ?thesis
  proof (rule vol_append[OF vk room sz refl, of Rename 0 "fnv1a_64 p" "fnv1a_64 q" 0 ts])
    assume "on_log (append_full io Rename 0 (fnv1a_64 p) (fnv1a_64 q) 0 ?pl ts) (d, v) = (Err LogFull, d, v)" "\<not> log_room 1 (v_log v)"
    then show ?thesis by (rule full)
  next
    fix d' l'
    assume a: "on_log (append_full io Rename 0 (fnv1a_64 p) (fnv1a_64 q) 0 ?pl ts) (d, v) = (Ok (lg_next_lsn (v_log v)), d', v\<lparr>v_log := l'\<rparr>)"
      and fr: "\<And>b. dsb \<le> b \<Longrightarrow> blk d' b = blk d b" and n: "lg_next_lsn l' = lg_next_lsn (v_log v) + 1"
      and ck: "\<not> lg_next_lsn (v_log v) \<le> ck"
      and st: "\<And>ix' sn'. (\<And>iy. sim (v_index v) iy \<Longrightarrow>
           \<exists>iy'. replay_record ck (seal_record (record_header (lg_next_lsn (v_log v)) Rename 0 (fnv1a_64 p) (fnv1a_64 q) 0 ?pl ts) ?pl)
             ?pl (iy, sn) = (Ok (), iy', sn') \<and> sim ix' iy') \<Longrightarrow>
         store_ok d dsb (ns ix') (alloc_set (v_bitmap v)) R \<Longrightarrow> vol_ok rg dsb ck base R sn' (d', v\<lparr>v_log := l', v_index := ix'\<rparr>)"
    have vo: "vol_ok rg dsb ck base R sn (d', v\<lparr>v_log := l', v_index := upsert ix1 ?e\<rparr>)"
    proof (rule st[OF _ s1])
      fix iy assume s: "sim (v_index v) iy"
      from sim_ns[OF s p] obtain f where f: "ns iy p = Some f" "strip f = strip e" by blast
      have iv: "index_inv iy" using s by (simp add: sim_def)
      from sim_mark_deleted[OF sim_refl[OF iv] f(1)] obtain iy1 where
        iy1: "mark_deleted iy p = (Ok (), iy1)" "ns iy1 = (ns iy)(p := None)" "index_inv iy1" by blast
      let ?f = "moved_entry f q (lg_next_lsn (v_log v)) ts"
      have fw: "entry_wf f" "live f" using f(1) iv by (auto simp: ns_Some_iff index_inv_def entry_ok_def)
      note mf = moved_entry_ok[OF str_path_ok[OF q(1)] fw(1), of "lg_next_lsn (v_log v)" ts]
      have "ns (upsert iy1 ?f) = (ns iy)(p := None, q := Some ?f)"
        using ns_upsert[OF iy1(3) mf(1)] mf(2,3) fw(2) iy1(2) by auto
      moreover have "nsv (v_index v) = nsv iy" using s by (simp add: sim_def)
      ultimately have "nsv (upsert ix1 ?e) = nsv (upsert iy1 ?f)"
        using up strip_moved[OF f(2)] by (auto simp: nsv_def fun_eq_iff)
      then have "sim (upsert ix1 ?e) (upsert iy1 ?f)"
        using index_inv_upsert[OF ix1(3) mv(1)] index_inv_upsert[OF iy1(3) mf(1)] by (simp add: sim_def)
      moreover have "lookup iy p = Some f" using f(1) iv by (simp add: lookup_ns)
      ultimately show "\<exists>iy'. replay_record ck (seal_record (record_header (lg_next_lsn (v_log v)) Rename 0 (fnv1a_64 p) (fnv1a_64 q) 0 ?pl ts) ?pl)
             ?pl (iy, sn) = (Ok (), iy', sn) \<and> sim (upsert ix1 ?e) iy'"
        using replay_rename_record[OF sp q(1) ck refl] iy1(1) by simp
    qed
    show ?thesis by (rule ok[OF a ix1(1) vo up fr n])
  qed
qed

end

text \<open>The first byte of a character tells its length.\<close>

definition utf8_len :: "u8 \<Rightarrow> nat" where
  "utf8_len a = (if a < 0x80 then 1 else if 0xC2 \<le> a \<and> a \<le> 0xDF then 2 else if 0xE0 \<le> a \<and> a \<le> 0xEF then 3 else 4)"

lemma utf8_first:
  assumes "utf8_valid (a # r)"
  shows "utf8_len a \<le> length (a # r)" "utf8_valid (drop (utf8_len a) (a # r))"
proof -
  have "utf8_len a \<le> length (a # r) \<and> utf8_valid (drop (utf8_len a) (a # r))"
  proof (cases "a < 0x80")
    case True
    then show ?thesis using assms by (simp add: utf8_len_def)
  next
    case a: False
    note w = assms[unfolded utf8_valid.simps(2) if_not_P[OF a]]
    show ?thesis
    proof (cases "0xC2 \<le> a \<and> a \<le> 0xDF")
      case True
      then have "utf8_len a = 2" using a by (simp add: utf8_len_def)
      then show ?thesis using w[unfolded if_P[OF True]] by (auto simp del: utf8_valid.simps split: list.splits)
    next
      case c2: False
      note w2 = w[unfolded if_not_P[OF c2]]
      show ?thesis
      proof (cases "0xE0 \<le> a \<and> a \<le> 0xEF")
        case True
        then have "utf8_len a = 3" using a c2 by (simp add: utf8_len_def)
        then show ?thesis using w2[unfolded if_P[OF True]] by (auto simp del: utf8_valid.simps simp: numeral_3_eq_3 split: list.splits)
      next
        case e0: False
        then have "utf8_len a = 4" using a c2 by (auto simp: utf8_len_def)
        moreover have "0xF0 \<le> a \<and> a \<le> 0xF4" using w2[unfolded if_not_P[OF e0]] by (meson if_False)
        ultimately show ?thesis using w2[unfolded if_not_P[OF e0]]
          by (auto simp del: utf8_valid.simps simp: eval_nat_numeral split: list.splits)
      qed
    qed
  qed
  then show "utf8_len a \<le> length (a # r)" "utf8_valid (drop (utf8_len a) (a # r))" by auto
qed

lemma utf8_drop: "utf8_valid (a @ b) \<Longrightarrow> utf8_valid a \<Longrightarrow> utf8_valid b"
proof (induction a rule: measure_induct_rule[where f = length])
  case (less p)
  show ?case
  proof (cases p)
    case (Cons x r)
    note f = utf8_first[OF less.prems(2)[unfolded Cons]]
    have "drop (utf8_len x) (x # r @ b) = drop (utf8_len x) p @ b" using f(1) drop_append[of "utf8_len x" "x # r" b] by (simp add: Cons)
    then have "utf8_valid (drop (utf8_len x) p @ b)"
      using utf8_first(2)[of x "r @ b"] less.prems(1) by (simp only: Cons append.simps)
    moreover have "length (drop (utf8_len x) p) < length p" by (auto simp: Cons utf8_len_def)
    ultimately show ?thesis using less.IH f(2) Cons by blast
  qed (use less in simp)
qed

context partition
begin

lemma log_rename_one_ok:
  assumes vk: "vol_ok rg dsb ck base R sn (d, v)" and room: "lsn_room 1 (d, v)" and q: "str_path q" "p \<noteq> q"
  shows "log_rename_one io p q ts (d, v) = (Err NotFound, (d, v)) \<and> ns (v_index v) p = None \<or>
    log_rename_one io p q ts (d, v) = (Err LogFull, (d, v)) \<and> \<not> log_room 1 (v_log v) \<or>
    (\<exists>lsn d' v'. log_rename_one io p q ts (d, v) = (Ok lsn, (d', v')) \<and> vol_ok rg dsb ck base R sn (d', v') \<and>
       moved dsb p q (d, v) (d', v') \<and> v_bitmap v' = v_bitmap v)"
proof (cases "ns (v_index v) p")
  case None
  then show ?thesis using lookup_ns[OF vol_index_inv[OF vk]] by (simp add: log_rename_one_def)
next
  case (Some e)
  have ii: "index_inv (v_index v)" by (rule vol_index_inv[OF vk])
  have l: "lookup (v_index v) p = Some e" using Some ii by (simp add: lookup_ns)
  show ?thesis
  proof (rule rename_step[OF vk room Some q ii, of ts])
    show "ns (v_index v) = (ns (v_index v))(q := ns (v_index v) q)" by simp
  next
    assume "on_log (append_full io Rename 0 (fnv1a_64 p) (fnv1a_64 q) 0 (path_payload p @ path_payload q) ts) (d, v) = (Err LogFull, d, v)" "\<not> log_room 1 (v_log v)"
    then show ?thesis using l by (simp add: log_rename_one_def)
  next
    fix d' l' ix1
    let ?e = "moved_entry e q (lg_next_lsn (v_log v)) ts"
    let ?v = "v\<lparr>v_log := l', v_index := upsert ix1 ?e\<rparr>"
    assume a: "on_log (append_full io Rename 0 (fnv1a_64 p) (fnv1a_64 q) 0 (path_payload p @ path_payload q) ts) (d, v) =
        (Ok (lg_next_lsn (v_log v)), d', v\<lparr>v_log := l'\<rparr>)" "mark_deleted (v_index v) p = (Ok (), ix1)"
      and vo: "vol_ok rg dsb ck base R sn (d', ?v)" and nm: "ns (upsert ix1 ?e) = (ns (v_index v))(p := None, q := Some ?e)"
      and fr: "\<And>b. dsb \<le> b \<Longrightarrow> blk d' b = blk d b" and n: "lg_next_lsn l' = lg_next_lsn (v_log v) + 1"
    have "log_rename_one io p q ts (d, v) = (Ok (lg_next_lsn (v_log v)), (d', ?v))"
      using l a by (simp add: log_rename_one_def on_index_def)
    moreover have "moved dsb p q (d, v) (d', ?v)" using Some nm fr n by (auto simp: moved_def moved_entry_file)
    ultimately show ?thesis using vo by auto
  qed
qed

text \<open>Moving a file onto a path that does not exist.\<close>

lemma rename_file_ok:
  assumes vk: "vol_ok rg dsb ck base R sn (d, v)" and room: "lsn_room 1 (d, v)" and q: "str_path q"
    and src: "ns (v_index v) p = Some e" "\<not> has_flag e IS_DIR" and dst: "lookup_flex (v_index v) q = None"
  shows "(\<exists>e. rename io plba (of_nat dsb) dbs p q ts (d, v) = (Err e, (d, v)) \<and>
       (validate_path q = Err e \<or> e = LogFull \<and> \<not> log_room 1 (v_log v))) \<or>
    (\<exists>lsn d' v'. rename io plba (of_nat dsb) dbs p q ts (d, v) = (Ok lsn, (d', v')) \<and> vol_ok rg dsb ck base R sn (d', v') \<and>
       moved dsb p q (d, v) (d', v') \<and> v_bitmap v' = v_bitmap v)"
proof (cases "validate_path q = Ok ()")
  case False
  then show ?thesis using validate_path_cases[of q] by (auto simp: rename_def)
next
  case True
  have ii: "index_inv (v_index v)" by (rule vol_index_inv[OF vk])
  have "lookup (v_index v) q = None" using dst by (simp add: lookup_flex_def split: option.splits)
  then have pq: "p \<noteq> q" using src(1) ii by (auto simp: lookup_ns)
  have "lookup_flex (v_index v) p = Some e" using src(1) ii by (simp add: lookup_flex_def lookup_ns)
  then have "rename io plba (of_nat dsb) dbs p q ts (d, v) = log_rename_one io p q ts (d, v)"
    using True src(2) dst by (simp add: rename_def clobber_dest_def)
  then show ?thesis using log_rename_one_ok[OF vk room q pq, of ts] src(1) by auto
qed

lemma rename_all_ok:
  assumes "vol_ok rg dsb ck base R sn (d, v)" "lsn_room (length ms) (d, v)" "\<forall>(p, q)\<in>set ms. str_path q \<and> p \<noteq> q"
  shows "\<exists>r d' v'. rename_all io ts ms lsn (d, v) = (r, (d', v')) \<and> vol_ok rg dsb ck base R sn (d', v') \<and>
     ((\<exists>lsn. r = Ok lsn) \<or> r = Err NotFound \<or> r = Err LogFull) \<and> v_bitmap v' = v_bitmap v \<and> vol.more v' = vol.more v \<and>
     (\<forall>b\<ge>dsb. blk d' b = blk d b) \<and> unat (lg_next_lsn (v_log v')) \<le> unat (lg_next_lsn (v_log v)) + length ms"
  using assms
proof (induction ms arbitrary: lsn d v)
  case (Cons m ms)
  obtain p q where m: "m = (p, q)" by (cases m)
  have pq: "str_path q" "p \<noteq> q" using Cons.prems(3) m by auto
  have r1: "lsn_room 1 (d, v)" using Cons.prems(2) by (simp add: lsn_room_def)
  from log_rename_one_ok[OF Cons.prems(1) r1 pq, of ts] consider
    (err) e where "log_rename_one io p q ts (d, v) = (Err e, (d, v))" "e = NotFound \<or> e = LogFull"
    | (ok) l d1 v1 where "log_rename_one io p q ts (d, v) = (Ok l, (d1, v1))" "vol_ok rg dsb ck base R sn (d1, v1)"
        "moved dsb p q (d, v) (d1, v1)" "v_bitmap v1 = v_bitmap v" by auto
  then show ?case
  proof cases
    case err
    then show ?thesis using Cons.prems(1) m by auto
  next
    case ok
    have nx: "unat (lg_next_lsn (v_log v1)) \<le> unat (lg_next_lsn (v_log v)) + 1" "vol.more v1 = vol.more v" "\<forall>b\<ge>dsb. blk d1 b = blk d b"
      using ok(3) by (auto simp: moved_def unat_word_ariths)
    have "lsn_room (length ms) (d1, v1)" using Cons.prems(2) nx(1) by (simp add: lsn_room_def)
    moreover have "\<forall>(p, q)\<in>set ms. str_path q \<and> p \<noteq> q" using Cons.prems(3) by simp
    ultimately have "\<exists>r d' v'. rename_all io ts ms l (d1, v1) = (r, (d', v')) \<and> vol_ok rg dsb ck base R sn (d', v') \<and>
       ((\<exists>lsn. r = Ok lsn) \<or> r = Err NotFound \<or> r = Err LogFull) \<and> v_bitmap v' = v_bitmap v1 \<and> vol.more v' = vol.more v1 \<and>
       (\<forall>b\<ge>dsb. blk d' b = blk d1 b) \<and> unat (lg_next_lsn (v_log v')) \<le> unat (lg_next_lsn (v_log v1)) + length ms"
      by (rule Cons.IH[OF ok(2)])
    then show ?thesis using ok(1,4) nx m by auto
  qed
qed auto

lemma collect_moves_ok:
  assumes "collect_moves old new es = Ok ms" "\<forall>e\<in>set es. live e \<longrightarrow> str_path (epath e)" "utf8_valid old" "str_path new" "old \<noteq> new"
  shows "\<forall>(p, q)\<in>set ms. str_path q \<and> p \<noteq> q"
  using assms(1,2)
proof (induction es arbitrary: ms)
  case (Cons e es)
  note IH = Cons.IH[OF _ ballI]
  show ?case
  proof (cases "has_flag e IS_DELETED \<or> \<not> starts_with (path_str (e_path e)) old")
    case True
    then have "collect_moves old new es = Ok ms" using Cons.prems(1) by (auto simp: Let_def split: if_splits)
    then show ?thesis using Cons.IH Cons.prems(2) by simp
  next
    case False
    let ?p = "path_str (e_path e)"
    have sp: "str_path (epath e)" using False Cons.prems(2) by simp
    then have p: "?p = epath e" by (simp add: path_str_def str_path_def Let_def)
    let ?q = "new @ drop (length old) ?p"
    from Cons.prems(1) False obtain ms' where ms: "ms = (?p, ?q) # ms'" "collect_moves old new es = Ok ms'" "length ?q \<le> MAX_PATH_LEN"
      by (auto simp: Let_def res_bind_def split: if_splits result.splits)
    have pd: "?p = old @ drop (length old) ?p" using False by (auto simp: starts_with_def) (metis append_take_drop_id)
    have "utf8_valid (drop (length old) ?p)" using utf8_drop[of old "drop (length old) ?p"] pd sp assms(3) p by (simp add: str_path_def)
    moreover have "0 \<notin> set (drop (length old) ?p)" using sp p by (auto simp: str_path_def dest: in_set_dropD)
    ultimately have "str_path ?q" using assms(4) ms(3) utf8_append by (auto simp: str_path_def)
    moreover have "?p \<noteq> ?q" using pd assms(5) by (metis append_same_eq)
    ultimately show ?thesis using ms Cons.IH[OF ms(2)] Cons.prems(2) by auto
  qed
qed simp

lemma collect_moves_total:
  "(\<exists>ms. collect_moves old new es = Ok ms \<and> length ms \<le> length es) \<or> (\<exists>e. collect_moves old new es = Err e)"
  by (induction es) (auto simp: Let_def res_bind_def)

text \<open>Moving a directory with everything below it.\<close>

lemma rename_dir_ok:
  assumes vk: "vol_ok rg dsb ck base R sn (d, v)" and room: "lsn_room (length (v_index v)) (d, v)" and p: "str_path p" "str_path q"
  shows "\<exists>r d' v'. rename_dir io p q ts (d, v) = (r, (d', v')) \<and> vol_ok rg dsb ck base R sn (d', v') \<and>
     ((\<exists>lsn. r = Ok lsn) \<or> (\<exists>e. r = Err e)) \<and> v_bitmap v' = v_bitmap v \<and> vol.more v' = vol.more v \<and>
     (\<forall>b\<ge>dsb. blk d' b = blk d b) \<and> unat (lg_next_lsn (v_log v')) \<le> unat (lg_next_lsn (v_log v)) + length (v_index v)"
proof -
  let ?o = "dir_prefix p"
  let ?n = "dir_prefix q"
  have so: "store_ok d dsb (ns (v_index v)) (alloc_set (v_bitmap v)) R" using vk by (auto simp: vol_ok_def vol_shape_def)
  have ii: "index_inv (v_index v)" by (rule vol_index_inv[OF vk])
  have live: "\<forall>e\<in>set (v_index v). live e \<longrightarrow> str_path (epath e)"
    using store_okD(3)[OF so] ii by (auto simp: ns_Some_iff)
  have uo: "utf8_valid ?o" using p(1) utf8_append[of "[SLASH]" p] by (simp add: dir_prefix_def str_path_def)
  consider (err) e where "rename_dir io p q ts (d, v) = (Err e, (d, v))"
    | (go) ms where "rename_dir io p q ts (d, v) = rename_all io ts ms 0 (d, v)" "length ?n \<le> MAX_PATH_LEN" "\<not> starts_with ?n ?o"
        "collect_moves ?o ?n (v_index v) = Ok ms" "length ms \<le> length (v_index v)"
  proof (cases "length ?n \<le> MAX_PATH_LEN \<and> \<not> starts_with ?n ?o \<and> lookup (v_index v) ?n = None")
    case True
    then show ?thesis using collect_moves_total[of ?o ?n "v_index v"] that by (auto simp: rename_dir_def)
  next
    case False
    then have "\<exists>e. rename_dir io p q ts (d, v) = (Err e, (d, v))" by (auto simp: rename_dir_def Let_def)
    then show ?thesis using that(1) by blast
  qed
  then show ?thesis
  proof cases
    case err
    then show ?thesis using vk by auto
  next
    case go
    have un: "str_path ?n" using p(2) go(2) utf8_append[of "[SLASH]" q] by (auto simp: dir_prefix_def str_path_def split: if_splits)
    have "?o \<noteq> ?n" using go(3) by (auto simp: starts_with_def)
    from collect_moves_ok[OF go(4) live uo un this] have ms: "\<forall>(p, q)\<in>set ms. str_path q \<and> p \<noteq> q" .
    have "lsn_room (length ms) (d, v)" using room go(5) by (simp add: lsn_room_def)
    from rename_all_ok[OF vk this ms, of ts 0] obtain r d' v' where
      r: "rename_all io ts ms 0 (d, v) = (r, (d', v'))" "vol_ok rg dsb ck base R sn (d', v')" "(\<exists>lsn. r = Ok lsn) \<or> r = Err NotFound \<or> r = Err LogFull"
        "v_bitmap v' = v_bitmap v" "vol.more v' = vol.more v" "\<forall>b\<ge>dsb. blk d' b = blk d b"
        "unat (lg_next_lsn (v_log v')) \<le> unat (lg_next_lsn (v_log v)) + length ms" by blast
    have "unat (lg_next_lsn (v_log v')) \<le> unat (lg_next_lsn (v_log v)) + length (v_index v)" using r(7) go(5) by simp
    then show ?thesis using r go(1) by auto
  qed
qed

end

end
