(* ===== verification/Helix_Calls.thy ===== *)
theory Helix_Calls
  imports Helix_Files
begin

text \<open>
  Calls on a volume as their user sees them: what \<open>read_file\<close> returns before and after a write, an
  \<open>unlink\<close> or a \<open>rename\<close>, and the volume invariant over sequences of calls.
\<close>

subsection \<open>Reading through the invariant\<close>

context partition
begin

lemma read_iff:
  assumes vk: "vol_ok rg dsb ck base R sn (d, v)"
  shows "fst (read_file io (v_index v) plba (of_nat dsb) dbs q d) = Ok x \<longleftrightarrow> (\<exists>e. ns (v_index v) q = Some e \<and> file_ok d dsb e x)"
proof -
  have ii: "index_inv (v_index v)" by (rule vol_index_inv[OF vk])
  have so: "good d" "store_ok d dsb (ns (v_index v)) (alloc_set (v_bitmap v)) R" using vk by (auto simp: vol_ok_def vol_shape_def)
  show ?thesis
  proof (cases "ns (v_index v) q")
    case None
    then show ?thesis using ii by (simp add: read_file_def lookup_ns)
  next
    case (Some e)
    show ?thesis
    proof (cases "has_flag e IS_DIR")
      case True
      then show ?thesis using Some ii by (simp add: read_file_def lookup_ns file_ok_def)
    next
      case False
      then obtain y where y: "file_ok d dsb e y" using store_okD(2)[OF so(2) Some] by blast
      from read_file_ok[OF so(1) ii Some y] have r: "fst (read_file io (v_index v) plba (of_nat dsb) dbs q d) = Ok y" by auto
      have "z = y" if "file_ok d dsb e z" for z
        using read_file_ok[OF so(1) ii Some that] r by auto
      then have "Ok y = Ok x \<longleftrightarrow> file_ok d dsb e x" using y by blast
      then show ?thesis using Some by (simp add: r)
    qed
  qed
qed

lemma read_frame:
  assumes vk: "vol_ok rg dsb ck base R sn (d, v)" "vol_ok rg dsb ck' base' R' sn' (d', v')"
    and q: "ns (v_index v') q = ns (v_index v) q" and fr: "\<And>b. b \<in> alloc_set (v_bitmap v) \<Longrightarrow> blk d' (dsb + b) = blk d (dsb + b)"
    and r: "fst (read_file io (v_index v) plba (of_nat dsb) dbs q d) = Ok x"
  shows "fst (read_file io (v_index v') plba (of_nat dsb) dbs q d') = Ok x"
proof -
  have so: "store_ok d dsb (ns (v_index v)) (alloc_set (v_bitmap v)) R" using vk by (auto simp: vol_ok_def vol_shape_def)
  from r read_iff[OF vk(1)] obtain e where e: "ns (v_index v) q = Some e" "file_ok d dsb e x" by blast
  have "file_ok d' dsb e x" by (rule entry_frame(2)[OF so e(1) fr e(2)])
  then show ?thesis using e(1) q read_iff[OF vk(2)] by auto
qed

lemma write_isolated:
  assumes vk: "vol_ok rg dsb ck base R sn (d, v)" and room: "lsn_room (length p + 1) (d, v)" and p: "str_path p" and len: "length data < U64"
    and w: "write_file io plba dbs (of_nat dsb) p data ts (d, v) = (r, (d', v'))"
    and q: "q \<noteq> p \<or> (\<exists>e. r = Err e)" and x: "fst (read_file io (v_index v) plba (of_nat dsb) dbs q d) = Ok x"
  shows "fst (read_file io (v_index v') plba (of_nat dsb) dbs q d') = Ok x"
proof -
  from write_file_ok[OF vk room p len, of ts] w have
    k: "vol_ok rg dsb ck base R sn (d', v')" "keeps dsb (length p + 1) (d, v) (d', v')" "file_res dsb p data (d, v) r (d', v')" by auto
  from x read_iff[OF vk] obtain e where e: "ns (v_index v) q = Some e" "file_ok d dsb e x" by blast
  have "ns (v_index v') q = ns (v_index v) q"
  proof (cases r)
    case (Ok lsn)
    then obtain m f where m: "adds_dirs (ns (v_index v)) m" "ns (v_index v') = m(p := Some f)" using k(3) by (auto simp: file_res_def)
    then show ?thesis using adds_dirs_keeps[OF m(1) e(1)] e(1) q Ok by simp
  next
    case (Err er)
    then have "adds_dirs (ns (v_index v)) (ns (v_index v'))" using k(3) by (auto simp: file_res_def)
    from adds_dirs_keeps[OF this e(1)] e(1) show ?thesis by simp
  qed (use k(3) in \<open>auto simp: file_res_def\<close>)
  then show ?thesis using k(2) by (intro read_frame[OF vk k(1) _ _ x]) (auto simp: keeps_def)
qed

end

context partition
begin

lemma write_file_exhausts:
  assumes vk: "vol_ok rg dsb ck base R sn (d, v)" and room: "lsn_room (length p + 1) (d, v)" and p: "str_path p"
    and go: "validate_path p = Ok ()" "\<not> ends_with_slash p" "\<forall>f. lookup_flex (v_index v) p = Some f \<longrightarrow> \<not> has_flag f IS_DIR"
    and lr: "log_room (length p) (v_log v)" and big: "INLINE_DATA_SIZE < length data" "bm_free (v_bitmap v) < div_ceil (length data) 4096"
  shows "\<exists>d' v'. write_file io plba dbs (of_nat dsb) p data ts (d, v) = (Err NoSpace, (d', v')) \<and> bm_free (v_bitmap v') = 0"
proof -
  have room': "lsn_room (length p) (d, v)" using room by (auto simp: lsn_room_def)
  from ensure_parent_dirs_ok[OF vk room' p, of ts] lr obtain d1 v1 where
    e: "ensure_parent_dirs io p ts (d, v) = (Ok (), (d1, v1))" "vol_ok rg dsb ck base R sn (d1, v1)"
      "meta_step dsb (length p) (d, v) (d1, v1)" by auto
  have bm: "v_bitmap v1 = v_bitmap v" using e(3) by (simp add: meta_step_def)
  have inv: "bitmap_inv (v_bitmap v)" "bm_total (v_bitmap v) < U32" using vk by (auto simp: vol_ok_def vol_shape_def)
  let ?n = "div_ceil (length data) 4096"
  from alloc_extents_ok[OF runs_ok_start[OF inv(1)] inv(2), of ?n] big(2) obtain bm' where
    x: "alloc_extents ?n 0 [] (v_bitmap v) = (Err NoSpace, bm')" "bm_free bm' = 0" by auto
  have ac: "alloc_contiguous ?n (v_bitmap v) = (Err NoSpace, v_bitmap v)"
    using big(2) by (auto simp: alloc_contiguous_def)
  have dir: "\<not> (case lookup_flex (v_index v) p of Some existing \<Rightarrow> has_flag existing IS_DIR | None \<Rightarrow> False)"
    using go(3) by (auto split: option.splits)
  have self: "v1\<lparr>v_bitmap := v_bitmap v\<rparr> = v1" unfolding bm[symmetric] by simp
  have "write_file io plba dbs (of_nat dsb) p data ts (d, v) = write_file_fragmented io plba dbs (of_nat dsb) p data ts (d1, v1)"
    using go(1,2) big(1) e(1) ac by (simp add: write_file_def dir on_bitmap_def bm self)
  also have "\<dots> = (Err NoSpace, (d1, v1\<lparr>v_bitmap := bm'\<rparr>))" using x(1) bm by (simp add: write_file_fragmented_def on_bitmap_def)
  finally show ?thesis using x(2) by auto
qed

lemma not_found: "index_inv ix \<Longrightarrow> ns ix p = None \<Longrightarrow> fst (read_file io ix plba dsb' dbs p d) = Err NotFound"
  by (simp add: read_file_def lookup_ns)

lemma clobber_ok:
  assumes vk: "vol_ok rg dsb ck base R sn (d, v)" and q: "ns (v_index v) q = Some e" "\<not> has_flag e IS_DIR"
  obtains d' bm' ix' where "clobber_dest io plba (of_nat dsb) dbs q (d, v) = (Ok (), (d', v\<lparr>v_bitmap := bm', v_index := ix'\<rparr>))"
    "index_inv ix'" "ns ix' = (ns (v_index v))(q := None)" "alloc_set bm' = alloc_set (v_bitmap v) - owned d dsb e"
proof -
  have ii: "index_inv (v_index v)" by (rule vol_index_inv[OF vk])
  have sh: "good d" "bitmap_inv (v_bitmap v)" "store_ok d dsb (ns (v_index v)) (alloc_set (v_bitmap v)) R"
    using vk by (auto simp: vol_ok_def vol_shape_def)
  have l: "lookup_flex (v_index v) q = Some e" using q(1) ii by (simp add: lookup_flex_def lookup_ns)
  from sim_mark_deleted[OF sim_refl[OF ii] q(1)] obtain ix' where
    ix': "mark_deleted (v_index v) q = (Ok (), ix')" "ns ix' = (ns (v_index v))(q := None)" "index_inv ix'" by blast
  obtain x where fo: "file_ok d dsb e x" using store_okD(2)[OF sh(3) q(1)] q(2) by blast
  show ?thesis
  proof (cases "has_flag e IS_INLINE")
    case True
    then have "owned d dsb e = {}" by (simp add: owned_def)
    then have "alloc_set (v_bitmap v) = alloc_set (v_bitmap v) - owned d dsb e" by simp
    moreover have "clobber_dest io plba (of_nat dsb) dbs q (d, v) = (Ok (), (d, v\<lparr>v_bitmap := v_bitmap v, v_index := ix'\<rparr>))"
      using l q(2) True ix' by (simp add: clobber_dest_def on_index_def)
    ultimately show ?thesis using that ix'(2,3) by blast
  next
    case False
    have "owned d dsb e \<subseteq> alloc_set (v_bitmap v)" using store_okD(1)[OF sh(3) q(1)] by blast
    from free_file_blocks_ok[OF sh(1) fo sh(2) False this] obtain d' bm' where
      f: "free_file_blocks io plba (of_nat dsb) dbs (e_extent_root e) (e_size e) (has_flag e IS_EXTENT_NODE) (d, v_bitmap v) = (Ok (), (d', bm'))"
        "alloc_set bm' = alloc_set (v_bitmap v) - owned d dsb e" by blast
    have "clobber_dest io plba (of_nat dsb) dbs q (d, v) = (Ok (), (d', v\<lparr>v_bitmap := bm', v_index := ix'\<rparr>))"
      using l q(2) False ix' f(1) by (simp add: clobber_dest_def on_index_def on_dev_bitmap_def)
    then show ?thesis using that ix' f(2) by blast
  qed
qed

lemma rename_self_ok:
  assumes vk: "vol_ok rg dsb ck base R sn (d, v)" and q: "ns (v_index v) q = Some e" "\<not> has_flag e IS_DIR" "validate_path q = Ok ()"
  shows "\<exists>d' v'. rename io plba (of_nat dsb) dbs q q ts (d, v) = (Err NotFound, (d', v')) \<and> v_log v' = v_log v \<and>
    ns (v_index v') = (ns (v_index v))(q := None) \<and> alloc_set (v_bitmap v') = alloc_set (v_bitmap v) - owned d dsb e"
proof -
  from clobber_ok[OF vk q(1,2)] obtain d' bm' ix' where
    c: "clobber_dest io plba (of_nat dsb) dbs q (d, v) = (Ok (), (d', v\<lparr>v_bitmap := bm', v_index := ix'\<rparr>))"
      "index_inv ix'" "ns ix' = (ns (v_index v))(q := None)" "alloc_set bm' = alloc_set (v_bitmap v) - owned d dsb e" .
  have "lookup_flex (v_index v) q = Some e" using q(1) vol_index_inv[OF vk] by (simp add: lookup_flex_def lookup_ns)
  moreover have "lookup ix' q = None" using c(2,3) by (simp add: lookup_ns)
  ultimately have "rename io plba (of_nat dsb) dbs q q ts (d, v) = (Err NotFound, (d', v\<lparr>v_bitmap := bm', v_index := ix'\<rparr>))"
    using q(2,3) c(1) by (simp add: rename_def log_rename_one_def)
  then show ?thesis using c by auto
qed

lemma unlink_reads:
  assumes vk: "vol_ok rg dsb ck base R sn (d, v)" and room: "lsn_room 1 (d, v)" and lr: "log_room 1 (v_log v)"
    and x: "fst (read_file io (v_index v) plba (of_nat dsb) dbs p d) = Ok x"
  obtains lsn d' v' e where "unlink io plba (of_nat dsb) dbs p ts (d, v) = (Ok lsn, (d', v'))" "vol_ok rg dsb ck base R sn (d', v')"
    "ns (v_index v) p = Some e" "alloc_set (v_bitmap v') = alloc_set (v_bitmap v) - owned d dsb e"
    "fst (read_file io (v_index v') plba (of_nat dsb) dbs p d') = Err NotFound"
    "\<And>q y. q \<noteq> p \<Longrightarrow> fst (read_file io (v_index v) plba (of_nat dsb) dbs q d) = Ok y \<Longrightarrow>
       fst (read_file io (v_index v') plba (of_nat dsb) dbs q d') = Ok y"
proof -
  have ii: "index_inv (v_index v)" by (rule vol_index_inv[OF vk])
  from x read_iff[OF vk] obtain e where e: "ns (v_index v) p = Some e" "file_ok d dsb e x" by blast
  have lf: "lookup_flex (v_index v) p = Some e" "flex_path (v_index v) p = p"
    using e(1) ii by (simp_all add: lookup_flex_def flex_path_def lookup_ns)
  have nd: "\<not> has_flag e IS_DIR" using e(2) by (simp add: file_ok_def)
  from unlink_ok[OF vk room, of p ts] lf lr nd obtain lsn d' v' where
    u: "unlink io plba (of_nat dsb) dbs p ts (d, v) = (Ok lsn, (d', v'))" "vol_ok rg dsb ck base R sn (d', v')"
      "unlinked dsb p (d, v) (d', v')" by auto
  have un: "ns (v_index v') = (ns (v_index v))(p := None)" "alloc_set (v_bitmap v') = alloc_set (v_bitmap v) - owned d dsb e"
    "\<forall>b\<ge>dsb. blk d' b = blk d b" using u(3) e(1) by (auto simp: unlinked_def)
  show ?thesis
  proof (rule that[OF u(1,2) e(1) un(2)])
    show "fst (read_file io (v_index v') plba (of_nat dsb) dbs p d') = Err NotFound"
      by (rule not_found[OF vol_index_inv[OF u(2)]]) (simp add: un(1))
    show "fst (read_file io (v_index v') plba (of_nat dsb) dbs q d') = Ok y"
      if "q \<noteq> p" "fst (read_file io (v_index v) plba (of_nat dsb) dbs q d) = Ok y" for q y
      using that un by (intro read_frame[OF vk u(2) _ _ that(2)]) auto
  qed
qed

lemma rename_reads:
  assumes vk: "vol_ok rg dsb ck base R sn (d, v)" and room: "lsn_room 1 (d, v)" and lr: "log_room 1 (v_log v)"
    and q: "str_path q" "validate_path q = Ok ()" "lookup_flex (v_index v) q = None"
    and x: "fst (read_file io (v_index v) plba (of_nat dsb) dbs p d) = Ok x"
  obtains lsn d' v' where "rename io plba (of_nat dsb) dbs p q ts (d, v) = (Ok lsn, (d', v'))" "vol_ok rg dsb ck base R sn (d', v')"
    "fst (read_file io (v_index v') plba (of_nat dsb) dbs q d') = Ok x" "fst (read_file io (v_index v') plba (of_nat dsb) dbs p d') = Err NotFound"
    "\<And>r y. r \<noteq> p \<Longrightarrow> fst (read_file io (v_index v) plba (of_nat dsb) dbs r d) = Ok y \<Longrightarrow>
       fst (read_file io (v_index v') plba (of_nat dsb) dbs r d') = Ok y"
proof -
  have ii: "index_inv (v_index v)" by (rule vol_index_inv[OF vk])
  have so: "store_ok d dsb (ns (v_index v)) (alloc_set (v_bitmap v)) R" using vk by (auto simp: vol_ok_def vol_shape_def)
  from x read_iff[OF vk] obtain e where e: "ns (v_index v) p = Some e" "file_ok d dsb e x" by blast
  have nd: "\<not> has_flag e IS_DIR" using e(2) by (simp add: file_ok_def)
  from rename_file_ok[OF vk room q(1) e(1) nd q(3), of ts] q(2) lr obtain lsn d' v' where
    u: "rename io plba (of_nat dsb) dbs p q ts (d, v) = (Ok lsn, (d', v'))" "vol_ok rg dsb ck base R sn (d', v')"
      "moved dsb p q (d, v) (d', v')" by auto
  from u(3) e(1) obtain e' where m: "ns (v_index v') = (ns (v_index v))(p := None, q := Some e')"
    "e_flags e' = e_flags e" "e_size e' = e_size e" "e_extent_root e' = e_extent_root e" "e_inline_data e' = e_inline_data e"
    "\<forall>b\<ge>dsb. blk d' b = blk d b" by (auto simp: moved_def)
  have qn: "ns (v_index v) q = None" using q(3) ii by (auto simp: lookup_flex_def lookup_ns split: option.splits)
  then have pq: "p \<noteq> q" using e(1) by auto
  have b: "b \<in> alloc_set (v_bitmap v) \<Longrightarrow> blk d' (dsb + b) = blk d (dsb + b)" for b using m(6) by simp
  show ?thesis
  proof (rule that[OF u(1,2)])
    have "file_ok d' dsb e' x" using entry_frame(2)[OF so e(1) b e(2)] file_ok_fields(1)[OF m(2-5)] by simp
    then show "fst (read_file io (v_index v') plba (of_nat dsb) dbs q d') = Ok x" using read_iff[OF u(2)] m(1) by simp
    show "fst (read_file io (v_index v') plba (of_nat dsb) dbs p d') = Err NotFound"
      by (rule not_found[OF vol_index_inv[OF u(2)]]) (use m(1) pq in simp)
    show "fst (read_file io (v_index v') plba (of_nat dsb) dbs r d') = Ok y"
      if "r \<noteq> p" "fst (read_file io (v_index v) plba (of_nat dsb) dbs r d) = Ok y" for r y
    proof (rule read_frame[OF vk u(2) _ b that(2)])
      have "r \<noteq> q" using that(2) not_found[OF ii qn, of "of_nat dsb" d] by auto
      then show "ns (v_index v') r = ns (v_index v) r" using m(1) that(1) by simp
    qed
  qed
qed

end

subsection \<open>A volume to evaluate the definitions on\<close>

definition demo_vol :: vol where
  "demo_vol = \<lparr>v_log = demo_log, v_index = [], v_bitmap = bitmap_new 500\<rparr>"

lemma demo_vol_ok: "mempart.vol_ok 0 512 1024 (2, 514, 2, 500) 514 0 [] {} [] (demo_dev, demo_vol)"
proof -
  have st: "mempart.log_state 0 512 1024 demo_dev demo_log []"
    unfolding mempart.log_state_def using demo_log_ok demo_log_rep by (intro conjI exI[of _ "[[]]"]) auto
  have "bitmap_inv (bitmap_new 500)" "bm_total (bitmap_new 500) = 500" by (simp_all add: bitmap_inv_new) (simp add: bitmap_new_def)
  then have "mempart.vol_shape 0 512 1024 (2, 514, 2, 500) 514 {} demo_dev demo_vol"
    using demo_good by (auto simp: mempart.vol_shape_def demo_vol_def mempart.store_ok_def ns_def seg_base_def demo_log_def)
  moreover have "mempart.vol_log 0 512 1024 0 [] demo_dev demo_vol []"
    by (rule mempart.vol_logI[where rs = "[]" and iy = "[]"]) (use st sim_refl[OF index_inv_Nil] in \<open>simp_all add: demo_vol_def demo_log_def\<close>)
  ultimately show ?thesis by (simp add: mempart.vol_ok_def)
qed

lemma demo_path: "str_path [SLASH, 97]" "validate_path [SLASH, 97] = Ok ()" "\<not> ends_with_slash [SLASH, 97]"
  by (simp_all add: str_path_def validate_path_def ends_with_slash_def)

lemma demo_lookup: "lookup (v_index demo_vol) p = None" "lookup_flex (v_index demo_vol) p = None"
  using lookup_ns[OF index_inv_Nil] by (simp_all add: demo_vol_def lookup_flex_def ns_def)

lemma demo_room: "n < 1000 \<Longrightarrow> mempart.lsn_room n (demo_dev, demo_vol)" "n \<le> 200 \<Longrightarrow> mempart.log_room n (v_log demo_vol)"
  by (simp_all add: mempart.lsn_room_def mempart.log_room_def demo_vol_def demo_log_def)

lemma demo_written:
  obtains lsn d1 v1 where "write_file mem_io 0 512 514 [SLASH, 97] [1, 2, 3] 7 (demo_dev, demo_vol) = (Ok lsn, (d1, v1))"
    "mempart.vol_ok 0 512 1024 (2, 514, 2, 500) 514 0 [] {} [] (d1, v1)" "fst (read_file mem_io (v_index v1) 0 (of_nat 514) 512 [SLASH, 97] d1) = Ok [1, 2, 3]"
    "mempart.lsn_room 900 (d1, v1)" "mempart.log_room 100 (v_log v1)" "\<And>q. ns (v_index v1) q \<noteq> None \<Longrightarrow> q = [SLASH, 97]"
proof -
  have room: "mempart.lsn_room 1 (demo_dev, demo_vol)" "mempart.log_room (1 + 100) (v_log demo_vol)" "mempart.log_room 1 (v_log demo_vol)"
    by (rule demo_room; simp)+
  have "length [1, 2, 3 :: u8] \<le> INLINE_DATA_SIZE" by simp
  from mempart.write_inline_ok[OF demo_vol_ok room(1) demo_path(1) this, of 7] obtain r d1 v1 where
    w: "write_inline mem_io [SLASH, 97] [1, 2, 3] 7 (demo_dev, demo_vol) = (r, (d1, v1))"
      "mempart.vol_ok 0 512 1024 (2, 514, 2, 500) 514 0 [] {} [] (d1, v1)" "mempart.keeps 0 512 514 1 (demo_dev, demo_vol) (d1, v1)"
      "mempart.write_res 0 512 1024 514 [SLASH, 97] [1, 2, 3] (demo_dev, demo_vol) r (d1, v1)" by auto
  have wf: "write_file mem_io 0 512 514 [SLASH, 97] [1, 2, 3] 7 (demo_dev, demo_vol) = (r, (d1, v1))"
    using w(1) demo_path demo_lookup by (simp add: write_file_def ensure_parent_dirs_def)
  have "\<not> (\<exists>e. r = Err e)" using w(4) room(3) by (auto simp: mempart.write_res_def)
  then obtain lsn e where r: "r = Ok lsn" and m: "ns (v_index v1) = (ns (v_index demo_vol))([SLASH, 97] := Some e)"
    and f: "mempart.file_ok 0 512 1024 d1 514 e [1, 2, 3]"
    using w(4) by (cases r) (auto simp: mempart.write_res_def mempart.wrote_def)
  show ?thesis
  proof (rule that[OF wf[unfolded r] w(2)])
    show "fst (read_file mem_io (v_index v1) 0 (of_nat 514) 512 [SLASH, 97] d1) = Ok [1, 2, 3]"
      using f m mempart.read_iff[OF w(2)] by auto
    show "mempart.lsn_room 900 (d1, v1)" using w(3) by (simp add: mempart.lsn_room_def mempart.keeps_def demo_vol_def demo_log_def)
    show "mempart.log_room 100 (v_log v1)" using w(3) room(2) unfolding mempart.keeps_def by blast
    show "q = [SLASH, 97]" if "ns (v_index v1) q \<noteq> None" for q
      using that m by (auto simp: demo_vol_def ns_def split: if_splits)
  qed
qed

subsection \<open>Sequences of operations\<close>

text \<open>
  One call on a mounted volume, whatever it returns. A rename is considered when its source
  exists under the given name and its target does not. The LSN guards say that the 64-bit
  counter does not wrap.
\<close>

inductive vol_step :: "u64 \<Rightarrow> u32 \<Rightarrow> nat \<Rightarrow> mem_block_device \<times> 'a vol_scheme \<Rightarrow> mem_block_device \<times> 'a vol_scheme \<Rightarrow> bool" for plba dbs dsb where
  wr: "write_file mem_io plba dbs (of_nat dsb) p data ts s = (r, s') \<Longrightarrow> str_path p \<Longrightarrow> length data < U64 \<Longrightarrow>
    mempart.lsn_room (length p + 1) s \<Longrightarrow> vol_step plba dbs dsb s s'"
| mk: "mkdir mem_io p ts s = (r, s') \<Longrightarrow> str_path p \<Longrightarrow> mempart.lsn_room (length p + 2) s \<Longrightarrow> vol_step plba dbs dsb s s'"
| rm: "unlink mem_io plba (of_nat dsb) dbs p ts s = (r, s') \<Longrightarrow> mempart.lsn_room 1 s \<Longrightarrow> vol_step plba dbs dsb s s'"
| mv: "rename mem_io plba (of_nat dsb) dbs p q ts s = (r, s') \<Longrightarrow> str_path p \<Longrightarrow> str_path q \<Longrightarrow> lookup_flex (v_index (snd s)) q = None \<Longrightarrow>
    ns (v_index (snd s)) p \<noteq> None \<or> (\<exists>e. lookup_flex (v_index (snd s)) p = Some e \<and> has_flag e IS_DIR) \<Longrightarrow>
    mempart.lsn_room (length (v_index (snd s)) + 1) s \<Longrightarrow> vol_step plba dbs dsb s s'"
| rd: "read_file mem_io (v_index v) plba (of_nat dsb) dbs p d = (Ok x, d') \<Longrightarrow> vol_step plba dbs dsb (d, v) (d', v)"

lemma vol_step_inv:
  assumes "vol_step plba dbs dsb s s'" "mempart.vol_ok plba dbs nb rg dsb ck base R sn s"
  shows "mempart.vol_ok plba dbs nb rg dsb ck base R sn s'"
  using assms
proof (cases rule: vol_step.cases)
  case (wr p data ts r)
  obtain d v where s: "s = (d, v)" by (cases s)
  show ?thesis using mempart.write_file_ok[of plba dbs nb rg dsb ck base R sn d v p data ts] wr assms(2) by (auto simp: s)
next
  case (mk p ts r)
  obtain d v where s: "s = (d, v)" by (cases s)
  show ?thesis using mempart.mkdir_ok[of plba dbs nb rg dsb ck base R sn d v p _ ts, OF _ _ _ refl] mk assms(2) by (auto simp: s)
next
  case (rm p ts r)
  obtain d v where s: "s = (d, v)" by (cases s)
  show ?thesis using mempart.unlink_ok[of plba dbs nb rg dsb ck base R sn d v p ts] rm assms(2) by (auto simp: s)
next
  case (mv p q ts r)
  obtain d v where s: "s = (d, v)" by (cases s)
  have ii: "index_inv (v_index v)" using assms(2) by (simp only: s) (rule mempart.vol_index_inv)
  have room: "mempart.lsn_room 1 (d, v)" "mempart.lsn_room (length (v_index v)) (d, v)" using mv(6) by (auto simp: s mempart.lsn_room_def)
  show ?thesis
  proof (cases "\<exists>e. lookup_flex (v_index v) p = Some e \<and> has_flag e IS_DIR")
    case True
    show ?thesis
    proof (cases "validate_path q = Ok ()")
      case v: True
      with True mv(1) have "rename_dir mem_io p q ts (d, v) = (r, s')" by (auto simp: s rename_def)
      then show ?thesis using mempart.rename_dir_ok[OF assms(2)[unfolded s] room(2) mv(2,3), of ts] by auto
    qed (use mv(1) assms(2) validate_path_cases[of q] in \<open>auto simp: s rename_def\<close>)
  next
    case False
    with mv(5) obtain e where e: "ns (v_index v) p = Some e" by (auto simp: s)
    then have "\<not> has_flag e IS_DIR" using False ii by (auto simp: lookup_flex_def lookup_ns)
    then show ?thesis using mempart.rename_file_ok[OF assms(2)[unfolded s] room(1) mv(3) e, of ts] mv(1,4) assms(2) by (auto simp: s)
  qed
next
  case (rd v p d x d')
  have g: "mempart.good plba dbs nb d" using assms(2) rd by (auto simp: mempart.vol_ok_def mempart.vol_shape_def)
  from mempart.read_iff[of plba dbs nb rg dsb ck base R sn d v p x] assms(2) rd obtain e where
    e: "ns (v_index v) p = Some e" "mempart.file_ok plba dbs nb d dsb e x" by auto
  have ii: "index_inv (v_index v)" using assms(2) unfolding rd(1) by (rule mempart.vol_index_inv)
  from mempart.read_file_ok[OF g ii e] rd have d': "mempart.good plba dbs nb d'" "mempart.blk plba dbs d' = mempart.blk plba dbs d" by auto
  show ?thesis using mempart.vol_ok_rebitmap[of plba dbs nb rg dsb ck base R sn d v "v_bitmap v" d'] assms(2) d' rd
    by (auto simp: mempart.vol_ok_def mempart.vol_shape_def)
qed

subsection \<open>Properties\<close>



text \<open>
  C8: writes do not disturb other files. Whatever \<open>write_file\<close> returns, every path other than the
  written one that could be read before reads the same bytes afterwards; and when the write
  fails the written path, too, still reads as before.
\<close>

theorem write_file_isolated:
  assumes "mempart.vol_ok plba dbs nb rg dsb ck base R sn (d, v)" "mempart.lsn_room (length p + 1) (d, v)" "str_path p" "length data < U64"
    and "write_file mem_io plba dbs (of_nat dsb) p data ts (d, v) = (r, (d', v'))"
    and "q \<noteq> p \<or> (\<exists>e. r = Err e)" "fst (read_file mem_io (v_index v) plba (of_nat dsb) dbs q d) = Ok x"
  shows "fst (read_file mem_io (v_index v') plba (of_nat dsb) dbs q d') = Ok x"
  using assms by (rule mempart.write_isolated)

theorem write_file_isolated_witness:
  "\<exists>lsn d1 v1 r2 d2 v2. write_file mem_io 0 512 514 [SLASH, 97] [1, 2, 3] 7 (demo_dev, demo_vol) = (Ok lsn, (d1, v1)) \<and>
    write_file mem_io 0 512 514 [SLASH, 98] [4] 8 (d1, v1) = (r2, (d2, v2)) \<and>
    fst (read_file mem_io (v_index v2) 0 514 512 [SLASH, 97] d2) = Ok [1, 2, 3]"
proof (rule demo_written)
  fix lsn d1 v1
  assume w: "write_file mem_io 0 512 514 [SLASH, 97] [1, 2, 3] 7 (demo_dev, demo_vol) = (Ok lsn, (d1, v1))"
      "mempart.vol_ok 0 512 1024 (2, 514, 2, 500) 514 0 [] {} [] (d1, v1)" "fst (read_file mem_io (v_index v1) 0 (of_nat 514) 512 [SLASH, 97] d1) = Ok [1, 2, 3]"
      "mempart.lsn_room 900 (d1, v1)"
  have room2: "mempart.lsn_room (length [SLASH, 98] + 1) (d1, v1)" using w(4) by (simp add: mempart.lsn_room_def)
  have p2: "str_path [SLASH, 98]" by (simp add: str_path_def)
  obtain r2 d2 v2 where w2: "write_file mem_io 0 512 (of_nat 514) [SLASH, 98] [4] 8 (d1, v1) = (r2, (d2, v2))" by (metis surj_pair)
  from write_file_isolated[OF w(2) room2 p2 _ w2 _ w(3)] have "fst (read_file mem_io (v_index v2) 0 (of_nat 514) 512 [SLASH, 97] d2) = Ok [1, 2, 3]" by simp
  then show ?thesis using w(1) w2 by auto
qed



text \<open>
  C10: \<open>unlink\<close> removes the file and frees exactly its blocks. When the path reads as a file and the
  log has room for a record, the call succeeds, the path is then not found, the blocks the file
  owned and no others become free, and every other file still reads the same.
\<close>

theorem unlink_frees_file:
  assumes "mempart.vol_ok plba dbs nb rg dsb ck base R sn (d, v)" "mempart.lsn_room 1 (d, v)" "mempart.log_room 1 (v_log v)"
    and "fst (read_file mem_io (v_index v) plba (of_nat dsb) dbs p d) = Ok x"
  shows "\<exists>lsn d' v' e. unlink mem_io plba (of_nat dsb) dbs p ts (d, v) = (Ok lsn, (d', v')) \<and>
    mempart.vol_ok plba dbs nb rg dsb ck base R sn (d', v') \<and> ns (v_index v) p = Some e \<and>
    alloc_set (v_bitmap v') = alloc_set (v_bitmap v) - mempart.owned plba dbs d dsb e \<and>
    fst (read_file mem_io (v_index v') plba (of_nat dsb) dbs p d') = Err NotFound \<and>
    (\<forall>q y. q \<noteq> p \<longrightarrow> fst (read_file mem_io (v_index v) plba (of_nat dsb) dbs q d) = Ok y \<longrightarrow>
       fst (read_file mem_io (v_index v') plba (of_nat dsb) dbs q d') = Ok y)"
  using assms by (rule mempart.unlink_reads[of plba dbs nb rg dsb ck base R sn d v p x ts]) blast

theorem unlink_frees_file_witness:
  "\<exists>lsn d1 v1 l2 d2 v2. write_file mem_io 0 512 514 [SLASH, 97] [1, 2, 3] 7 (demo_dev, demo_vol) = (Ok lsn, (d1, v1)) \<and>
    unlink mem_io 0 514 512 [SLASH, 97] 8 (d1, v1) = (Ok l2, (d2, v2)) \<and>
    fst (read_file mem_io (v_index v2) 0 514 512 [SLASH, 97] d2) = Err NotFound"
proof (rule demo_written)
  fix lsn d1 v1
  assume w: "write_file mem_io 0 512 514 [SLASH, 97] [1, 2, 3] 7 (demo_dev, demo_vol) = (Ok lsn, (d1, v1))"
    "mempart.vol_ok 0 512 1024 (2, 514, 2, 500) 514 0 [] {} [] (d1, v1)" "fst (read_file mem_io (v_index v1) 0 (of_nat 514) 512 [SLASH, 97] d1) = Ok [1, 2, 3]"
    "mempart.lsn_room 900 (d1, v1)" "mempart.log_room 100 (v_log v1)"
  have "mempart.lsn_room 1 (d1, v1)" "mempart.log_room 1 (v_log v1)" using w(4) mempart.log_room_le[OF w(5), of 1] by (auto simp: mempart.lsn_room_def)
  from unlink_frees_file[OF w(2) this w(3), of 8] w(1) show ?thesis by auto
qed

text \<open>
  C11: \<open>rename\<close> moves a file. When the source reads as a file, the target is a valid path that does
  not exist and the log has room for a record, the call succeeds, the target then reads as the
  source did, the source is not found, and every other file still reads the same.
\<close>

theorem rename_moves_file:
  assumes "mempart.vol_ok plba dbs nb rg dsb ck base R sn (d, v)" "mempart.lsn_room 1 (d, v)" "mempart.log_room 1 (v_log v)"
    and "str_path q" "validate_path q = Ok ()" "lookup_flex (v_index v) q = None"
    and "fst (read_file mem_io (v_index v) plba (of_nat dsb) dbs p d) = Ok x"
  shows "\<exists>lsn d' v'. rename mem_io plba (of_nat dsb) dbs p q ts (d, v) = (Ok lsn, (d', v')) \<and>
    mempart.vol_ok plba dbs nb rg dsb ck base R sn (d', v') \<and>
    fst (read_file mem_io (v_index v') plba (of_nat dsb) dbs q d') = Ok x \<and>
    fst (read_file mem_io (v_index v') plba (of_nat dsb) dbs p d') = Err NotFound \<and>
    (\<forall>r y. r \<noteq> p \<longrightarrow> fst (read_file mem_io (v_index v) plba (of_nat dsb) dbs r d) = Ok y \<longrightarrow>
       fst (read_file mem_io (v_index v') plba (of_nat dsb) dbs r d') = Ok y)"
  using assms by (rule mempart.rename_reads[of plba dbs nb rg dsb ck base R sn d v q p x ts]) blast

theorem rename_moves_file_witness:
  "\<exists>lsn d1 v1 l2 d2 v2. write_file mem_io 0 512 514 [SLASH, 97] [1, 2, 3] 7 (demo_dev, demo_vol) = (Ok lsn, (d1, v1)) \<and>
    rename mem_io 0 514 512 [SLASH, 97] [SLASH, 98] 8 (d1, v1) = (Ok l2, (d2, v2)) \<and>
    fst (read_file mem_io (v_index v2) 0 514 512 [SLASH, 98] d2) = Ok [1, 2, 3]"
proof (rule demo_written)
  fix lsn d1 v1
  assume w: "write_file mem_io 0 512 514 [SLASH, 97] [1, 2, 3] 7 (demo_dev, demo_vol) = (Ok lsn, (d1, v1))"
    "mempart.vol_ok 0 512 1024 (2, 514, 2, 500) 514 0 [] {} [] (d1, v1)" "fst (read_file mem_io (v_index v1) 0 (of_nat 514) 512 [SLASH, 97] d1) = Ok [1, 2, 3]"
    "mempart.lsn_room 900 (d1, v1)" "mempart.log_room 100 (v_log v1)" and nn: "\<And>q. ns (v_index v1) q \<noteq> None \<Longrightarrow> q = [SLASH, 97]"
  have "mempart.lsn_room 1 (d1, v1)" "mempart.log_room 1 (v_log v1)" using w(4) mempart.log_room_le[OF w(5), of 1] by (auto simp: mempart.lsn_room_def)
  moreover have "str_path [SLASH, 98]" "validate_path [SLASH, 98] = Ok ()" by (simp_all add: str_path_def validate_path_def)
  moreover have "lookup_flex (v_index v1) [SLASH, 98] = None"
    using nn[of "[SLASH, 98]"] nn[of "[SLASH, 98, SLASH]"] lookup_ns[OF mempart.vol_index_inv[OF w(2)]]
    by (fastforce simp: lookup_flex_def ends_with_slash_def split: option.splits)
  ultimately show ?thesis using rename_moves_file[OF w(2) _ _ _ _ _ w(3), of "[SLASH, 98]" 8] w(1) by auto
qed

text \<open>
  C32: a write that is larger than the free space takes all of it. When the contents need more
  blocks than are free, the call fails with \<open>NoSpace\<close>, but the blocks that the fragmented
  allocation collected before it ran out are not given back: afterwards no block is free.
\<close>

theorem oversized_write_exhausts_volume:
  assumes "mempart.vol_ok plba dbs nb rg dsb ck base R sn (d, v)" "mempart.lsn_room (length p + 1) (d, v)"
    and "str_path p" "validate_path p = Ok ()" "\<not> ends_with_slash p" "\<forall>f. lookup_flex (v_index v) p = Some f \<longrightarrow> \<not> has_flag f IS_DIR"
    and "mempart.log_room (length p) (v_log v)" "INLINE_DATA_SIZE < length data" "bm_free (v_bitmap v) < div_ceil (length data) 4096"
  shows "\<exists>d' v'. write_file mem_io plba dbs (of_nat dsb) p data ts (d, v) = (Err NoSpace, (d', v')) \<and> bm_free (v_bitmap v') = 0"
  using assms by (rule mempart.write_file_exhausts)

theorem oversized_write_exhausts_volume_witness:
  "bm_free (v_bitmap demo_vol) = 500 \<and>
   (\<exists>d' v'. write_file mem_io 0 512 514 [SLASH, 97] (replicate 2052096 1) 7 (demo_dev, demo_vol) = (Err NoSpace, (d', v')) \<and> bm_free (v_bitmap v') = 0)"
proof -
  have f: "bm_free (v_bitmap demo_vol) = 500" by (simp add: demo_vol_def bitmap_new_def)
  have l: "length [SLASH, 97 :: u8] = 2" by simp
  have room: "mempart.lsn_room (length [SLASH, 97] + 1) (demo_dev, demo_vol)" "mempart.log_room (length [SLASH, 97]) (v_log demo_vol)"
    unfolding l by (rule demo_room; simp)+
  have n: "INLINE_DATA_SIZE < length (replicate 2052096 (1 :: u8))" by simp
  have b: "bm_free (v_bitmap demo_vol) < div_ceil (length (replicate 2052096 (1 :: u8))) 4096" unfolding f by (simp add: div_ceil_def)
  from oversized_write_exhausts_volume[OF demo_vol_ok room(1) demo_path _ room(2) n b, of 7] f show ?thesis by (simp add: demo_lookup)
qed

text \<open>
  C33: renaming a file onto its own name destroys it. The target is freed and deleted before the
  source is looked up, so the call returns \<open>NotFound\<close>, the file is gone from the index and its
  blocks are free, while the log has no record of it.
\<close>

theorem rename_onto_itself_loses_file:
  assumes "mempart.vol_ok plba dbs nb rg dsb ck base R sn (d, v)" "ns (v_index v) q = Some e" "\<not> has_flag e IS_DIR" "validate_path q = Ok ()"
  shows "\<exists>d' v'. rename mem_io plba (of_nat dsb) dbs q q ts (d, v) = (Err NotFound, (d', v')) \<and> v_log v' = v_log v \<and>
    ns (v_index v') = (ns (v_index v))(q := None) \<and> alloc_set (v_bitmap v') = alloc_set (v_bitmap v) - mempart.owned plba dbs d dsb e"
  using assms by (rule mempart.rename_self_ok)

theorem rename_onto_itself_loses_file_witness:
  "\<exists>lsn d1 v1 d2 v2. write_file mem_io 0 512 514 [SLASH, 97] [1, 2, 3] 7 (demo_dev, demo_vol) = (Ok lsn, (d1, v1)) \<and>
    rename mem_io 0 514 512 [SLASH, 97] [SLASH, 97] 8 (d1, v1) = (Err NotFound, (d2, v2)) \<and> ns (v_index v2) [SLASH, 97] = None"
proof (rule demo_written)
  fix lsn d1 v1
  assume w: "write_file mem_io 0 512 514 [SLASH, 97] [1, 2, 3] 7 (demo_dev, demo_vol) = (Ok lsn, (d1, v1))"
    "mempart.vol_ok 0 512 1024 (2, 514, 2, 500) 514 0 [] {} [] (d1, v1)" "fst (read_file mem_io (v_index v1) 0 (of_nat 514) 512 [SLASH, 97] d1) = Ok [1, 2, 3]"
  from w(3) mempart.read_iff[OF w(2)] obtain e where e: "ns (v_index v1) [SLASH, 97] = Some e" "mempart.file_ok 0 512 1024 d1 514 e [1, 2, 3]" by blast
  then have "\<not> has_flag e IS_DIR" by (simp add: mempart.file_ok_def)
  from rename_onto_itself_loses_file[OF w(2) e(1) this demo_path(2), of 8] w(1) show ?thesis by auto
qed

end
