(* ===== verification/Helix_Durability.thy ===== *)
theory Helix_Durability
  imports Helix_Engine Helix_Calls
begin

text \<open>
  The mounted volume of \<^verbatim>\<open>helix/src/engine.rs\<close> over its whole life: formatting, the calls,
  \<open>sync\<close>, \<open>checkpoint\<close> and a later \<open>mount\<close> of what reached the device. \<open>fs_ok\<close> ties the
  volume invariant to the superblock in memory, \<open>durable\<close> says that the superblock and the log on
  the device are those in memory.
\<close>

subsection \<open>The bitmap rebuilt from the index\<close>

context partition
begin

lemma mark_extents_ok:
  assumes "bitmap_inv bm" "set (run_blocks xs) \<subseteq> {..<bm_total bm}"
  shows "bitmap_inv (mark_extents xs bm) \<and> bm_total (mark_extents xs bm) = bm_total bm \<and>
    alloc_set (mark_extents xs bm) = alloc_set bm \<union> set (run_blocks xs)"
  using assms
proof (induction xs arbitrary: bm)
  case (Cons x xs)
  obtain l p c where x: "x = (l, p, c)" by (cases x)
  let ?bm = "mark_range_used (unat p) (unat c) bm"
  have sub: "{unat p..<unat p + unat c} \<subseteq> {..<bm_total bm}" "set (run_blocks xs) \<subseteq> {..<bm_total bm}"
    using Cons.prems(2) by (auto simp: x run_blocks_def)
  note m = mark_range_used_spec[OF Cons.prems(1), of "unat p" "unat c"]
  have "alloc_set ?bm = alloc_set bm \<union> {unat p..<unat p + unat c}"
  proof (cases "unat c = 0")
    case True
    then show ?thesis by (simp add: mark_range_used_def)
  next
    case False
    then have "unat p + unat c - 1 \<in> {unat p..<unat p + unat c}" by auto
    then have "unat p + unat c - 1 \<in> {..<bm_total bm}" using sub(1) by blast
    with False have "unat p + unat c \<le> bm_total bm" by auto
    then show ?thesis by (rule m(3))
  qed
  moreover have "bitmap_inv (mark_extents xs ?bm) \<and> bm_total (mark_extents xs ?bm) = bm_total ?bm \<and>
      alloc_set (mark_extents xs ?bm) = alloc_set ?bm \<union> set (run_blocks xs)"
    by (rule Cons.IH) (use m sub(2) in auto)
  ultimately show ?case using m(2) by (auto simp: x run_blocks_def)
qed (simp add: run_blocks_def)

lemma same_blocks:
  assumes "blk d' = blk d"
  shows "owned d' = owned d" "node_ok d' = node_ok d" "file_ok d' = file_ok d" "store_ok d' = store_ok d"
proof -
  show n: "owned d' = owned d" "node_ok d' = node_ok d"
    by (simp_all only: fun_eq_iff owned_def node_ok_def runs_hold_def assms simp_thms)
  show f: "file_ok d' = file_ok d" by (simp only: fun_eq_iff file_ok_def run_ok_def assms n simp_thms)
  show "store_ok d' = store_ok d" by (simp only: fun_eq_iff store_ok_def n f simp_thms)
qed

lemma rebuild_marks_ok:
  assumes "good d" "bitmap_inv bm" "bm_total bm < U32"
    and "\<forall>e\<in>set es. (\<exists>x. file_ok d dsb e x) \<and> \<not> has_flag e IS_INLINE \<and> owned d dsb e \<subseteq> {..<bm_total bm}"
  shows "\<exists>d' bm'. rebuild_marks io plba (of_nat dsb) dbs (map (\<lambda>e. (e_extent_root e, e_size e, has_flag e IS_EXTENT_NODE)) es) (d, bm)
      = (Ok (), (d', bm')) \<and> good d' \<and> blk d' = blk d \<and> bitmap_inv bm' \<and> bm_total bm' = bm_total bm \<and>
    alloc_set bm' = alloc_set bm \<union> (\<Union>e\<in>set es. owned d dsb e)"
  using assms
proof (induction es arbitrary: d bm)
  case (Cons e es)
  from Cons.prems(4) obtain x where x: "file_ok d dsb e x" and ni: "\<not> has_flag e IS_INLINE" and ow: "owned d dsb e \<subseteq> {..<bm_total bm}" by auto
  have nd: "\<not> has_flag e IS_DIR" using x by (simp add: file_ok_def)
  show ?case
  proof (cases "has_flag e IS_EXTENT_NODE")
    case True
    then obtain xs where xs: "node_ok d dsb (unat (e_extent_root e)) x xs" using x ni by (auto simp: file_ok_def)
    note on = owned_node[OF xs nd ni True]
    have n: "xs \<noteq> []" "length xs \<le> EXTENTS_PER_LEAF" "dsb + unat (e_extent_root e) < nb"
      "blk d (dsb + unat (e_extent_root e)) = extent_node_block xs" using xs by (auto simp: node_ok_def)
    from read_extent_node_ok[OF Cons.prems(1) n] obtain d1 where
      d1: "read_extent_node io plba (of_nat dsb) dbs (e_extent_root e) d = (Ok xs, d1)" "good d1" "blk d1 = blk d" by auto
    note mb = mark_block_used_spec[OF Cons.prems(2), of "unat (e_extent_root e)"]
    let ?bm = "mark_extents xs (mark_block_used (unat (e_extent_root e)) bm)"
    have "set (run_blocks xs) \<subseteq> {..<bm_total (mark_block_used (unat (e_extent_root e)) bm)}" using ow on mb(2) by auto
    note me = mark_extents_ok[OF mb(1) this]
    have a: "alloc_set ?bm = alloc_set bm \<union> owned d dsb e" using me mb(3) on ow by auto
    have "\<exists>d' bm'. rebuild_marks io plba (of_nat dsb) dbs (map (\<lambda>e. (e_extent_root e, e_size e, has_flag e IS_EXTENT_NODE)) es) (d1, ?bm)
      = (Ok (), (d', bm')) \<and> good d' \<and> blk d' = blk d1 \<and> bitmap_inv bm' \<and> bm_total bm' = bm_total ?bm \<and>
      alloc_set bm' = alloc_set ?bm \<union> (\<Union>e\<in>set es. owned d1 dsb e)"
      by (rule Cons.IH) (use Cons.prems(3,4) d1(2) me mb(2) same_blocks[OF d1(3)] in auto)
    then show ?thesis using True d1 a me mb(2) same_blocks[OF d1(3)] by (auto simp: Let_def)
  next
    case False
    let ?n = "div_ceil (unat (e_size e)) BLOCK_SIZE"
    let ?bm = "if ?n > 0 then mark_range_used (unat (e_extent_root e)) ?n bm else bm"
    have on: "owned d dsb e = {unat (e_extent_root e)..<unat (e_extent_root e) + ?n}" using nd ni False by (simp add: owned_def)
    note m = mark_range_used_spec[OF Cons.prems(2), of "unat (e_extent_root e)" ?n]
    have "unat (e_extent_root e) + ?n \<le> bm_total bm" if "?n > 0"
    proof -
      have "unat (e_extent_root e) + ?n - 1 \<in> owned d dsb e" using that by (simp add: on)
      then have "unat (e_extent_root e) + ?n - 1 < bm_total bm" using ow by blast
      with that show ?thesis by linarith
    qed
    then have a: "bitmap_inv ?bm" "bm_total ?bm = bm_total bm" "alloc_set ?bm = alloc_set bm \<union> owned d dsb e"
      using m Cons.prems(2) by (auto simp: on)
    have "\<exists>d' bm'. rebuild_marks io plba (of_nat dsb) dbs (map (\<lambda>e. (e_extent_root e, e_size e, has_flag e IS_EXTENT_NODE)) es) (d, ?bm)
      = (Ok (), (d', bm')) \<and> good d' \<and> blk d' = blk d \<and> bitmap_inv bm' \<and> bm_total bm' = bm_total ?bm \<and>
      alloc_set bm' = alloc_set ?bm \<union> (\<Union>e\<in>set es. owned d dsb e)"
      by (rule Cons.IH) (use Cons.prems(1,3,4) a in auto)
    then obtain d' bm' where r: "rebuild_marks io plba (of_nat dsb) dbs (map (\<lambda>e. (e_extent_root e, e_size e, has_flag e IS_EXTENT_NODE)) es) (d, ?bm)
      = (Ok (), (d', bm'))" "good d'" "blk d' = blk d" "bitmap_inv bm'" "bm_total bm' = bm_total ?bm"
      "alloc_set bm' = alloc_set ?bm \<union> (\<Union>e\<in>set es. owned d dsb e)" by blast
    show ?thesis using False r a by (intro exI[of _ d'] exI[of _ bm']) (simp add: Let_def Un_assoc)
  qed
qed simp

lemma rebuild_mask: "f AND (IS_DELETED OR IS_DIR OR IS_INLINE) = 0 \<longleftrightarrow>
    f AND IS_DELETED = 0 \<and> f AND IS_DIR = 0 \<and> f AND IS_INLINE = 0"
  by (simp add: bit.conj_disj_distrib or_eq_0_iff)

text \<open>Exactly the blocks of the live files are marked.\<close>

lemma rebuild_targets_ok:
  assumes g: "good d" and bm: "bitmap_inv bm" "bm_total bm < U32"
    and ii: "index_inv ix" and st: "store_ok d dsb (ns ix) A R" "A \<subseteq> {..<bm_total bm}"
  shows "\<exists>d' bm'. rebuild_marks io plba (of_nat dsb) dbs (rebuild_targets ix) (d, bm) = (Ok (), (d', bm')) \<and>
    good d' \<and> blk d' = blk d \<and> bitmap_inv bm' \<and> bm_total bm' = bm_total bm \<and>
    alloc_set bm' = alloc_set bm \<union> (\<Union>e\<in>ran (ns ix). owned d dsb e)"
proof -
  let ?es = "filter (\<lambda>e. e_flags e AND (IS_DELETED OR IS_DIR OR IS_INLINE) = 0 \<and> e_extent_root e \<noteq> BLOCK_NULL) ix"
  have f: "e \<in> set ?es \<longleftrightarrow> e \<in> ran (ns ix) \<and> \<not> has_flag e IS_DIR \<and> \<not> has_flag e IS_INLINE" for e
  proof -
    have r: "e \<in> ran (ns ix) \<longleftrightarrow> e \<in> set ix \<and> live e" using ns_Some_iff[OF ii] by (auto simp: ran_def)
    have "e_extent_root e \<noteq> BLOCK_NULL" if "e \<in> ran (ns ix)" "\<not> has_flag e IS_DIR" "\<not> has_flag e IS_INLINE"
      using that store_okD(2)[OF st(1)] by (force simp: ran_def file_ok_def)
    then show ?thesis using r by (auto simp: rebuild_mask)
  qed
  have u: "(\<Union>e\<in>set ?es. owned d dsb e) = (\<Union>e\<in>ran (ns ix). owned d dsb e)"
    using f by (auto simp: owned_def split: if_splits)
  have "\<forall>e\<in>set ?es. (\<exists>x. file_ok d dsb e x) \<and> \<not> has_flag e IS_INLINE \<and> owned d dsb e \<subseteq> {..<bm_total bm}"
  proof
    fix e assume "e \<in> set ?es"
    then obtain p where "ns ix p = Some e" "\<not> has_flag e IS_DIR" "\<not> has_flag e IS_INLINE" using f by (auto simp: ran_def)
    then show "(\<exists>x. file_ok d dsb e x) \<and> \<not> has_flag e IS_INLINE \<and> owned d dsb e \<subseteq> {..<bm_total bm}"
      using store_okD(1,2)[OF st(1)] st(2) by blast
  qed
  from rebuild_marks_ok[OF g bm this] show ?thesis unfolding u rebuild_targets_def .
qed

end

subsection \<open>The mounted volume\<close>

context partition
begin

definition region_holds :: "'d \<Rightarrow> superblock \<Rightarrow> index_entry list \<Rightarrow> nat set \<Rightarrow> bool" where
  "region_holds d sb es R \<longleftrightarrow>
     (if sb_index_root_block sb = BLOCK_NULL then es = [] \<and> R = {}
      else index_inv es \<and> (\<forall>e\<in>set es. live e) \<and> unat (sb_index_depth sb) = region_blocks (length es) \<and>
        unat (sb_index_entry_count sb) = length es \<and>
        R = {unat (sb_index_root_block sb)..<unat (sb_index_root_block sb) + region_blocks (length es)} \<and>
        (\<forall>k<region_blocks (length es). blk d (unat (sb_data_start_block sb) + unat (sb_index_root_block sb) + k) = index_block es k))"

abbreviation ring_of :: "superblock \<Rightarrow> u64 \<times> u64 \<times> nat \<times> nat" where
  "ring_of sb \<equiv> (sb_log_start_block sb, sb_log_end_block sb, unat (sb_log_segment_count sb), unat (sb_data_block_count sb))"

abbreviation reloaded :: "index_entry list \<Rightarrow> index" where
  "reloaded es \<equiv> foldl upsert [] (map tagged es)"

definition fs_ok :: "'d \<times> helix_fs \<Rightarrow> bool" where
  "fs_ok = (\<lambda>(d, fs). fs_plba fs = plba \<and> fs_dbs fs = dbs \<and> sb_wf (fs_sb fs) \<and> sb_magic (fs_sb fs) = HELIX_MAGIC \<and>
     sb_version (fs_sb fs) = HELIX_VERSION \<and>
     (\<exists>es R sn. region_holds d (fs_sb fs) es R \<and>
        vol_ok (ring_of (fs_sb fs)) (unat (sb_data_start_block (fs_sb fs))) (sb_checkpoint_lsn (fs_sb fs)) (reloaded es) R sn (d, fs)))"

definition durable :: "'d \<times> helix_fs \<Rightarrow> bool" where
  "durable = (\<lambda>(d, fs). blk d 0 = sb_encode (fs_sb fs) \<and> blk d 1 = sb_encode (fs_sb fs) \<and> sb_is_valid (fs_sb fs) \<and>
     sb_committed_lsn (fs_sb fs) + 1 = lg_next_lsn (v_log fs) \<and> unat (sb_log_head_segment (fs_sb fs)) = lg_head (v_log fs) \<and>
     unat (sb_log_head_offset (fs_sb fs)) = lg_off (v_log fs) \<and> unat (sb_log_tail_segment (fs_sb fs)) = lg_tail (v_log fs) \<and>
     take (div_ceil (lg_off (v_log fs)) BLOCK_SIZE * 4096) (seg_img (blk d) (v_log fs) (lg_head (v_log fs))) =
       take (div_ceil (lg_off (v_log fs)) BLOCK_SIZE * 4096) (lg_buf (v_log fs)))"

lemma write_both_ok:
  assumes "good d" "1 < nb" "sb_wf (fs_sb fs)" "fs_plba fs = plba" "fs_dbs fs = dbs"
    and "sb = sb_update_crc (fs_sb fs)"
  shows "\<exists>d'. write_both_superblocks io (d, fs) = (Ok (), (d', fs\<lparr>fs_sb := sb\<rparr>)) \<and> good d' \<and>
    blk d' = (blk d)(0 := sb_encode sb, 1 := sb_encode sb)"
proof -
  from write_superblock_ok[OF assms(1-3), of 0] obtain d1 where
    d1: "write_superblock io plba dbs 0 (d, fs_sb fs) = (Ok (), (d1, sb))" "good d1" "blk d1 = (blk d)(0 := sb_encode sb)"
    by (auto simp: assms(6))
  have sb: "sb_wf sb" "sb_update_crc sb = sb" using assms(3) by (simp_all add: assms(6) sb_wf_def sb_update_crc_def Let_def)
  from write_superblock_ok[OF d1(2) assms(2) sb(1), of 1] obtain d2 where
    d2: "write_superblock io plba dbs 1 (d1, sb) = (Ok (), (d2, sb))" "good d2" "blk d2 = (blk d1)(1 := sb_encode sb)"
    by (auto simp: sb(2))
  from flush_blk[OF d2(2)] obtain d3 where d3: "io_flush io d2 = (Ok (), d3)" "good d3" "blk d3 = blk d2" by blast
  show ?thesis using d1 d2 d3 assms(4,5) by (auto simp: write_both_superblocks_def on_sb_def on_dev_def)
qed

text \<open>
  The tail of \<open>sync\<close> and of \<open>checkpoint\<close>: the log is flushed and both superblocks follow it.
\<close>

lemma flush_track_ok:
  assumes vk: "vol_ok rg dsb ck base R sn (d, fs)" and fs: "fs_plba fs = plba" "fs_dbs fs = dbs" "sb_wf (fs_sb fs)" "sb_magic (fs_sb fs) = HELIX_MAGIC"
  obtains d' fs' where "sync io (d, fs) = (Ok (), (d', fs'))" "vol_ok rg dsb ck base R sn (d', fs')" "durable (d', fs')"
    "v_index fs' = v_index fs" "v_bitmap fs' = v_bitmap fs" "\<forall>b\<ge>dsb. blk d' b = blk d b"
    "fs_sb fs' = sb_update_crc (sb_track_log (lg_next_lsn (v_log fs) - 1) (v_log fs) (fs_sb fs))"
    "fs_plba fs' = plba" "fs_dbs fs' = dbs" "fs_snapshot_lsns fs' = fs_snapshot_lsns fs"
    "v_log fs' = (v_log fs)\<lparr>lg_buf := seal_header (v_log fs)\<rparr>"
proof -
  let ?l = "v_log fs" and ?l' = "(v_log fs)\<lparr>lg_buf := seal_header (v_log fs)\<rparr>"
  from vk have sh: "vol_shape rg dsb R d fs" and lo: "vol_log ck base d fs sn" by (auto simp: vol_ok_def)
  from lo obtain rs iy where rs: "ck < lg_next_lsn ?l" "log_state d ?l rs" "\<forall>r\<in>set rs. rh_lsn (fst r) < lg_next_lsn ?l"
    "replay_all ck rs (base, []) = (Ok (), (iy, sn))" "sim (v_index fs) iy"
    unfolding vol_log_def by blast
  from rs(2) obtain rss where lk: "log_ok plba dbs nb ?l" "log_rep (blk d) ?l rss" "concat rss = rs" by (auto simp: log_state_def)
  have g: "good d" and ring: "2 \<le> seg_base ?l 0" "seg_base ?l (lg_segs ?l) \<le> dsb" "dsb \<le> nb" using sh by (auto simp: vol_shape_def)
  have nb: "1 < nb" "2 \<le> dsb" using ring by (simp_all add: seg_base_def)
  from log_flush_rep[OF g lk(1,2)] obtain d1 where d1: "log_flush io (d, ?l) = (Ok (lg_next_lsn ?l - 1), (d1, ?l'))" "good d1"
    "log_ok plba dbs nb ?l'" "log_rep (blk d1) ?l' rss" "log_frame ?l (blk d) (blk d1)"
    "take (div_ceil (lg_off ?l) BLOCK_SIZE * 4096) (seg_img (blk d1) ?l (lg_head ?l)) = take (div_ceil (lg_off ?l) BLOCK_SIZE * 4096) (seal_header ?l)"
    by blast
  let ?sb = "sb_update_crc (sb_track_log (lg_next_lsn ?l - 1) ?l (fs_sb fs))"
  let ?fs = "fs\<lparr>v_log := ?l', fs_sb := sb_track_log (lg_next_lsn ?l - 1) ?l (fs_sb fs)\<rparr>"
  let ?fs' = "fs\<lparr>v_log := ?l', fs_sb := ?sb\<rparr>"
  have "sb_wf (fs_sb ?fs)" using fs(3) by (simp add: sb_track_log_def sb_wf_def)
  from write_both_ok[OF d1(2) nb(1) this, OF _ _ refl] fs obtain d2 where
    d2: "write_both_superblocks io (d1, ?fs) = (Ok (), (d2, ?fs'))" "good d2" "blk d2 = (blk d1)(0 := sb_encode ?sb, 1 := sb_encode ?sb)" by auto
  have data: "blk d2 b = blk d b" if "dsb \<le> b" for b
    using that nb d1(5) ring(2) by (simp add: d2(3) log_frame_def)
  have si: "seg_img (blk d2) l = seg_img (blk d1) l" if "2 \<le> seg_base l 0" for l
    using that by (auto simp: seg_img_def seg_base_def d2(3) fun_eq_iff intro!: arg_cong[of _ _ concat] map_cong)
  have lr: "log_rep (blk d2) ?l' rss" using d1(4) ring(1) si[of ?l'] by (simp add: log_rep_def seg_base_def)
  show ?thesis
  proof (rule that)
    show "sync io (d, fs) = (Ok (), (d2, ?fs'))" using d1(1) d2(1) by (simp add: sync_def on_log_def sb_track_log_def)
    have "store_ok d2 dsb (ns (v_index fs)) (alloc_set (v_bitmap fs)) R"
      by (rule store_frame[of d]) (use sh data in \<open>auto simp: vol_shape_def\<close>)
    then have "vol_shape rg dsb R d2 ?fs'" using sh d2(2) by (simp add: vol_shape_def seg_base_def)
    moreover have "vol_log ck base d2 ?fs' sn"
    proof (rule vol_logI)
      show "log_state d2 (v_log ?fs') rs" using d1(3) lr lk(3) by (auto simp: log_state_def)
    qed (use rs in simp_all)
    ultimately show "vol_ok rg dsb ck base R sn (d2, ?fs')" by (simp add: vol_ok_def)
    have h: "lg_head ?l < U64" "lg_tail ?l < U64" "lg_off ?l < U32"
      using lk(1) log_rep_off[OF lk(2)] by (auto simp: log_ok_def)
    have v: "sb_is_valid ?sb" using fs(4) by (intro sb_update_crc_valid) (simp add: sb_track_log_def)
    have f: "sb_committed_lsn ?sb = lg_next_lsn ?l - 1" "unat (sb_log_head_segment ?sb) = lg_head ?l"
      "unat (sb_log_head_offset ?sb) = lg_off ?l" "unat (sb_log_tail_segment ?sb) = lg_tail ?l"
      using h by (simp_all add: sb_track_log_def sb_update_crc_def Let_def unat_of_nat take_bit_nat_eq_self)
    have "seg_img (blk d2) ?l' (lg_head ?l) = seg_img (blk d1) ?l (lg_head ?l)"
      using si[of ?l'] ring(1) by (simp add: seg_img_def seg_base_def)
    then show "durable (d2, ?fs')" using v f d1(6) by (simp add: durable_def d2(3))
  qed (use data fs in simp_all)
qed

lemma region_holds_cong:
  assumes "region_holds d sb es R" "\<And>b. b \<in> R \<Longrightarrow> blk d' (unat (sb_data_start_block sb) + b) = blk d (unat (sb_data_start_block sb) + b)"
    and "sb_index_root_block sb' = sb_index_root_block sb" "sb_index_depth sb' = sb_index_depth sb"
      "sb_index_entry_count sb' = sb_index_entry_count sb" "sb_data_start_block sb' = sb_data_start_block sb"
  shows "region_holds d' sb' es R"
proof (cases "sb_index_root_block sb = BLOCK_NULL")
  case True
  then show ?thesis using assms by (simp add: region_holds_def)
next
  case False
  with assms(1) have "blk d' (unat (sb_data_start_block sb) + unat (sb_index_root_block sb) + k) =
      blk d (unat (sb_data_start_block sb) + unat (sb_index_root_block sb) + k)" if "k < region_blocks (length es)" for k
    using that assms(2)[of "unat (sb_index_root_block sb) + k"] by (simp add: region_holds_def add.assoc)
  then show ?thesis using False assms(1,3-6) by (simp add: region_holds_def)
qed

lemma sync_ok:
  assumes "fs_ok (d, fs)"
  obtains d' fs' where "sync io (d, fs) = (Ok (), (d', fs'))" "fs_ok (d', fs')" "durable (d', fs')"
    "v_index fs' = v_index fs" "v_bitmap fs' = v_bitmap fs" "fs_snapshot_lsns fs' = fs_snapshot_lsns fs"
    "sb_data_start_block (fs_sb fs') = sb_data_start_block (fs_sb fs)"
    "\<forall>b\<ge>unat (sb_data_start_block (fs_sb fs)). blk d' b = blk d b"
    "v_log fs' = (v_log fs)\<lparr>lg_buf := seal_header (v_log fs)\<rparr>"
proof -
  from assms obtain es R sn where fs: "fs_plba fs = plba" "fs_dbs fs = dbs" "sb_wf (fs_sb fs)" "sb_magic (fs_sb fs) = HELIX_MAGIC"
      "sb_version (fs_sb fs) = HELIX_VERSION"
    and rh: "region_holds d (fs_sb fs) es R"
    and vk: "vol_ok (ring_of (fs_sb fs)) (unat (sb_data_start_block (fs_sb fs))) (sb_checkpoint_lsn (fs_sb fs)) (reloaded es) R sn (d, fs)"
    by (auto simp: fs_ok_def)
  from flush_track_ok[OF vk fs(1-4)] obtain d' fs' where
    s: "sync io (d, fs) = (Ok (), (d', fs'))"
       "vol_ok (ring_of (fs_sb fs)) (unat (sb_data_start_block (fs_sb fs))) (sb_checkpoint_lsn (fs_sb fs)) (reloaded es) R sn (d', fs')"
       "durable (d', fs')" "v_index fs' = v_index fs" "v_bitmap fs' = v_bitmap fs"
       "\<forall>b\<ge>unat (sb_data_start_block (fs_sb fs)). blk d' b = blk d b"
       "fs_sb fs' = sb_update_crc (sb_track_log (lg_next_lsn (v_log fs) - 1) (v_log fs) (fs_sb fs))"
       "fs_plba fs' = plba" "fs_dbs fs' = dbs" "fs_snapshot_lsns fs' = fs_snapshot_lsns fs"
       "v_log fs' = (v_log fs)\<lparr>lg_buf := seal_header (v_log fs)\<rparr>" .
  note sb = s(7)[unfolded sb_update_crc_def sb_track_log_def Let_def]
  have "region_holds d' (fs_sb fs') es R" by (rule region_holds_cong[OF rh]) (simp_all add: sb s(6))
  then have "fs_ok (d', fs')" unfolding fs_ok_def prod.case
    by (intro conjI exI[of _ es] exI[of _ R] exI[of _ sn]) (use s(2-5,8,9) fs in \<open>simp_all add: sb sb_wf_def\<close>)
  then show ?thesis by (rule that[OF s(1) _ s(3-5,10) _ s(6,11)]) (simp add: sb)
qed

end

subsection \<open>Mount after sync\<close>

context partition
begin

lemma from_superblock_sel [simp]:
  "v_log (from_superblock sb a b) = log_new sb a b" "v_index (from_superblock sb a b) = []"
  "v_bitmap (from_superblock sb a b) = bitmap_new (unat (sb_data_block_count sb))" "fs_sb (from_superblock sb a b) = sb"
  "fs_plba (from_superblock sb a b) = a" "fs_dbs (from_superblock sb a b) = b"
  by (simp_all add: from_superblock_def)

lemma fs_okE:
  assumes "fs_ok (d, fs)"
  obtains es R sn where "fs_plba fs = plba" "fs_dbs fs = dbs" "sb_wf (fs_sb fs)" "sb_magic (fs_sb fs) = HELIX_MAGIC"
      "sb_version (fs_sb fs) = HELIX_VERSION"
    "region_holds d (fs_sb fs) es R"
    "vol_ok (ring_of (fs_sb fs)) (unat (sb_data_start_block (fs_sb fs))) (sb_checkpoint_lsn (fs_sb fs)) (reloaded es) R sn (d, fs)"
  using assms unfolding fs_ok_def by blast

lemma sim_store:
  assumes "sim ix iy" "store_ok d dsb (ns ix) A R"
  shows "store_ok d dsb (ns iy) A R"
proof -
  have s: "sim iy ix" using assms(1) by (auto simp: sim_def)
  have f: "has_flag e IS_DIR = has_flag e' IS_DIR" "file_ok d dsb e = file_ok d dsb e'" "owned d dsb e = owned d dsb e'"
    if "strip e' = strip e" for e e'
    using strip_eqD[OF that] file_ok_fields[of e e'] by (auto simp: fun_eq_iff)
  have x: "\<exists>e'. ns ix p = Some e' \<and> strip e' = strip e" if "ns iy p = Some e" for p e
    using sim_ns[OF s that] by blast
  show ?thesis unfolding store_ok_def
  proof (intro conjI allI impI ballI)
    show "R \<subseteq> A" using assms(2) by (simp add: store_ok_def)
    show "str_path p" if "p \<in> dom (ns iy)" for p using x that store_okD(3)[OF assms(2)] by blast
    fix p e assume "ns iy p = Some e"
    from x[OF this] obtain e1 where e1: "ns ix p = Some e1" "strip e1 = strip e" by blast
    show "has_flag e IS_DIR \<or> (\<exists>data. file_ok d dsb e data)" "owned d dsb e \<subseteq> A - R"
      using store_okD(1,2)[OF assms(2) e1(1)] f[OF e1(2)] by auto
    fix q g assume "ns iy q = Some g" "p \<noteq> q"
    from x[OF this(1)] obtain g1 where g1: "ns ix q = Some g1" "strip g1 = strip g" by blast
    show "owned d dsb e \<inter> owned d dsb g = {}"
      using store_okD(4)[OF assms(2) g1(1) e1(1)] \<open>p \<noteq> q\<close> f(3)[OF e1(2)] f(3)[OF g1(2)] by simp
  qed
qed

lemma sim_owned: "sim ix iy \<Longrightarrow> (\<Union>e\<in>ran (ns iy). owned d dsb e) = (\<Union>e\<in>ran (ns ix). owned d dsb e)"
proof -
  have "(\<Union>e\<in>ran (ns iy). owned d dsb e) \<subseteq> (\<Union>e\<in>ran (ns ix). owned d dsb e)" if s: "sim iy ix" for ix iy
  proof
    fix b assume "b \<in> (\<Union>e\<in>ran (ns iy). owned d dsb e)"
    then obtain p e where e: "ns iy p = Some e" "b \<in> owned d dsb e" by (auto simp: ran_def)
    from sim_ns[OF s e(1)] obtain e' where "ns ix p = Some e'" "strip e' = strip e" .
    then show "b \<in> (\<Union>e\<in>ran (ns ix). owned d dsb e)"
      using e(2) strip_eqD[of e' e] file_ok_fields(2)[of e e' d dsb] by (auto simp: ran_def)
  qed
  note le = this
  assume s: "sim ix iy"
  then have "sim iy ix" by (simp add: sim_def)
  from le[OF this] le[OF s] show ?thesis by blast
qed

lemma store_exact: "store_ok d dsb m A R \<Longrightarrow> store_ok d dsb m ((\<Union>e\<in>ran m. owned d dsb e) \<union> R) R"
  unfolding store_ok_def ran_def by blast

lemma store_covers: "store_ok d dsb m A R \<Longrightarrow> (\<Union>e\<in>ran m. owned d dsb e) \<union> R \<subseteq> A"
  unfolding store_ok_def ran_def by blast

lemma load_region:
  assumes "good d" "region_holds d sb es R" "R \<subseteq> {..<n}" "unat (sb_data_start_block sb) + n \<le> nb"
  shows "\<exists>d'. (if sb_index_root_block sb \<noteq> BLOCK_NULL then
            (case load_index_region io plba (sb_data_start_block sb) dbs (sb_index_root_block sb)
                    (unat (sb_index_depth sb)) (unat (sb_index_entry_count sb)) (d, v_index fs) of
               (r, (d, ix)) \<Rightarrow> (r, (d, fs\<lparr>v_index := ix\<rparr>)))
          else (Ok (), (d, fs))) = (Ok (), (d', fs\<lparr>v_index := foldl upsert (v_index fs) (map tagged es)\<rparr>)) \<and> good d' \<and> blk d' = blk d"
proof (cases "sb_index_root_block sb = BLOCK_NULL")
  case True
  then show ?thesis using assms by (simp add: region_holds_def)
next
  case False
  let ?r = "sb_index_root_block sb" and ?dsb = "sb_data_start_block sb"
  have r: "index_inv es" "unat (sb_index_depth sb) = region_blocks (length es)" "unat (sb_index_entry_count sb) = length es"
     "R = {unat ?r..<unat ?r + region_blocks (length es)}"
     "\<forall>k<region_blocks (length es). blk d (unat ?dsb + unat ?r + k) = index_block es k"
    using assms(2) False by (auto simp: region_holds_def)
  have "unat ?dsb + unat ?r + k < nb" if "k < region_blocks (length es)" for k
  proof -
    have "unat ?r + k \<in> R" using that by (simp add: r(4))
    then have "unat ?r + k < n" using assms(3) by blast
    then show ?thesis using assms(4) by simp
  qed
  with r(5) have b: "\<forall>k<region_blocks (length es). unat ?dsb + unat ?r + k < nb \<and> blk d (unat ?dsb + unat ?r + k) = index_block es k" by blast
  have wf: "\<forall>e\<in>set es. entry_wf e" using r(1) by (auto simp: index_inv_def entry_ok_def)
  from load_index_region_ok[OF assms(1) wf b, of "v_index fs"] False show ?thesis by (auto simp: r(2,3))
qed

lemma rebuild_ok:
  assumes g: "good d" and fs: "fs_plba fs = plba" "fs_dbs fs = dbs" "v_bitmap fs = bitmap_new n" "n < U32" "index_inv (v_index fs)"
    and rh: "region_holds d (fs_sb fs) es R" and so: "store_ok d dsb (ns (v_index fs)) A R" "A \<subseteq> {..<n}"
    and dsb: "dsb = unat (sb_data_start_block (fs_sb fs))"
  obtains d' bm where "rebuild_bitmap_from_index io (d, fs) = (Ok (), (d', fs\<lparr>v_bitmap := bm\<rparr>))" "good d'" "blk d' = blk d"
    "bitmap_inv bm" "bm_total bm = n" "alloc_set bm = (\<Union>e\<in>ran (ns (v_index fs)). owned d dsb e) \<union> R"
proof -
  let ?r = "sb_index_root_block (fs_sb fs)" and ?k = "unat (sb_index_depth (fs_sb fs))"
  have nbm: "bitmap_inv (bitmap_new n)" "bm_total (bitmap_new n) = n" "alloc_set (bitmap_new n) = {}"
    using fs(4) by (simp_all add: bitmap_inv_new) (simp add: bitmap_new_def)
  from rebuild_targets_ok[OF g nbm(1) _ fs(5) so(1)] fs(4) so(2) nbm(2,3) obtain d1 b1 where
    d1: "rebuild_marks io plba (sb_data_start_block (fs_sb fs)) dbs (rebuild_targets (v_index fs)) (d, bitmap_new n) = (Ok (), (d1, b1))"
      "good d1" "blk d1 = blk d" "bitmap_inv b1" "bm_total b1 = n" "alloc_set b1 = (\<Union>e\<in>ran (ns (v_index fs)). owned d dsb e)"
    by (auto simp: dsb)
  show ?thesis
  proof (cases "?r = BLOCK_NULL")
    case True
    show ?thesis
    proof (rule that[of d1 b1])
      show "rebuild_bitmap_from_index io (d, fs) = (Ok (), (d1, fs\<lparr>v_bitmap := b1\<rparr>))"
        using d1(1) True fs by (simp add: rebuild_bitmap_from_index_def on_dev_bitmap_def)
      show "alloc_set b1 = (\<Union>e\<in>ran (ns (v_index fs)). owned d dsb e) \<union> R" using d1(6) rh True by (simp add: region_holds_def)
    qed (use d1 in auto)
  next
    case False
    then have r: "R = {unat ?r..<unat ?r + ?k}" "?k > 0" using rh by (auto simp: region_holds_def region_blocks_def)
    then have "unat ?r + ?k - 1 \<in> R" by auto
    then have "unat ?r + ?k - 1 < n" using so by (auto simp: store_ok_def)
    then have le: "unat ?r + ?k \<le> bm_total b1" using r(2) d1(5) by linarith
    note m = mark_range_used_spec(1,2)[OF d1(4), of "unat ?r" ?k] mark_range_used_spec(3)[OF d1(4) le]
    show ?thesis
    proof (rule that[of d1 "mark_range_used (unat ?r) ?k b1"])
      show "rebuild_bitmap_from_index io (d, fs) = (Ok (), (d1, fs\<lparr>v_bitmap := mark_range_used (unat ?r) ?k b1\<rparr>))"
        using d1(1) False fs by (simp add: rebuild_bitmap_from_index_def on_dev_bitmap_def)
    qed (use d1 m r(1) in auto)
  qed
qed

lemma mount_log:
  assumes g: "good d" "1 < nb" and sb: "sb_wf sb" "durable (d, fs)" "fs_sb fs = sb" "ring_of sb = (lg_start (v_log fs), lg_end (v_log fs), lg_segs (v_log fs), n)"
    and lk: "log_ok plba dbs nb (v_log fs)" "log_rep (blk d) (v_log fs) rss"
    and l1: "l1 = (log_new sb plba dbs)\<lparr>lg_buf := lg_buf (v_log fs), lg_count := of_nat (length (last rss))\<rparr>"
  obtains d1 d2 where "recover_superblock io plba dbs d = (Ok sb, d1)" "reload_head_segment io (d1, log_new sb plba dbs) = (Ok (), (d2, l1))"
    "good d2" "blk d2 = blk d" "log_ok plba dbs nb l1" "log_rep (blk d) l1 rss"
proof -
  have dk: "blk d 0 = sb_encode sb" "blk d 1 = sb_encode sb" "sb_is_valid sb"
     "unat (sb_log_head_segment sb) = lg_head (v_log fs)"
     "unat (sb_log_head_offset sb) = lg_off (v_log fs)" "unat (sb_log_tail_segment sb) = lg_tail (v_log fs)"
     "take (div_ceil (lg_off (v_log fs)) BLOCK_SIZE * 4096) (seg_img (blk d) (v_log fs) (lg_head (v_log fs))) =
      take (div_ceil (lg_off (v_log fs)) BLOCK_SIZE * 4096) (lg_buf (v_log fs))"
    using sb(2,3) by (auto simp: durable_def)
  from recover_superblock_ok[OF g] dk(1-3) sb(1) obtain d1 where d1: "recover_superblock io plba dbs d = (Ok sb, d1)" "good d1" "blk d1 = blk d"
    by (auto simp: choose_sb_def)
  let ?n = "log_new sb plba dbs"
  have n: "log_ok plba dbs nb ?n" "same_ring (v_log fs) ?n" using lk(1) sb(4) dk(4-6)
    by (simp_all add: log_ok_def log_new_def seg_base_def same_ring_def)
  have "\<exists>d'. reload_head_segment io (d1, ?n) = (Ok (), (d', l1)) \<and> good d' \<and> blk d' = blk d1 \<and> log_ok plba dbs nb l1 \<and> log_rep (blk d') l1 rss"
    by (rule remount_rep[OF d1(2) n(1) _ lk(2) n(2) _ _ _ _ dk(7) l1]) (use dk(4-6) d1(3) in \<open>simp_all add: log_new_def\<close>)
  then show ?thesis using that[OF d1(1)] d1(3) by auto
qed

lemma mount_ok:
  assumes fk: "fs_ok (d, fs)" and du: "durable (d, fs)"
  obtains d' fs' where "mount io plba dbs d = (Ok fs', d')" "fs_ok (d', fs')" "durable (d', fs')" "blk d' = blk d"
    "sim (v_index fs) (v_index fs')" "fs_sb fs' = fs_sb fs" "alloc_set (v_bitmap fs') \<subseteq> alloc_set (v_bitmap fs)"
proof -
  let ?sb = "fs_sb fs" and ?l = "v_log fs" and ?dsb = "unat (sb_data_start_block (fs_sb fs))" and ?n = "bm_total (v_bitmap fs)"
  let ?ck = "sb_checkpoint_lsn ?sb"
  from fk obtain es R sn where fs: "fs_plba fs = plba" "fs_dbs fs = dbs" "sb_wf ?sb" "sb_magic ?sb = HELIX_MAGIC"
      "sb_version ?sb = HELIX_VERSION"
    and rh: "region_holds d ?sb es R" and vk: "vol_ok (ring_of ?sb) ?dsb ?ck (reloaded es) R sn (d, fs)" by (rule fs_okE)
  from vk have sh: "vol_shape (ring_of ?sb) ?dsb R d fs" and lo: "vol_log ?ck (reloaded es) d fs sn" by (auto simp: vol_ok_def)
  from lo obtain rs iy where rs: "?ck < lg_next_lsn ?l" "log_state d ?l rs" "\<forall>r\<in>set rs. rh_lsn (fst r) < lg_next_lsn ?l"
    "replay_all ?ck rs (reloaded es, []) = (Ok (), (iy, sn))" "sim (v_index fs) iy"
    unfolding vol_log_def by blast
  from rs(2) obtain rss where lk: "log_ok plba dbs nb ?l" "log_rep (blk d) ?l rss" "concat rss = rs" by (auto simp: log_state_def)
  have g: "good d" and bm: "bitmap_inv (v_bitmap fs)" "?n < U32" "?dsb + ?n \<le> nb"
    and rg: "ring_of ?sb = (lg_start ?l, lg_end ?l, lg_segs ?l, ?n)" and ring: "2 \<le> seg_base ?l 0" "seg_base ?l (lg_segs ?l) \<le> ?dsb"
    and so: "store_ok d ?dsb (ns (v_index fs)) (alloc_set (v_bitmap fs)) R" using sh by (auto simp: vol_shape_def)
  have R: "R \<subseteq> {..<?n}" "alloc_set (v_bitmap fs) \<subseteq> {..<?n}" using so by (auto simp: store_ok_def alloc_set_def)
  have nb: "1 < nb" using ring bm by (simp add: seg_base_def)
  define l1 where "l1 = (log_new ?sb plba dbs)\<lparr>lg_buf := lg_buf ?l, lg_count := of_nat (length (last rss))\<rparr>"
  from mount_log[OF g nb fs(3) du refl rg lk(1,2) l1_def] obtain d1 d2 where
    d1: "recover_superblock io plba dbs d = (Ok ?sb, d1)" and d2: "reload_head_segment io (d1, log_new ?sb plba dbs) = (Ok (), (d2, l1))"
    "good d2" "blk d2 = blk d" "log_ok plba dbs nb l1" "log_rep (blk d) l1 rss" .
  let ?f1 = "(from_superblock ?sb plba dbs)\<lparr>v_log := l1\<rparr>"
  have "region_holds d2 ?sb es R" using rh by (simp add: region_holds_def d2(3))
  from load_region[OF d2(2) this R(1) bm(3), of ?f1] obtain d3 where
    d3: "(if sb_index_root_block ?sb \<noteq> BLOCK_NULL then
            (case load_index_region io plba (sb_data_start_block ?sb) dbs (sb_index_root_block ?sb)
                    (unat (sb_index_depth ?sb)) (unat (sb_index_entry_count ?sb)) (d2, v_index ?f1) of
               (r, (d, ix)) \<Rightarrow> (r, (d, ?f1\<lparr>v_index := ix\<rparr>)))
          else (Ok (), (d2, ?f1))) = (Ok (), (d3, ?f1\<lparr>v_index := reloaded es\<rparr>))" "good d3" "blk d3 = blk d"
    using d2(3) by auto
  have "log_rep (blk d3) l1 rss" "replay_all ?ck (concat rss) (reloaded es, []) = (Ok (), (iy, sn))" using d2(5) d3(3) rs(4) lk(3) by simp_all
  from replay_log_rep[OF d3(2) d2(4) this] obtain d4 h where
    d4: "replay_log io l1 ?ck d3 (reloaded es, []) = (Ok h, d4, (compact iy, sn))" "good d4" "blk d4 = blk d" using d3(3) by auto
  have sz: "sim (v_index fs) (compact iy)" using rs(5) by (simp add: sim_def nsv_def fun_eq_iff index_inv_compact)
  let ?f4 = "?f1\<lparr>v_index := compact iy, fs_snapshot_lsns := sn\<rparr>"
  obtain d5 bm5 where d5: "rebuild_bitmap_from_index io (d4, ?f4) = (Ok (), (d5, ?f4\<lparr>v_bitmap := bm5\<rparr>))" "good d5" "blk d5 = blk d4"
    "bitmap_inv bm5" "bm_total bm5 = ?n" "alloc_set bm5 = (\<Union>e\<in>ran (ns (compact iy)). owned d4 ?dsb e) \<union> R"
  proof (rule rebuild_ok[OF d4(2), of ?f4 ?n es R ?dsb "alloc_set (v_bitmap fs)"])
    show "region_holds d4 (fs_sb ?f4) es R" using rh by (simp add: region_holds_def d4(3))
    show "store_ok d4 ?dsb (ns (v_index ?f4)) (alloc_set (v_bitmap fs)) R" using sim_store[OF sz so] same_blocks(4)[OF d4(3)] by simp
  qed (use fs R sz bm rg in \<open>auto simp: sim_def\<close>)
  have al: "alloc_set bm5 = (\<Union>e\<in>ran (ns (v_index fs)). owned d ?dsb e) \<union> R" using d5(6) sim_owned[OF sz] same_blocks(1)[OF d4(3)] by simp
  have b: "blk d5 = blk d" using d5(3) d4(3) by simp
  let ?fs' = "?f4\<lparr>v_bitmap := bm5\<rparr>"
  have mnt: "mount io plba dbs d = (Ok ?fs', d5)"
    using d1 d2(1) d3(1) d4(1) d5(1) fs(5)
    by (simp add: mount_def on_log_def Let_def split del: if_split)
  show ?thesis
  proof (rule that[OF mnt])
    have sr: "seg_base l1 = seg_base ?l" "lg_segs l1 = lg_segs ?l" "lg_next_lsn l1 = lg_next_lsn ?l" "(lg_start l1, lg_end l1, lg_segs l1, ?n) = ring_of ?sb"
      using du rg by (auto simp: l1_def log_new_def seg_base_def fun_eq_iff durable_def)
    have "store_ok d5 ?dsb (ns (compact iy)) (alloc_set bm5) R"
      using store_exact[OF sim_store[OF sz so]] same_blocks[OF b] sim_owned[OF sz] al by simp
    then have "vol_shape (ring_of ?sb) ?dsb R d5 ?fs'" using d5 bm ring sr by (simp add: vol_shape_def)
    moreover have "vol_log ?ck (reloaded es) d5 ?fs' sn"
    proof (rule vol_logI)
      show "log_state d5 (v_log ?fs') rs" using d2(4,5) lk(3) b by (auto simp: log_state_def)
      show "sim (v_index ?fs') iy" using rs(5) by (auto simp: sim_def nsv_def fun_eq_iff index_inv_compact)
    qed (use rs sr in simp_all)
    moreover have "region_holds d5 ?sb es R" using rh by (simp add: region_holds_def b)
    ultimately show "fs_ok (d5, ?fs')" unfolding fs_ok_def vol_ok_def prod.case
      by (intro conjI exI[of _ es] exI[of _ R] exI[of _ sn]) (use fs d5(5) in simp_all)
    show "durable (d5, ?fs')" using du rg by (simp add: durable_def b l1_def log_new_def seg_img_def seg_base_def)
    show "blk d5 = blk d" by (rule b)
    show "sim (v_index fs) (v_index ?fs')" using sz by simp
    show "fs_sb ?fs' = ?sb" by simp
    show "alloc_set (v_bitmap ?fs') \<subseteq> alloc_set (v_bitmap fs)" using al store_covers[OF so] by simp
  qed
qed

end

subsection \<open>What the calls of the engine return\<close>

lemma sorted_key_unique:
  fixes f :: "'a \<Rightarrow> 'b::linorder"
  assumes "sorted_wrt (\<lambda>a b. f a < f b) xs" "sorted_wrt (\<lambda>a b. f a < f b) ys" "set xs = set ys"
  shows "xs = ys"
  using assms
proof (induction xs arbitrary: ys)
  case (Cons x xs)
  then obtain y ys' where ys: "ys = y # ys'" by (cases ys) auto
  have "x = y"
  proof (rule ccontr)
    assume "x \<noteq> y"
    then have "x \<in> set ys'" "y \<in> set xs" using Cons.prems(3) by (auto simp: ys)
    then have "f y < f x" "f x < f y" using Cons.prems(1,2) by (auto simp: ys)
    then show False by simp
  qed
  moreover have "x \<notin> set xs" "y \<notin> set ys'" using Cons.prems(1,2) by (auto simp: ys)
  ultimately have "set xs = set ys'" using Cons.prems(3) by (auto simp: ys)
  then show ?case using Cons.IH[of ys'] Cons.prems(1,2) \<open>x = y\<close> by (simp add: ys)
qed simp

text \<open>Similar indexes hold the same live entries in the same order, checksums aside.\<close>

lemma sim_entries:
  assumes "sim ix iy"
  shows "map strip (compact ix) = map strip (compact iy)"
proof (rule sorted_key_unique[of entry_ord])
  have o: "entry_ord (strip e) = entry_ord e" for e by (simp add: entry_ord_def strip_def)
  have s: "sorted_wrt (\<lambda>a b. entry_ord a < entry_ord b) (map strip (compact jx))" if "index_inv jx" for jx
    using index_inv_compact[OF that] by (simp add: index_inv_def sorted_wrt_map o)
  show "sorted_wrt (\<lambda>a b. entry_ord a < entry_ord b) (map strip (compact ix))"
    "sorted_wrt (\<lambda>a b. entry_ord a < entry_ord b) (map strip (compact iy))" using s assms by (auto simp: sim_def)
  have sub: "set (map strip (compact jx)) \<subseteq> set (map strip (compact jy))" if j: "sim jx jy" for jx jy
  proof
    fix x assume "x \<in> set (map strip (compact jx))"
    then obtain e where e: "e \<in> set jx" "live e" "x = strip e" by (auto simp: compact_def)
    then have "ns jx (epath e) = Some e" using j by (simp add: sim_def ns_Some_iff)
    from sim_ns[OF j this] obtain e' where "ns jy (epath e) = Some e'" "strip e' = strip e" .
    then have "e' \<in> set (compact jy)" "x = strip e'" using e j by (auto simp: sim_def ns_Some_iff compact_def)
    then show "x \<in> set (map strip (compact jy))" by simp
  qed
  have "sim iy ix" using assms by (auto simp: sim_def)
  from sub[OF assms] sub[OF this] show "set (map strip (compact ix)) = set (map strip (compact iy))" by blast
qed

lemma readdir_compact: "readdir (compact ix) p = readdir ix p"
  by (simp add: readdir_def compact_def Let_def conj_ac)

lemma readdir_strip: "map strip (readdir ix p) = readdir (map strip ix) p"
  by (induction ix) (auto simp: readdir_def Let_def)

lemma list_child_strip:
  assumes "strip e' = strip e"
  shows "list_child n e' = list_child n e"
  unfolding list_child_def strip_eqD[OF assms] ..

lemma list_children_strip: "map strip es' = map strip es \<Longrightarrow> list_children n es' = list_children n es"
proof (induction es arbitrary: es')
  case (Cons e es)
  then obtain f fs where "es' = f # fs" "strip f = strip e" "map strip fs = map strip es" by (cases es') auto
  then show ?case using Cons.IH[of fs] list_child_strip[of f e n] by simp
qed simp

lemma strip_option:
  assumes "map_option strip x = map_option strip y"
  obtains "x = None" "y = None" | e e' where "x = Some e" "y = Some e'" "strip e = strip e'"
  using assms by (cases x; cases y) auto

lemma lookup_flex_sim: "sim ix iy \<Longrightarrow> map_option strip (lookup_flex ix p) = map_option strip (lookup_flex iy p)"
  using sim_lookup[of ix iy p] sim_lookup[of ix iy "p @ [SLASH]"] sim_lookup[of ix iy "butlast p"]
  by (cases "lookup ix p"; cases "lookup iy p") (simp_all add: lookup_flex_def)

lemma fs_stat_sim:
  assumes "sim (v_index fs) (v_index fs')"
  shows "fs_stat fs' p = fs_stat fs p"
proof (rule strip_option[OF lookup_flex_sim[OF assms, of p]])
  fix e e' assume e: "lookup_flex (v_index fs) p = Some e" "lookup_flex (v_index fs') p = Some e'" "strip e = strip e'"
  show ?thesis unfolding fs_stat_def stat_file_def e(1,2) option.case strip_eqD[OF e(3)] ..
qed (simp add: fs_stat_def stat_file_def)

lemma fs_readdir_sim:
  assumes "sim (v_index fs) (v_index fs')"
  shows "fs_readdir fs' p = fs_readdir fs p"
proof -
  have r: "list_children n (readdir (v_index fs') q) = list_children n (readdir (v_index fs) q)" for n q
    by (rule list_children_strip) (metis readdir_compact readdir_strip sim_entries[OF assms])
  have "(case lookup (v_index fs') q of None \<Rightarrow> Err NotFound
            | Some dir_entry \<Rightarrow> if \<not> has_flag dir_entry IS_DIR then Err NotADirectory
                else if has_flag dir_entry IS_DELETED then Err NotFound else Ok ()) =
        (case lookup (v_index fs) q of None \<Rightarrow> Err NotFound
            | Some dir_entry \<Rightarrow> if \<not> has_flag dir_entry IS_DIR then Err NotADirectory
                else if has_flag dir_entry IS_DELETED then Err NotFound else Ok ())" for q
  proof (rule strip_option[OF sim_lookup[OF assms, of q]])
    fix e e' assume e: "lookup (v_index fs) q = Some e" "lookup (v_index fs') q = Some e'" "strip e = strip e'"
    show ?thesis unfolding e(1,2) option.case strip_eqD[OF e(3)] ..
  qed simp
  then show ?thesis unfolding fs_readdir_def readdir_op_def Let_def r by presburger
qed

context partition
begin

definition same_view :: "'d \<times> helix_fs \<Rightarrow> 'd \<times> helix_fs \<Rightarrow> bool" where
  "same_view = (\<lambda>(d, fs) (d', fs'). \<forall>p. fst (fs_read io fs' p d') = fst (fs_read io fs p d) \<and>
     fs_stat fs' p = fs_stat fs p \<and> fs_readdir fs' p = fs_readdir fs p)"

lemma sim_same_view:
  assumes vk: "vol_ok rg dsb ck base R sn (d, fs)" and vk': "vol_ok rg' dsb ck' base' R' sn' (d', fs')"
    and sm: "sim (v_index fs) (v_index fs')" and b: "\<forall>b\<in>alloc_set (v_bitmap fs). blk d' (dsb + b) = blk d (dsb + b)"
    and fs: "fs_plba fs = plba" "fs_dbs fs = dbs" "unat (sb_data_start_block (fs_sb fs)) = dsb"
      "fs_plba fs' = plba" "fs_dbs fs' = dbs" "unat (sb_data_start_block (fs_sb fs')) = dsb"
  shows "same_view (d, fs) (d', fs')"
proof -
  have ii: "index_inv (v_index fs)" "index_inv (v_index fs')" using vol_index_inv[OF vk] vol_index_inv[OF vk'] .
  have so: "good d" "store_ok d dsb (ns (v_index fs)) (alloc_set (v_bitmap fs)) R" "good d'"
    using vk vk' by (auto simp: vol_ok_def vol_shape_def)
  have dsb: "sb_data_start_block (fs_sb fs) = of_nat dsb" "sb_data_start_block (fs_sb fs') = of_nat dsb" using fs(3,6) by (auto intro!: word_unat_eq_iff[THEN iffD2])
  have "fst (fs_read io fs' p d') = fst (fs_read io fs p d)" for p
  proof (cases "ns (v_index fs) p")
    case None
    then show ?thesis using sim_ns_None[OF sm, of p] ii by (simp add: fs_read_def lookup_ns)
  next
    case (Some e)
    from sim_ns[OF sm Some] obtain e' where e': "ns (v_index fs') p = Some e'" "strip e' = strip e" .
    note f = strip_eqD[OF e'(2)]
    show ?thesis
    proof (cases "has_flag e IS_INLINE \<or> has_flag e IS_DIR")
      case True
      then show ?thesis using Some e'(1) ii f by (auto simp: fs_read_def read_file_def lookup_ns)
    next
      case False
      then obtain x where x: "file_ok d dsb e x" using store_okD(2)[OF so(2) Some] by blast
      have "file_ok d' dsb e x" using entry_frame(2)[OF so(2) Some _ x] b by simp
      then have x': "file_ok d' dsb e' x" using file_ok_fields(1)[of e' e d' dsb x] f by simp
      show ?thesis using read_file_ok[OF so(1) ii(1) Some x] read_file_ok[OF so(3) ii(2) e'(1) x'] False Some e'(1) f ii
        by (auto simp: fs_read_def lookup_ns fs dsb)
    qed
  qed
  then show ?thesis using fs_stat_sim[OF sm] fs_readdir_sim[OF sm] by (simp add: same_view_def)
qed

lemma sync_mount_ok:
  assumes "fs_ok (d, fs)"
  obtains d1 fs1 d2 fs2 where "sync io (d, fs) = (Ok (), (d1, fs1))" "same_view (d, fs) (d1, fs1)"
    "mount io plba dbs d1 = (Ok fs2, d2)" "fs_ok (d2, fs2)" "same_view (d, fs) (d2, fs2)" "alloc_set (v_bitmap fs2) \<subseteq> alloc_set (v_bitmap fs)"
proof -
  from sync_ok[OF assms] obtain d1 fs1 where s: "sync io (d, fs) = (Ok (), (d1, fs1))" "fs_ok (d1, fs1)" "durable (d1, fs1)"
    "v_index fs1 = v_index fs" "v_bitmap fs1 = v_bitmap fs" "fs_snapshot_lsns fs1 = fs_snapshot_lsns fs"
    "sb_data_start_block (fs_sb fs1) = sb_data_start_block (fs_sb fs)"
    "\<forall>b\<ge>unat (sb_data_start_block (fs_sb fs)). blk d1 b = blk d b" "v_log fs1 = (v_log fs)\<lparr>lg_buf := seal_header (v_log fs)\<rparr>" .
  from mount_ok[OF s(2,3)] obtain d2 fs2 where m: "mount io plba dbs d1 = (Ok fs2, d2)" "fs_ok (d2, fs2)" "durable (d2, fs2)" "blk d2 = blk d1"
    "sim (v_index fs1) (v_index fs2)" "fs_sb fs2 = fs_sb fs1" "alloc_set (v_bitmap fs2) \<subseteq> alloc_set (v_bitmap fs1)" .
  have sm: "sim (v_index fs) (v_index fs1)" "sim (v_index fs) (v_index fs2)" using m(5) s(4) by (auto simp: sim_def)
  obtain es R sn where f: "fs_plba fs = plba" "fs_dbs fs = dbs"
    "vol_ok (ring_of (fs_sb fs)) (unat (sb_data_start_block (fs_sb fs))) (sb_checkpoint_lsn (fs_sb fs)) (reloaded es) R sn (d, fs)"
    by (rule fs_okE[OF assms])
  obtain es1 R1 sn1 where f1: "fs_plba fs1 = plba" "fs_dbs fs1 = dbs"
    "vol_ok (ring_of (fs_sb fs1)) (unat (sb_data_start_block (fs_sb fs))) (sb_checkpoint_lsn (fs_sb fs1)) (reloaded es1) R1 sn1 (d1, fs1)"
    using fs_okE[OF s(2)] s(7) by metis
  obtain es2 R2 sn2 where f2: "fs_plba fs2 = plba" "fs_dbs fs2 = dbs"
    "vol_ok (ring_of (fs_sb fs2)) (unat (sb_data_start_block (fs_sb fs))) (sb_checkpoint_lsn (fs_sb fs2)) (reloaded es2) R2 sn2 (d2, fs2)"
    using fs_okE[OF m(2)] s(7) m(6) by metis
  have "same_view (d, fs) (d1, fs1)" by (rule sim_same_view[OF f(3) f1(3) sm(1) _ f(1,2) refl f1(1,2)]) (use s(7,8) in simp_all)
  moreover have "same_view (d, fs) (d2, fs2)"
    by (rule sim_same_view[OF f(3) f2(3) sm(2) _ f(1,2) refl f2(1,2)]) (use s(7,8) m(4,6) in simp_all)
  ultimately show ?thesis using that[OF s(1) _ m(1,2)] m(7) s(5) by simp
qed

end

subsection \<open>Checkpoint\<close>

context partition
begin

lemma log_state_reset:
  assumes "log_state d l rs"
  obtains rs' where "log_state d (reset_ring l) rs'" "set rs' \<subseteq> set rs"
proof -
  from assms obtain rss where l: "log_ok plba dbs nb l" "log_rep (blk d) l rss" "concat rss = rs" by (auto simp: log_state_def)
  have ne: "rss \<noteq> []" using l(2) by (auto simp: log_rep_def)
  have "log_rep (blk d) (reset_ring l) [last rss]" "log_ok plba dbs nb (reset_ring l)"
    using l(1,2) by (simp_all add: log_rep_def reset_ring_def ring_dist_def log_ok_def seg_base_def)
  then have "log_state d (reset_ring l) (last rss)" unfolding log_state_def by (auto intro: exI[of _ "[last rss]"])
  moreover have "set (last rss) \<subseteq> set rs" using last_in_set[OF ne] l(3) by auto
  ultimately show ?thesis by (rule that)
qed

lemma sim_reloaded:
  assumes "index_inv ix"
  shows "sim ix (reloaded (compact ix))"
proof -
  have "strip (tagged e) = strip e" for e by (simp add: strip_def tagged_def)
  moreover have "\<forall>e\<in>set (compact ix). live e" by (simp add: compact_def)
  ultimately show ?thesis using ns_reloaded[OF index_inv_compact[OF assms]] assms
    by (simp add: sim_def nsv_def fun_eq_iff option.map_comp comp_def)
qed

lemma store_region: "store_ok d dsb m A R \<Longrightarrow> R' \<inter> A = {} \<Longrightarrow> store_ok d dsb m (A \<union> R') R'"
  unfolding store_ok_def by blast

text \<open>The volume after its index went to the blocks \<open>R'\<close>: nothing of the old log is needed any more.\<close>

lemma checkpoint_vol:
  assumes vk: "vol_ok rg dsb ck base R sn (d, v)" and bm: "bitmap_inv bm" "bm_total bm = bm_total (v_bitmap v)"
      "alloc_set bm = alloc_set (v_bitmap v) \<union> R'" "R' \<inter> alloc_set (v_bitmap v) = {}"
    and d1: "good d1" "\<forall>b. b < dsb \<or> b - dsb \<notin> R' \<longrightarrow> blk d1 b = blk d b"
    and w: "v_log w = reset_ring (v_log v)" "v_bitmap w = bm" "v_index w = v_index v"
  shows "vol_ok rg dsb (lg_next_lsn (v_log v) - 1) (reloaded (compact (v_index v))) R' [] (d1, w)"
proof -
  from vk have sh: "vol_shape rg dsb R d v" and lo: "vol_log ck base d v sn" by (auto simp: vol_ok_def)
  from lo obtain rs where rs: "ck < lg_next_lsn (v_log v)" "log_state d (v_log v) rs" "\<forall>r\<in>set rs. rh_lsn (fst r) < lg_next_lsn (v_log v)"
    unfolding vol_log_def by blast
  from log_state_reset[OF rs(2)] obtain rs' where rs': "log_state d (reset_ring (v_log v)) rs'" "set rs' \<subseteq> set rs" .
  have so: "store_ok d dsb (ns (v_index v)) (alloc_set (v_bitmap v)) R" and ring: "seg_base (v_log v) (lg_segs (v_log v)) \<le> dsb"
    using sh by (auto simp: vol_shape_def)
  have "store_ok d1 dsb (ns (v_index v)) (alloc_set (v_bitmap v)) R"
    by (rule store_frame[OF so]) (use d1(2) bm(4) in auto)
  from store_region[OF this bm(4)] have "vol_shape rg dsb R' d1 w"
    using sh d1(1) bm w by (simp add: vol_shape_def reset_ring_def seg_base_def)
  moreover have "vol_log (lg_next_lsn (v_log v) - 1) (reloaded (compact (v_index v))) d1 w []"
  proof (rule vol_logI)
    have pos: "0 < lg_next_lsn (v_log v)" using rs(1) by (rule le_less_trans[rotated]) simp
    then have um: "unat (lg_next_lsn (v_log v) - 1) = unat (lg_next_lsn (v_log v)) - 1" by (intro unat_minus_one) auto
    show lt: "lg_next_lsn (v_log v) - 1 < lg_next_lsn (v_log w)"
      using pos by (simp add: w(1) reset_ring_def word_less_nat_alt um)
    show "log_state d1 (v_log w) rs'" unfolding w(1)
      by (rule log_state_cong[OF rs'(1)]) (use d1(2) ring in \<open>auto simp: in_ring_def reset_ring_def seg_base_def\<close>)
    show "\<forall>r\<in>set rs'. rh_lsn (fst r) < lg_next_lsn (v_log w)" using rs(3) rs'(2) by (auto simp: w(1) reset_ring_def)
    have "\<forall>r\<in>set rs'. rh_lsn (fst r) \<le> lg_next_lsn (v_log v) - 1"
    proof
      fix r assume "r \<in> set rs'"
      then have "rh_lsn (fst r) < lg_next_lsn (v_log v)" using rs(3) rs'(2) by blast
      then show "rh_lsn (fst r) \<le> lg_next_lsn (v_log v) - 1" using pos by (simp add: word_less_nat_alt word_le_nat_alt um)
    qed
    then show "replay_all (lg_next_lsn (v_log v) - 1) rs' (reloaded (compact (v_index v)), []) = (Ok (), (reloaded (compact (v_index v)), []))"
      by (rule replay_all_old)
    show "sim (v_index w) (reloaded (compact (v_index v)))" unfolding w(3) by (rule sim_reloaded[OF vol_index_inv[OF vk]])
  qed
  ultimately show ?thesis by (simp add: vol_ok_def)
qed

lemma region_free:
  assumes vk: "vol_ok rg dsb ck base R' sn (d, v)" and F: "F \<subseteq> alloc_set (v_bitmap v)" "F = {s..<s + k}" "F \<inter> R' = {}"
      "\<And>p e. ns (v_index v) p = Some e \<Longrightarrow> owned d dsb e \<inter> F = {}"
  obtains bm where "free_range s k (v_bitmap v) = (Ok (), bm)" "vol_ok rg dsb ck base R' sn (d, v\<lparr>v_bitmap := bm\<rparr>)"
    "bm_total bm = bm_total (v_bitmap v)" "alloc_set bm = alloc_set (v_bitmap v) - F"
proof -
  have so: "good d" "bitmap_inv (v_bitmap v)" "store_ok d dsb (ns (v_index v)) (alloc_set (v_bitmap v)) R'"
    using vk by (auto simp: vol_ok_def vol_shape_def)
  from free_range_Ok[OF so(2) F(1)[unfolded F(2)]] obtain bm where
    bm: "free_range s k (v_bitmap v) = (Ok (), bm)" "alloc_set bm = alloc_set (v_bitmap v) - F" "bitmap_inv bm"
      "bm_total bm = bm_total (v_bitmap v)" unfolding F(2) .
  have "store_ok d dsb (ns (v_index v)) (alloc_set bm) R'" unfolding bm(2) by (rule store_free[OF so(3) F(3,4)])
  from that[OF bm(1) vol_ok_rebitmap[OF vk bm(3,4) this so(1) refl] bm(4,2)] show ?thesis .
qed

end

lemma and_then_assoc: "and_then (and_then m f) g = and_then m (\<lambda>x s. and_then (f x s) g)"
  by (cases m; cases "fst m") auto

lemma checkpoint_steps:
  assumes "alloc_contiguous n (v_bitmap fs) = (Ok s, bm)" "n = region_blocks (length (compact (v_index fs)))" "lg_next_lsn (v_log fs) \<noteq> 0"
    and "write_index_region io (fs_plba fs) (sb_data_start_block (fs_sb fs)) (fs_dbs fs) (of_nat s) (compact (v_index fs)) d = (Ok (), d1)"
    and "fs1 = fs\<lparr>v_bitmap := bm, v_log := reset_ring (v_log fs), fs_sb := (fs_sb fs)\<lparr>sb_index_root_block := of_nat s, sb_index_depth := of_nat n,
      sb_index_entry_count := of_nat (length (compact (v_index fs))), sb_checkpoint_lsn := lg_next_lsn (v_log fs) - 1\<rparr>\<rparr>"
    and "sync io (d1, fs1) = (Ok (), (d2, fs2))"
  shows "checkpoint io (d, fs) = (Ok (), (d2, if sb_index_root_block (fs_sb fs) \<noteq> BLOCK_NULL
      then fs2\<lparr>v_bitmap := snd (free_range (unat (sb_index_root_block (fs_sb fs))) (unat (sb_index_depth (fs_sb fs))) (v_bitmap fs2))\<rparr> else fs2))"
proof -
  have co: "filter live (v_index fs) = compact (v_index fs)" by (simp add: compact_def)
  let ?g = "\<lambda>_ (d, fs'). (Ok (), (d, if sb_index_root_block (fs_sb fs) \<noteq> BLOCK_NULL
      then fs'\<lparr>v_bitmap := snd (free_range (unat (sb_index_root_block (fs_sb fs))) (unat (sb_index_depth (fs_sb fs))) (v_bitmap fs'))\<rparr> else fs'))"
  have "checkpoint io (d, fs) = and_then (sync io (d1, fs1)) ?g"
    unfolding sync_def and_then_assoc checkpoint_def prod.case Let_def co assms(2)[symmetric] on_bitmap_def assms(1) and_then_simps assms(4) assms(5)
    using assms(3,4) by (simp add: case_prod_unfold cong: if_cong)
  then show ?thesis by (simp add: assms(6))
qed

context partition
begin

abbreviation index_space :: "helix_fs \<Rightarrow> nat" where
  "index_space fs \<equiv> region_blocks (length (compact (v_index fs)))"

lemma region_written:
  assumes "index_inv es" "\<forall>e\<in>set es. live e" "length es < U32" "s + region_blocks (length es) < U32"
    and "sb_index_root_block sb = of_nat s" "sb_index_depth sb = of_nat (region_blocks (length es))" "sb_index_entry_count sb = of_nat (length es)"
    and "\<forall>k<region_blocks (length es). blk d (unat (sb_data_start_block sb) + s + k) = index_block es k"
  shows "region_holds d sb es {s..<s + region_blocks (length es)}"
proof -
  have s: "unat (of_nat s :: u64) = s" using assms(4) by (simp add: unat_of_nat take_bit_nat_eq_self)
  have "(of_nat s :: u64) \<noteq> BLOCK_NULL"
  proof
    assume "(of_nat s :: u64) = BLOCK_NULL"
    then have "s = unat BLOCK_NULL" using s by simp
    then show False using assms(4) by (simp add: BLOCK_NULL_def)
  qed
  then show ?thesis using assms s by (simp add: region_holds_def unat_of_nat take_bit_nat_eq_self)
qed

lemma old_region_free:
  assumes vk: "vol_ok rg dsb ck base R' sn (d', v)" and so: "store_ok d dsb (ns (v_index v)) A R"
    and al: "alloc_set (v_bitmap v) = A \<union> R'" "R' \<inter> A = {}" "\<forall>b\<in>A. blk d' (dsb + b) = blk d (dsb + b)"
    and rh: "region_holds d sb es R"
    and bm: "bm = (if sb_index_root_block sb \<noteq> BLOCK_NULL
      then snd (free_range (unat (sb_index_root_block sb)) (unat (sb_index_depth sb)) (v_bitmap v)) else v_bitmap v)"
  shows "vol_ok rg dsb ck base R' sn (d', v\<lparr>v_bitmap := bm\<rparr>) \<and> bm_total bm = bm_total (v_bitmap v)"
proof (cases "sb_index_root_block sb = BLOCK_NULL")
  case True
  then show ?thesis using vk by (simp add: bm)
next
  case False
  have R: "R \<subseteq> A" "R = {unat (sb_index_root_block sb)..<unat (sb_index_root_block sb) + unat (sb_index_depth sb)}"
    using so rh False by (simp_all add: store_ok_def region_holds_def)
  have ow: "owned d' dsb e \<inter> R = {}" if "ns (v_index v) p = Some e" for p e
    using entry_frame(1)[OF so that, of d'] al(3) store_okD(1)[OF so that] by auto
  show ?thesis
    by (rule region_free[OF vk _ R(2) _ ow]) (use R(1) al(1,2) False in \<open>auto simp: bm\<close>)
qed

lemma checkpoint_ok:
  assumes fk: "fs_ok (d, fs)" and len: "length (v_index fs) < U32"
  obtains (ok) d' fs' where "checkpoint io (d, fs) = (Ok (), (d', fs'))" "fs_ok (d', fs')" "durable (d', fs')"
      "same_view (d, fs) (d', fs')" "v_index fs' = v_index fs" "lg_next_lsn (v_log fs') = lg_next_lsn (v_log fs)"
      "v_log fs' = (reset_ring (v_log fs))\<lparr>lg_buf := seal_header (reset_ring (v_log fs))\<rparr>"
      "sb_checkpoint_lsn (fs_sb fs') = lg_next_lsn (v_log fs) - 1"
  | (nospace) "checkpoint io (d, fs) = (Err NoSpace, (d, fs))" "\<forall>s. \<not> free_run (v_bitmap fs) s (index_space fs)"
proof -
  let ?sb = "fs_sb fs" and ?dsb = "unat (sb_data_start_block (fs_sb fs))" and ?es = "compact (v_index fs)" and ?n = "index_space fs"
  from fk obtain es R sn where fs: "fs_plba fs = plba" "fs_dbs fs = dbs" "sb_wf ?sb" "sb_magic ?sb = HELIX_MAGIC"
      "sb_version ?sb = HELIX_VERSION"
    and rh: "region_holds d ?sb es R" and vk: "vol_ok (ring_of ?sb) ?dsb (sb_checkpoint_lsn ?sb) (reloaded es) R sn (d, fs)" by (rule fs_okE)
  have g: "good d" and bi: "bitmap_inv (v_bitmap fs)" "bm_total (v_bitmap fs) < U32" "?dsb + bm_total (v_bitmap fs) \<le> nb"
    and so: "store_ok d ?dsb (ns (v_index fs)) (alloc_set (v_bitmap fs)) R"
    and nl: "sb_checkpoint_lsn ?sb < lg_next_lsn (v_log fs)"
    using vk by (auto simp: vol_ok_def vol_shape_def vol_log_def)
  have n: "0 < ?n" by (simp add: region_blocks_def)
  have co: "filter live (v_index fs) = ?es" by (simp add: compact_def)
  from alloc_contiguous_cases[OF bi(1) n] show ?thesis
  proof (elim disjE exE conjE)
    assume "\<forall>s. \<not> free_run (v_bitmap fs) s ?n" "alloc_contiguous ?n (v_bitmap fs) = (Err NoSpace, v_bitmap fs)"
    then show ?thesis by (intro nospace) (simp_all add: checkpoint_def on_bitmap_def Let_def co)
  next
    fix s assume "alloc_contiguous ?n (v_bitmap fs) = (Ok s, (set_run s ?n (v_bitmap fs))\<lparr>bm_free := bm_free (v_bitmap fs) - ?n, bm_hint := (s + ?n) mod bm_total (v_bitmap fs)\<rparr>)"
    then obtain bm1 where ac: "alloc_contiguous ?n (v_bitmap fs) = (Ok s, bm1)" by blast
    note bm1 = alloc_contiguous_Ok[OF bi(1) ac]
    let ?R = "{s..<s + ?n}"
    have fr: "s + ?n \<le> bm_total (v_bitmap fs)" "?R \<inter> alloc_set (v_bitmap fs) = {}" using bm1(1) by (auto simp: free_run_def)
    have wf: "\<forall>e\<in>set ?es. entry_wf e" using index_inv_compact[OF vol_index_inv[OF vk]] by (auto simp: index_inv_def entry_ok_def)
    from write_index_region_ok[OF g wf, of ?dsb s] fr(1) bi(3) obtain d1 where
      d1: "write_index_region io plba (sb_data_start_block ?sb) dbs (of_nat s) ?es d = (Ok (), d1)" "good d1"
        "blk d1 = (\<lambda>b. if ?dsb + s \<le> b \<and> b < ?dsb + s + ?n then index_block ?es (b - (?dsb + s)) else blk d b)" by auto
    let ?ck = "lg_next_lsn (v_log fs) - 1"
    let ?sb1 = "?sb\<lparr>sb_index_root_block := of_nat s, sb_index_depth := of_nat ?n, sb_index_entry_count := of_nat (length ?es), sb_checkpoint_lsn := ?ck\<rparr>"
    let ?fs1 = "fs\<lparr>v_bitmap := bm1, v_log := reset_ring (v_log fs), fs_sb := ?sb1\<rparr>"
    have vk1: "vol_ok (ring_of ?sb) ?dsb ?ck (reloaded ?es) ?R [] (d1, ?fs1)"
      by (rule checkpoint_vol[OF vk bm1(4,5,3) fr(2) d1(2)]) (auto simp: d1(3))
    obtain d2 fs2 where s2: "sync io (d1, ?fs1) = (Ok (), (d2, fs2))" "vol_ok (ring_of ?sb) ?dsb ?ck (reloaded ?es) ?R [] (d2, fs2)"
      "durable (d2, fs2)" "v_index fs2 = v_index fs" "v_bitmap fs2 = bm1" "\<forall>b\<ge>?dsb. blk d2 b = blk d1 b"
      "fs_sb fs2 = sb_update_crc (sb_track_log ?ck (reset_ring (v_log fs)) ?sb1)"
      "fs_plba fs2 = plba" "fs_dbs fs2 = dbs" "v_log fs2 = (reset_ring (v_log fs))\<lparr>lg_buf := seal_header (reset_ring (v_log fs))\<rparr>"
      by (rule flush_track_ok[OF vk1]) (use fs in \<open>simp_all add: sb_wf_def reset_ring_def\<close>)
    note sb2 = s2(7)[unfolded sb_update_crc_def sb_track_log_def Let_def]
    have rh2: "region_holds d2 (fs_sb fs2) ?es ?R"
    proof (rule region_written)
      show "length ?es < U32" unfolding compact_def by (rule le_less_trans[OF length_filter_le len])
    qed (use fr(1) bi(2) index_inv_compact[OF vol_index_inv[OF vk]] s2(6) in \<open>auto simp: sb2 d1(3) compact_def\<close>)
    have A: "blk d2 (?dsb + b) = blk d (?dsb + b)" if "b \<in> alloc_set (v_bitmap fs)" for b
      using that fr(2) s2(6) by (auto simp: d1(3))
    define bm where "bm = (if sb_index_root_block ?sb \<noteq> BLOCK_NULL
      then snd (free_range (unat (sb_index_root_block ?sb)) (unat (sb_index_depth ?sb)) bm1) else bm1)"
    have fin: "vol_ok (ring_of ?sb) ?dsb ?ck (reloaded ?es) ?R [] (d2, fs2\<lparr>v_bitmap := bm\<rparr>)" "bm_total bm = bm_total (v_bitmap fs)"
      using old_region_free[OF s2(2) _ _ fr(2) _ rh, of bm] so A bm1(3,5) by (simp_all add: s2(4,5) bm_def)
    have "lg_next_lsn (v_log fs) \<noteq> 0" using nl by auto
    from checkpoint_steps[OF ac refl this, of io d d1 _ d2 fs2] d1(1) s2(1) fs(1,2)
    have ck: "checkpoint io (d, fs) = (Ok (), (d2, fs2\<lparr>v_bitmap := bm\<rparr>))" by (simp add: bm_def s2(5))
    have fk2: "fs_ok (d2, fs2\<lparr>v_bitmap := bm\<rparr>)" unfolding fs_ok_def prod.case
      by (intro conjI exI[of _ ?es] exI[of _ ?R] exI[of _ "[]"]) (use fin rh2 fs s2(8,9) in \<open>simp_all add: sb2 sb_wf_def\<close>)
    have "same_view (d, fs) (d2, fs2\<lparr>v_bitmap := bm\<rparr>)"
      by (rule sim_same_view[OF vk fin(1)]) (use A fs s2(4,8,9) sim_refl[OF vol_index_inv[OF vk]] in \<open>simp_all add: sb2\<close>)
    from ok[OF ck fk2 _ this] show ?thesis using s2(3,4,10) by (simp add: durable_def sb2 reset_ring_def)
  qed
qed

end

subsection \<open>A fresh volume\<close>

definition fresh_fs :: "superblock \<Rightarrow> u64 \<Rightarrow> u32 \<Rightarrow> helix_fs" where
  "fresh_fs sb plba dbs = (from_superblock sb plba dbs)\<lparr>v_log :=
     (log_new sb plba dbs)\<lparr>lg_buf := format_seg_block @ replicate (LOG_SEGMENT_BYTES - 4096) 0\<rparr>\<rparr>"

lemma format_seg_block_tail: "drop 64 format_seg_block = replicate 4032 0" "length format_seg_block = 4096"
  by (simp_all add: format_seg_block_def splice_def sh_encode_def LOG_SEGMENT_MAGIC_def ascii_def)

lemma format_sb_sel [simp]:
  "sb_magic (format_sb lo label uuid) = HELIX_MAGIC" "sb_version (format_sb lo label uuid) = HELIX_VERSION"
  "sb_log_start_block (format_sb lo label uuid) = lo_log_start lo" "sb_log_end_block (format_sb lo label uuid) = lo_log_end lo"
  "sb_log_segment_count (format_sb lo label uuid) = lo_segs lo"
  "sb_data_start_block (format_sb lo label uuid) = lo_data_start lo"
  "sb_data_block_count (format_sb lo label uuid) = lo_data_blocks lo"
  "sb_index_root_block (format_sb lo label uuid) = BLOCK_NULL"
  "sb_committed_lsn (format_sb lo label uuid) = 0" "sb_checkpoint_lsn (format_sb lo label uuid) = 0"
  "sb_log_head_segment (format_sb lo label uuid) = 0" "sb_log_tail_segment (format_sb lo label uuid) = 0"
  "sb_log_head_offset (format_sb lo label uuid) = 64"
  by (simp_all add: format_sb_def Let_def)

context partition
begin

lemma fresh_ok:
  assumes "good d" "compute_layout t = Ok lo" "unat (lo_total lo) \<le> nb" "nb < U32" "length uuid = 16"
    and sb: "sb = sb_update_crc (format_sb lo label uuid)"
    and b: "blk d 0 = sb_encode sb" "blk d 1 = sb_encode sb" "blk d 2 = format_seg_block"
  shows "fs_ok (d, fresh_fs sb plba dbs)" "durable (d, fresh_fs sb plba dbs)"
proof -
  define segs where "segs = min (max (unat t div 25600) 1) 64"
  note L = compute_layout_nat[OF assms(2), folded segs_def]
  let ?fs = "fresh_fs sb plba dbs"
  let ?l = "v_log ?fs"
  have sg: "1 \<le> segs" "segs \<le> 64" by (auto simp: segs_def)
  have nbt: "unat t \<le> nb" using assms(3) L(9) by simp
  have l: "lg_start ?l = 2" "lg_segs ?l = segs" "lg_head ?l = 0" "lg_tail ?l = 0" "lg_off ?l = 64" "lg_next_lsn ?l = 1"
    "lg_buf ?l = format_seg_block @ replicate (LOG_SEGMENT_BYTES - 4096) 0" "lg_plba ?l = plba" "lg_dbs ?l = dbs" "lg_end ?l = lo_log_end lo"
    using L(1,2) by (simp_all add: fresh_fs_def log_new_def sb)
  have v: "v_index ?fs = []" "v_bitmap ?fs = bitmap_new (unat (lo_data_blocks lo))" "fs_sb ?fs = sb" "fs_plba ?fs = plba" "fs_dbs ?fs = dbs"
    by (simp_all add: fresh_fs_def sb)
  have sbs: "sb_magic sb = HELIX_MAGIC" "sb_version sb = HELIX_VERSION" "sb_data_start_block sb = lo_data_start lo"
    "sb_data_block_count sb = lo_data_blocks lo" "sb_checkpoint_lsn sb = 0" "sb_wf sb" "sb_is_valid sb"
    "sb_committed_lsn sb = 0" "sb_log_head_segment sb = 0" "sb_log_tail_segment sb = 0" "sb_log_head_offset sb = 64"
    using format_sb_wf[OF assms(5)] sb_update_crc_valid[of "format_sb lo label uuid"] by (simp_all add: sb)
  have base: "seg_base ?l s = 2 + s * 256" for s by (simp add: seg_base_def l(1))
  have ds: "2 + segs * 256 \<le> unat (lo_data_start lo)" "unat (lo_data_start lo) + unat (lo_data_blocks lo) \<le> nb"
    using L(6,7) nbt by linarith+
  have lok: "log_ok plba dbs nb ?l" unfolding log_ok_def base using l sg ds
    by (simp add: format_seg_block_tail)
  have rep: "log_rep (blk d) ?l [[]]"
    using l sg by (simp add: log_rep_def ring_dist_def seg_holds_def format_seg_block_tail replicate_add[symmetric])
  have st: "log_state d ?l []" using lok rep unfolding log_state_def by (auto intro: exI[of _ "[[]]"])
  have bt: "bm_total (bitmap_new n) = n" for n by (simp add: bitmap_new_def)
  have "vol_shape (ring_of sb) (unat (lo_data_start lo)) {} d ?fs"
    unfolding vol_shape_def v l(1,2,10) base
    by (intro conjI) (use assms(1,4) ds L(1,2) bt in \<open>simp_all add: bitmap_inv_new store_ok_def sb dom_def\<close>)
  moreover have "vol_log 0 [] d ?fs []"
    by (rule vol_logI[OF _ st, where iy = "[]"]) (simp_all add: l v sim_def)
  moreover have "region_holds d sb [] {}" by (simp add: region_holds_def sb)
  ultimately show "fs_ok (d, ?fs)" unfolding fs_ok_def prod.case vol_ok_def
    by (intro conjI exI[of _ "[]"] exI[of _ "{}"]) (simp_all add: v sbs bt)
  have "blk d 2 @ concat (map (\<lambda>i. blk d (2 + i)) [1..<256]) = seg_img (blk d) ?l 0"
    by (simp add: seg_img_def base upt_conv_Cons numeral_2_eq_2)
  then have "take 4096 (seg_img (blk d) ?l 0) = take 4096 (blk d 2 @ concat (map (\<lambda>i. blk d (2 + i)) [1..<256]))" by simp
  then have "take 4096 (seg_img (blk d) ?l 0) = format_seg_block" by (simp add: b(3) format_seg_block_tail)
  then show "durable (d, ?fs)" using b(1,2)
    by (simp add: durable_def div_ceil_def format_seg_block_tail sbs l v)
qed

lemma format_and_mount_ok:
  assumes "good d" "compute_layout (total_sectors div (4096 div ucast dbs)) = Ok lo" "unat (lo_total lo) \<le> nb" "nb < U32" "length uuid = 16"
  obtains d' fs where "format_and_mount io plba total_sectors dbs label uuid d = (Ok fs, d')" "fs_ok (d', fs)" "durable (d', fs)"
    "\<forall>p. ns (v_index fs) p = None" "alloc_set (v_bitmap fs) = {}"
proof -
  let ?sb = "sb_update_crc (format_sb lo label uuid)"
  from format_helix_ok[OF assms(1-3,5) refl, of label] obtain d1 where
    d1: "format_helix io plba total_sectors dbs label uuid d = (Ok ?sb, d1)" "good d1" "blk d1 0 = sb_encode ?sb" "blk d1 1 = sb_encode ?sb"
      "blk d1 2 = format_seg_block" by blast
  note f = fresh_ok[OF d1(2) assms(2-5) refl d1(3-5)]
  from mount_ok[OF f] obtain d2 fs where m: "mount io plba dbs d1 = (Ok fs, d2)" "fs_ok (d2, fs)" "durable (d2, fs)"
    "blk d2 = blk d1" "sim (v_index (fresh_fs ?sb plba dbs)) (v_index fs)" "fs_sb fs = fs_sb (fresh_fs ?sb plba dbs)"
    "alloc_set (v_bitmap fs) \<subseteq> alloc_set (v_bitmap (fresh_fs ?sb plba dbs))" .
  have "\<forall>p. ns (v_index fs) p = None" using sim_ns_None[OF m(5)] by (simp add: fresh_fs_def)
  then show ?thesis using that[OF _ m(2,3)] d1(1) m(1,7) by (simp add: format_and_mount_def fresh_fs_def)
qed

end

end
