(* ===== verification/Helix_Life.thy ===== *)
theory Helix_Life
  imports Helix_Durability
begin

text \<open>
  The calls of \<^verbatim>\<open>helix/src/engine.rs\<close> on a mounted volume: each is retried once after a
  checkpoint when the log is full (\<open>with_checkpoint_retry\<close>), and a write frees the blocks of the
  version it replaces. Every call keeps \<open>fs_ok\<close>, so a later \<open>sync\<close> and \<open>mount\<close> find what was
  written.
\<close>

subsection \<open>One attempt of an operation\<close>

lemma vol_more_fields:
  fixes fs fs' :: helix_fs
  assumes "vol.more fs' = vol.more fs"
  shows "fs_sb fs' = fs_sb fs" "fs_plba fs' = fs_plba fs" "fs_dbs fs' = fs_dbs fs" "fs_snapshot_lsns fs' = fs_snapshot_lsns fs"
  using assms by (cases fs; cases fs'; simp)+

context partition
begin

definition fs_at :: "index_entry list \<Rightarrow> nat set \<Rightarrow> u64 list \<Rightarrow> 'd \<times> helix_fs \<Rightarrow> bool" where
  "fs_at es R sn = (\<lambda>(d, fs). fs_plba fs = plba \<and> fs_dbs fs = dbs \<and> sb_wf (fs_sb fs) \<and> sb_magic (fs_sb fs) = HELIX_MAGIC \<and>
     sb_version (fs_sb fs) = HELIX_VERSION \<and> region_holds d (fs_sb fs) es R \<and>
     vol_ok (ring_of (fs_sb fs)) (unat (sb_data_start_block (fs_sb fs))) (sb_checkpoint_lsn (fs_sb fs)) (reloaded es) R sn (d, fs))"

lemma fs_ok_at: "fs_ok s \<longleftrightarrow> (\<exists>es R sn. fs_at es R sn s)"
  by (cases s) (simp add: fs_ok_def fs_at_def)

lemma fs_lift:
  assumes at: "fs_at es R sn (d, fs)"
    and vk: "vol_ok (ring_of (fs_sb fs)) (unat (sb_data_start_block (fs_sb fs))) (sb_checkpoint_lsn (fs_sb fs)) (reloaded es) R sn (d', fs')"
    and m: "vol.more fs' = vol.more fs" and b: "\<forall>b\<in>alloc_set (v_bitmap fs). blk d' (unat (sb_data_start_block (fs_sb fs)) + b) = blk d (unat (sb_data_start_block (fs_sb fs)) + b)"
  shows "fs_at es R sn (d', fs')"
proof -
  note f = vol_more_fields[OF m]
  have rh: "region_holds d (fs_sb fs) es R" and "R \<subseteq> alloc_set (v_bitmap fs)" using at by (auto simp: fs_at_def vol_ok_def vol_shape_def store_ok_def)
  then have "region_holds d' (fs_sb fs') es R" by (intro region_holds_cong[OF rh]) (use b in \<open>auto simp: f\<close>)
  then show ?thesis using at vk by (simp add: fs_at_def f)
qed

definition op_keeps :: "nat \<Rightarrow> ('d \<times> helix_fs \<Rightarrow> 'r hres \<times> ('d \<times> helix_fs)) \<Rightarrow> bool" where
  "op_keeps n op \<longleftrightarrow> (\<forall>es R sn s. fs_at es R sn s \<longrightarrow> lsn_room n s \<longrightarrow>
     (\<exists>r s'. op s = (r, s') \<and> fs_at es R sn s' \<and> r \<noteq> Panic \<and> r \<noteq> Diverges))"

lemma fs_atD:
  assumes "fs_at es R sn (d, fs)"
  shows "vol_ok (ring_of (fs_sb fs)) (unat (sb_data_start_block (fs_sb fs))) (sb_checkpoint_lsn (fs_sb fs)) (reloaded es) R sn (d, fs)"
    "fs_plba fs = plba" "fs_dbs fs = dbs"
  using assms by (auto simp: fs_at_def)

lemma unlink_keeps: "op_keeps 1 (\<lambda>(d, fs).
     case unlink io (fs_plba fs) (sb_data_start_block (fs_sb fs)) (fs_dbs fs) p ts (d, fs) of
       (r, s) \<Rightarrow> (res_bind r (\<lambda>_. Ok ()), s))"
  unfolding op_keeps_def
proof (intro allI impI)
  fix es R sn s assume at: "fs_at es R sn s" and room: "lsn_room 1 s"
  obtain d fs where s: "s = (d, fs)" by (cases s)
  note f = fs_atD[OF at[unfolded s]]
  from unlink_ok[OF f(1) room[unfolded s], of p ts]
  show "\<exists>r s'. (\<lambda>(d, fs). case unlink io (fs_plba fs) (sb_data_start_block (fs_sb fs)) (fs_dbs fs) p ts (d, fs) of
       (r, s) \<Rightarrow> (res_bind r (\<lambda>_. Ok ()), s)) s = (r, s') \<and> fs_at es R sn s' \<and> r \<noteq> Panic \<and> r \<noteq> Diverges"
  proof (elim disjE exE conjE)
    fix lsn s' assume u: "unlink io plba (of_nat (unat (sb_data_start_block (fs_sb fs)))) dbs p ts (d, fs) = (Ok lsn, s')"
      "vol_ok (ring_of (fs_sb fs)) (unat (sb_data_start_block (fs_sb fs))) (sb_checkpoint_lsn (fs_sb fs)) (reloaded es) R sn s'"
      "unlinked (unat (sb_data_start_block (fs_sb fs))) (flex_path (v_index fs) p) (d, fs) s'"
    obtain d' fs' where s': "s' = (d', fs')" by (cases s')
    have "fs_at es R sn (d', fs')"
      by (rule fs_lift[OF at[unfolded s] u(2)[unfolded s']]) (use u(3) in \<open>auto simp: unlinked_def s'\<close>)
    then show ?thesis using u(1) f(2,3) by (simp add: s s')
  qed (use at f(2,3) in \<open>auto simp: s\<close>)
qed

lemma mkdir_keeps:
  assumes p: "str_path p"
  shows "op_keeps (length p + 2) (\<lambda>s. case mkdir io p ts s of (r, s) \<Rightarrow> (res_bind r (\<lambda>_. Ok ()), s))"
  unfolding op_keeps_def
proof (intro allI impI)
  fix es R sn s assume at: "fs_at es R sn s" and room: "lsn_room (length p + 2) s"
  obtain d fs where s: "s = (d, fs)" by (cases s)
  note f = fs_atD[OF at[unfolded s]]
  from mkdir_ok[OF f(1) room[unfolded s] p refl, of ts] obtain r d' fs' where
    m: "mkdir io p ts (d, fs) = (r, (d', fs'))"
      "vol_ok (ring_of (fs_sb fs)) (unat (sb_data_start_block (fs_sb fs))) (sb_checkpoint_lsn (fs_sb fs)) (reloaded es) R sn (d', fs')"
      "meta_step (unat (sb_data_start_block (fs_sb fs))) (length p + 2) (d, fs) (d', fs')" "r \<noteq> Panic" "r \<noteq> Diverges"
    by (force split: result.splits)
  have "fs_at es R sn (d', fs')"
    by (rule fs_lift[OF at[unfolded s] m(2)]) (use m(3) in \<open>auto simp: meta_step_def\<close>)
  then show "\<exists>r s'. (case mkdir io p ts s of (r, s) \<Rightarrow> (res_bind r (\<lambda>_. Ok ()), s)) = (r, s') \<and> fs_at es R sn s' \<and> r \<noteq> Panic \<and> r \<noteq> Diverges"
    using m(1,4,5) by (cases r) (auto simp: s)
qed

lemma write_attempt:
  assumes at: "fs_at es R sn (d, fs)" and room: "lsn_room (length p + 1) (d, fs)" and p: "str_path p" "length data < U64"
  obtains r d' fs' where "fs_write_file io p data ts (d, fs) = (r, (d', fs'))" "fs_at es R sn (d', fs')"
    "keeps (unat (sb_data_start_block (fs_sb fs))) (length p + 1) (d, fs) (d', fs')"
    "file_res (unat (sb_data_start_block (fs_sb fs))) p data (d, fs) r (d', fs')"
proof -
  note f = fs_atD[OF at]
  from write_file_ok[OF f(1) room p, of ts] obtain r d' fs' where
    w: "write_file io plba dbs (of_nat (unat (sb_data_start_block (fs_sb fs)))) p data ts (d, fs) = (r, (d', fs'))"
      "vol_ok (ring_of (fs_sb fs)) (unat (sb_data_start_block (fs_sb fs))) (sb_checkpoint_lsn (fs_sb fs)) (reloaded es) R sn (d', fs')"
      "keeps (unat (sb_data_start_block (fs_sb fs))) (length p + 1) (d, fs) (d', fs')"
      "file_res (unat (sb_data_start_block (fs_sb fs))) p data (d, fs) r (d', fs')" by auto
  have "fs_at es R sn (d', fs')" by (rule fs_lift[OF at w(2)]) (use w(3) in \<open>auto simp: keeps_def\<close>)
  with w f(2,3) show ?thesis by (intro that) (simp_all add: fs_write_file_def)
qed

lemma write_keeps:
  assumes "str_path p" "length data < U64"
  shows "op_keeps (length p + 1) (fs_write_file io p data ts)"
  unfolding op_keeps_def
proof (intro allI impI)
  fix es R sn s assume at: "fs_at es R sn s" and room: "lsn_room (length p + 1) s"
  obtain d fs where s: "s = (d, fs)" by (cases s)
  obtain r d' fs' where w: "fs_write_file io p data ts (d, fs) = (r, (d', fs'))" "fs_at es R sn (d', fs')"
    "file_res (unat (sb_data_start_block (fs_sb fs))) p data (d, fs) r (d', fs')"
    by (rule write_attempt[OF at[unfolded s] room[unfolded s] assms])
  then show "\<exists>r s'. fs_write_file io p data ts s = (r, s') \<and> fs_at es R sn s' \<and> r \<noteq> Panic \<and> r \<noteq> Diverges"
    by (auto simp: s file_res_def)
qed

subsection \<open>The retry\<close>

lemma retry_cases:
  assumes op: "op_keeps n op" and fk: "fs_ok s" and room: "lsn_room n s"
    and room2: "\<forall>s'. op s = (Err LogFull, s') \<longrightarrow> lsn_room n s' \<and> length (v_index (snd s')) < U32"
  obtains (once) r s' where "op s = (r, s')" "r \<noteq> Err LogFull" "with_checkpoint_retry io op s = (r, s')" "fs_ok s'" "r \<noteq> Panic" "r \<noteq> Diverges"
  | (twice) s1 s2 r s' where "op s = (Err LogFull, s1)" "fs_ok s1" "checkpoint io s1 = (Ok (), s2)" "fs_ok s2" "same_view s1 s2"
      "v_index (snd s2) = v_index (snd s1)" "v_log (snd s2) = (reset_ring (v_log (snd s1)))\<lparr>lg_buf := seal_header (reset_ring (v_log (snd s1)))\<rparr>"
      "op s2 = (r, s')" "with_checkpoint_retry io op s = (r, s')" "fs_ok s'" "r \<noteq> Panic" "r \<noteq> Diverges" "lsn_room n s2"
  | (nospace) s1 where "op s = (Err LogFull, s1)" "fs_ok s1" "with_checkpoint_retry io op s = (Err NoSpace, s1)"
      "\<forall>b. \<not> free_run (v_bitmap (snd s1)) b (index_space (snd s1))"
proof -
  from fk obtain es R sn where at: "fs_at es R sn s" by (auto simp: fs_ok_at)
  from op at room obtain r s1 where o: "op s = (r, s1)" "fs_at es R sn s1" "r \<noteq> Panic" "r \<noteq> Diverges" unfolding op_keeps_def by blast
  have fk1: "fs_ok s1" using o(2) by (auto simp: fs_ok_at)
  show ?thesis
  proof (cases "r = Err LogFull")
    case False
    then show ?thesis using o fk1 by (intro once[of r s1]) (simp_all add: with_checkpoint_retry_def)
  next
    case True
    obtain d1 fs1 where s1: "s1 = (d1, fs1)" by (cases s1)
    have r2: "lsn_room n s1" "length (v_index fs1) < U32" using room2 o(1) True by (auto simp: s1)
    show ?thesis
    proof (rule checkpoint_ok[OF fk1[unfolded s1] r2(2)])
      assume c: "checkpoint io (d1, fs1) = (Err NoSpace, (d1, fs1))" "\<forall>s. \<not> free_run (v_bitmap fs1) s (index_space fs1)"
      show ?thesis by (rule nospace[of s1]) (use o(1) True fk1 c in \<open>simp_all add: with_checkpoint_retry_def s1\<close>)
    next
      fix d2 fs2
      assume c: "checkpoint io (d1, fs1) = (Ok (), (d2, fs2))" "fs_ok (d2, fs2)" "same_view (d1, fs1) (d2, fs2)" "v_index fs2 = v_index fs1"
        "lg_next_lsn (v_log fs2) = lg_next_lsn (v_log fs1)" "v_log fs2 = (reset_ring (v_log fs1))\<lparr>lg_buf := seal_header (reset_ring (v_log fs1))\<rparr>"
      have room3: "lsn_room n (d2, fs2)" using r2(1) c(5) by (simp add: lsn_room_def s1)
      from c(2) obtain es2 R2 sn2 where at2: "fs_at es2 R2 sn2 (d2, fs2)" by (auto simp: fs_ok_at)
      from op at2 room3 obtain r' s' where o2: "op (d2, fs2) = (r', s')" "fs_at es2 R2 sn2 s'" "r' \<noteq> Panic" "r' \<noteq> Diverges" unfolding op_keeps_def by blast
      have fk': "fs_ok s'" using o2(2) by (auto simp: fs_ok_at)
      show ?thesis
        by (rule twice[of s1 "(d2, fs2)" r' s']) (use o(1) True fk1 c o2 fk' room3 in \<open>simp_all add: with_checkpoint_retry_def s1\<close>)
    qed
  qed
qed

end

context partition
begin

lemma keeps_ok:
  assumes "op_keeps n op" "fs_ok s" "lsn_room n s" "\<forall>s'. op s = (Err LogFull, s') \<longrightarrow> lsn_room n s' \<and> length (v_index (snd s')) < U32"
  obtains r s' where "with_checkpoint_retry io op s = (r, s')" "fs_ok s'" "r \<noteq> Panic" "r \<noteq> Diverges"
  by (rule retry_cases[OF assms]) (auto intro: that)

lemma room_after_reset:
  assumes "1 < lg_segs l" "lg_head l < lg_segs l"
  shows "log_room 255 ((reset_ring l)\<lparr>lg_buf := b\<rparr>)"
proof -
  have "(lg_head l + 1) mod lg_segs l \<noteq> lg_head l" using assms by (simp add: mod_if)
  then show ?thesis by (simp add: log_room_def reset_ring_def)
qed

lemma fs_ok_head: "fs_ok (d, fs) \<Longrightarrow> lg_head (v_log fs) < lg_segs (v_log fs)"
  by (auto simp: fs_ok_def vol_ok_def vol_log_def log_state_def log_ok_def)

text \<open>With two segments or more, the checkpoint makes room for the retried operation.\<close>

lemma fs_unlink_live:
  assumes fk: "fs_ok (d, fs)" and room: "lsn_room 1 (d, fs)" and len: "length (v_index fs) < U32" and segs: "1 < lg_segs (v_log fs)"
  obtains r s' where "fs_unlink io p ts (d, fs) = (r, s')" "fs_ok s'" "r \<noteq> Panic" "r \<noteq> Diverges" "r \<noteq> Err LogFull"
proof -
  let ?op = "\<lambda>(d, fs). case unlink io (fs_plba fs) (sb_data_start_block (fs_sb fs)) (fs_dbs fs) p ts (d, fs) of (r, s) \<Rightarrow> (res_bind r (\<lambda>_. Ok ()), s)"
  have full: "s' = (d', fs') \<and> \<not> log_room 1 (v_log fs')" if "fs_ok (d', fs')" "lsn_room 1 (d', fs')" "?op (d', fs') = (Err LogFull, s')" for d' fs' s'
  proof -
    obtain es R sn where at: "fs_at es R sn (d', fs')" using \<open>fs_ok (d', fs')\<close> by (auto simp: fs_ok_at)
    from unlink_ok[OF fs_atD(1)[OF at] \<open>lsn_room 1 (d', fs')\<close>, of p ts] that(3) show ?thesis
      by (auto simp: fs_atD(2,3)[OF at])
  qed
  have r2: "\<forall>s'. ?op (d, fs) = (Err LogFull, s') \<longrightarrow> lsn_room 1 s' \<and> length (v_index (snd s')) < U32"
    using full[OF fk room] room len by fastforce
  show ?thesis
  proof (rule retry_cases[OF unlink_keeps fk room r2])
    fix r s' assume "?op (d, fs) = (r, s')" "r \<noteq> Err LogFull" "with_checkpoint_retry io ?op (d, fs) = (r, s')" "fs_ok s'" "r \<noteq> Panic" "r \<noteq> Diverges"
    then show ?thesis by (intro that[of r s']) (simp_all add: fs_unlink_def)
  next
    fix s1 assume "fs_ok s1" "with_checkpoint_retry io ?op (d, fs) = (Err NoSpace, s1)"
    then show ?thesis by (intro that[of "Err NoSpace" s1]) (simp_all add: fs_unlink_def)
  next
    fix s1 s2 r s' assume o: "?op (d, fs) = (Err LogFull, s1)" and s2: "fs_ok s2"
      "v_log (snd s2) = (reset_ring (v_log (snd s1)))\<lparr>lg_buf := seal_header (reset_ring (v_log (snd s1)))\<rparr>"
      "?op s2 = (r, s')" "with_checkpoint_retry io ?op (d, fs) = (r, s')" "fs_ok s'" "r \<noteq> Panic" "r \<noteq> Diverges" "lsn_room 1 s2"
    have "s1 = (d, fs)" using full[OF fk room o] by simp
    then have "log_room 1 (v_log (snd s2))" unfolding s2(2) using log_room_le[OF room_after_reset[OF segs fs_ok_head[OF fk]], of 1] by simp
    then have "r \<noteq> Err LogFull" using full[of "fst s2" "snd s2" s'] s2(1,3,8) by (metis prod.collapse)
    then show ?thesis using s2 by (intro that[of r s']) (simp_all add: fs_unlink_def)
  qed
qed

text \<open>
  With a single segment it does not: the reset leaves the tail on the head segment, and the head
  offset where it was.
\<close>

definition dead_log :: "log_engine \<Rightarrow> bool" where
  "dead_log l \<longleftrightarrow> lg_segs l = 1 \<and> LOG_SEGMENT_BYTES < lg_off l + 64"

lemma dead_append:
  assumes at: "fs_at es R sn (d, fs)" and dead: "dead_log (v_log fs)" and sz: "record_size (length payload) \<le> 4096"
  shows "on_log (log_append io op ph payload ts) (d, fs) = (Err LogFull, (d, fs))"
proof -
  from fs_atD(1)[OF at] obtain rss where l: "log_ok plba dbs nb (v_log fs)" "log_rep (blk d) (v_log fs) rss"
    by (auto simp: vol_ok_def vol_log_def log_state_def)
  have "lg_off (v_log fs) + record_size (length payload) > LOG_SEGMENT_BYTES" "(lg_head (v_log fs) + 1) mod lg_segs (v_log fs) = lg_tail (v_log fs)"
    using dead record_size_bounds[of "length payload"] l(1) by (auto simp: dead_log_def log_ok_def)
  from append_full_err[OF l sz this] show ?thesis by (simp add: on_log_def log_append_def)
qed

lemma dead_dir_loop:
  assumes at: "fs_at es R sn (d, fs)" and dead: "dead_log (v_log fs)"
    and p: "\<And>k. 0 < k \<Longrightarrow> k \<le> length parts \<Longrightarrow> str_path (current @ dir_names (take k parts))"
  shows "dir_loop io ts current parts (d, fs) = (Ok (), (d, fs)) \<or> dir_loop io ts current parts (d, fs) = (Err LogFull, (d, fs))"
  using p
proof (induction parts arbitrary: current)
  case (Cons part parts)
  let ?c = "current @ part @ [SLASH]"
  have c: "str_path ?c" using Cons.prems[of 1] by simp
  have sz: "record_size (length (path_payload ?c)) \<le> 4096" using str_path_record[OF c, of "[]"] by simp
  have "str_path (?c @ dir_names (take k parts))" if "0 < k" "k \<le> length parts" for k
    using Cons.prems[of "Suc k"] that by simp
  from Cons.IH[OF this] dead_append[OF at dead sz] show ?case by (auto simp: Let_def)
qed simp

end

context partition
begin

lemma dead_write:
  assumes at: "fs_at es R sn (d, fs)" and dead: "dead_log (v_log fs)" and p: "str_path p" and len: "length data \<le> INLINE_DATA_SIZE"
  shows "\<exists>e. fs_write_file io p data ts (d, fs) = (Err e, (d, fs))"
proof -
  define parts where "parts = filter (\<lambda>c. c \<noteq> []) (split_slash p)"
  have "str_path ([SLASH] @ dir_names (take k (butlast parts)))" if "0 < k" "k \<le> length (butlast parts)" for k
    using parent_dirs_str_path[OF p parts_def that(2)] by simp
  from dead_dir_loop[OF at dead this, of ts]
  have e: "ensure_parent_dirs io p ts (d, fs) = (Ok (), (d, fs)) \<or> ensure_parent_dirs io p ts (d, fs) = (Err LogFull, (d, fs))"
    by (auto simp: ensure_parent_dirs_def parts_def[symmetric])
  have "record_size (length (path_payload p @ data)) \<le> 4096" using str_path_record[OF p, of data] len by simp
  from dead_append[OF at dead this, of Write "fnv1a_64 p" ts] e len validate_path_cases[of p]
  show ?thesis by (auto simp: fs_write_file_def write_file_def write_inline_def split: option.split)
qed

lemma dead_fs_write:
  assumes fk: "fs_ok (d, fs)" and dead: "dead_log (v_log fs)" and p: "str_path p" "length data \<le> INLINE_DATA_SIZE" and len: "length (v_index fs) < U32"
  shows "\<exists>e d' fs'. fs_write io p data ts (d, fs) = (Err e, (d', fs')) \<and> fs_ok (d', fs') \<and> dead_log (v_log fs') \<and> length (v_index fs') < U32"
proof -
  have w: "\<exists>e. fs_write_file io p data ts (d', fs') = (Err e, (d', fs'))" if "fs_ok (d', fs')" "dead_log (v_log fs')" for d' fs'
    using that dead_write[OF _ _ p] by (auto simp: fs_ok_at)
  from w[OF fk dead] obtain e where e: "fs_write_file io p data ts (d, fs) = (Err e, (d, fs))" by blast
  show ?thesis
  proof (cases "e = LogFull")
    case False
    then show ?thesis using e fk dead len by (simp add: fs_write_def with_checkpoint_retry_def Let_def)
  next
    case True
    show ?thesis
    proof (rule checkpoint_ok[OF fk len])
      assume "checkpoint io (d, fs) = (Err NoSpace, (d, fs))"
      then show ?thesis using e True fk dead len by (simp add: fs_write_def with_checkpoint_retry_def Let_def)
    next
      fix d2 fs2 assume c: "checkpoint io (d, fs) = (Ok (), (d2, fs2))" "fs_ok (d2, fs2)" "v_index fs2 = v_index fs"
        "v_log fs2 = (reset_ring (v_log fs))\<lparr>lg_buf := seal_header (reset_ring (v_log fs))\<rparr>"
      have dead2: "dead_log (v_log fs2)" using dead c(4) by (simp add: dead_log_def reset_ring_def)
      from w[OF c(2) dead2] obtain e2 where "fs_write_file io p data ts (d2, fs2) = (Err e2, (d2, fs2))" by blast
      then show ?thesis using e True c dead2 len by (simp add: fs_write_def with_checkpoint_retry_def Let_def)
    qed
  qed
qed

subsection \<open>A write frees the version it replaces\<close>

lemma fs_read_entry:
  assumes ii: "index_inv (v_index fs)" and e: "ns (v_index fs) p = Some e" and x: "file_ok d (unat (sb_data_start_block (fs_sb fs))) e x"
    and fs: "good d" "fs_plba fs = plba" "fs_dbs fs = dbs"
  shows "fst (fs_read io fs p d) = Ok x"
proof (cases "has_flag e IS_INLINE")
  case True
  have l: "unat (e_size e) = length x" using x by (auto simp: file_ok_def unat_of_nat take_bit_nat_eq_self)
  then show ?thesis using x True e ii by (auto simp: fs_read_def lookup_ns file_ok_def)
next
  case False
  then show ?thesis using read_file_ok[OF fs(1) ii e x] e ii fs by (auto simp: fs_read_def lookup_ns)
qed

lemma fs_read_cong:
  assumes ii: "index_inv (v_index fs)" "index_inv (v_index fs')" and e: "ns (v_index fs) p = Some e" "ns (v_index fs') p = Some e"
    and so: "store_ok d dsb (ns (v_index fs)) A R" and b: "\<forall>b\<in>owned d dsb e. blk d' (dsb + b) = blk d (dsb + b)"
    and fs: "good d" "good d'" "fs_plba fs = plba" "fs_dbs fs = dbs" "dsb = unat (sb_data_start_block (fs_sb fs))" "fs_sb fs' = fs_sb fs"
      "fs_plba fs' = plba" "fs_dbs fs' = dbs"
  shows "fst (fs_read io fs' p d') = fst (fs_read io fs p d)"
proof (cases "has_flag e IS_DIR")
  case True
  then show ?thesis using e ii by (simp add: fs_read_def read_file_def lookup_ns)
next
  case False
  then obtain x where x: "file_ok d dsb e x" using store_okD(2)[OF so e(1)] by blast
  have "file_ok d' dsb e x" by (rule file_ok_cong(1)[OF x]) (use b in simp)
  then show ?thesis using fs_read_entry[OF ii(1) e(1) _ fs(1,3,4), of x] fs_read_entry[OF ii(2) e(2) _ fs(2,7,8), of x] x fs(5,6) by simp
qed

lemma replaced_freed:
  assumes at: "fs_at es R sn (d, fs)" and dsb: "dsb = unat (sb_data_start_block (fs_sb fs))"
    and at': "fs_at es R sn (d', fs')" and k: "keeps dsb n (d, fs) (d', fs')" and r: "file_res dsb p data (d, fs) (Ok lsn) (d', fs')"
    and e: "ns (v_index fs) p = Some e" "\<not> has_flag e IS_DIR" "\<not> has_flag e IS_INLINE"
  obtains d2 bm where "on_dev_bitmap (free_file_blocks io plba (of_nat dsb) dbs (e_extent_root e) (e_size e) (has_flag e IS_EXTENT_NODE)) (d', fs') =
      (Ok (), (d2, fs'\<lparr>v_bitmap := bm\<rparr>))" "fs_at es R sn (d2, fs'\<lparr>v_bitmap := bm\<rparr>)" "blk d2 = blk d'"
    "alloc_set bm = alloc_set (v_bitmap fs') - owned d dsb e"
proof -
  let ?A = "alloc_set (v_bitmap fs)" and ?A' = "alloc_set (v_bitmap fs')"
  from k have b: "vol.more fs' = vol.more fs" "\<forall>b\<in>?A. blk d' (dsb + b) = blk d (dsb + b)" "?A \<subseteq> ?A'" by (auto simp: keeps_def)
  note mf = vol_more_fields[OF b(1)]
  have so: "store_ok d dsb (ns (v_index fs)) ?A R" using fs_atD(1)[OF at] by (auto simp: vol_ok_def vol_shape_def dsb)
  from r obtain m e1 where r': "adds_dirs (ns (v_index fs)) m" "ns (v_index fs') = m(p := Some e1)" "owned d' dsb e1 \<inter> ?A = {}"
    by (auto simp: file_res_def)
  note fr = entry_frame[OF so e(1)]
  have ow: "owned d' dsb e = owned d dsb e" by (rule fr(1)) (use b(2) in simp)
  have sub: "owned d dsb e \<subseteq> ?A - R" by (rule store_okD(1)[OF so e(1)])
  obtain x where x: "file_ok d dsb e x" using store_okD(2)[OF so e(1)] e(2) by blast
  have x': "file_ok d' dsb e x" by (rule fr(2)[OF _ x]) (use b(2) in simp)
  have dj: "\<forall>q f. ns (v_index fs') q = Some f \<longrightarrow> owned d' dsb f \<inter> owned d' dsb e = {}"
  proof (intro allI impI)
    fix q f assume f: "ns (v_index fs') q = Some f"
    show "owned d' dsb f \<inter> owned d' dsb e = {}"
    proof (cases "q = p")
      case True
      then show ?thesis using f r'(2,3) sub ow by auto
    next
      case False
      then have "m q = Some f" using f r'(2) by simp
      then consider "ns (v_index fs) q = Some f" | "has_flag f IS_DIR" using r'(1) unfolding adds_dirs_def by (metis option.inject)
      then show ?thesis
      proof cases
        case 1
        have "owned d' dsb f = owned d dsb f" by (rule entry_frame(1)[OF so 1]) (use b(2) in simp)
        then show ?thesis using store_okD(4)[OF so e(1) 1 False] ow by simp
      qed (simp add: owned_dir)
    qed
  qed
  have vk': "vol_ok (ring_of (fs_sb fs)) dsb (sb_checkpoint_lsn (fs_sb fs)) (reloaded es) R sn (d', fs')"
    using fs_atD(1)[OF at'] by (simp add: mf dsb)
  have "owned d' dsb e \<subseteq> ?A' - R" using sub b(3) ow by blast
  from vol_free_owned[OF vk' x' e(3) this dj] obtain d2 bm where
    f: "on_dev_bitmap (free_file_blocks io plba (of_nat dsb) dbs (e_extent_root e) (e_size e) (has_flag e IS_EXTENT_NODE)) (d', fs') =
      (Ok (), (d2, fs'\<lparr>v_bitmap := bm\<rparr>))"
      "vol_ok (ring_of (fs_sb fs)) dsb (sb_checkpoint_lsn (fs_sb fs)) (reloaded es) R sn (d2, fs'\<lparr>v_bitmap := bm\<rparr>)" "blk d2 = blk d'"
      "alloc_set bm = ?A' - owned d' dsb e" .
  have "fs_at es R sn (d2, fs'\<lparr>v_bitmap := bm\<rparr>)"
    by (rule fs_lift[OF at']) (use f(2,3) mf in \<open>simp_all add: dsb\<close>)
  from that[OF f(1) this f(3)] f(4) ow show ?thesis by simp
qed

end

context partition
begin

text \<open>The files other than \<open>p\<close> read as before.\<close>

definition serves :: "bytes \<Rightarrow> 'd \<times> helix_fs \<Rightarrow> 'd \<times> helix_fs \<Rightarrow> bool" where
  "serves p = (\<lambda>(d, fs) (d', fs'). \<forall>q y. q \<noteq> p \<longrightarrow> fst (fs_read io fs q d) = Ok y \<longrightarrow> fst (fs_read io fs' q d') = Ok y)"

lemma serves_trans: "serves p s s1 \<Longrightarrow> serves p s1 s2 \<Longrightarrow> serves p s s2"
  unfolding serves_def by (cases s; cases s1; cases s2) auto

lemma same_view_serves: "same_view s s' \<Longrightarrow> serves p s s'"
  by (cases s; cases s') (simp add: same_view_def serves_def)

lemma entries_serve:
  assumes at: "fs_at es R sn (d, fs)" and at': "fs_at es R' sn' (d', fs')" and sb: "fs_sb fs' = fs_sb fs"
    and ns: "\<forall>q. q \<noteq> p \<longrightarrow> ns (v_index fs) q = None \<or> ns (v_index fs') q = ns (v_index fs) q"
    and b: "\<forall>b\<in>alloc_set (v_bitmap fs). blk d' (unat (sb_data_start_block (fs_sb fs)) + b) = blk d (unat (sb_data_start_block (fs_sb fs)) + b)"
  shows "serves p (d, fs) (d', fs')"
  unfolding serves_def prod.case
proof (intro allI impI)
  fix q y assume q: "q \<noteq> p" "fst (fs_read io fs q d) = Ok y"
  note f = fs_atD[OF at] and f' = fs_atD[OF at']
  have ii: "index_inv (v_index fs)" "index_inv (v_index fs')" using vol_index_inv[OF f(1)] vol_index_inv[OF f'(1)] .
  have so: "good d" "good d'" "store_ok d (unat (sb_data_start_block (fs_sb fs))) (ns (v_index fs)) (alloc_set (v_bitmap fs)) R"
    using f(1) f'(1) by (auto simp: vol_ok_def vol_shape_def)
  have "lookup (v_index fs) q \<noteq> None" using q(2) by (cases "lookup (v_index fs) q") (simp_all add: fs_read_def)
  then obtain e where e: "ns (v_index fs) q = Some e" using ii by (auto simp: lookup_ns)
  have e': "ns (v_index fs') q = Some e" using ns q(1) e by auto
  have "fst (fs_read io fs' q d') = fst (fs_read io fs q d)"
    by (rule fs_read_cong[OF ii e e' so(3) _ so(1,2) f(2,3) refl sb f'(2,3)]) (use b store_okD(1)[OF so(3) e] in auto)
  then show "fst (fs_read io fs' q d') = Ok y" using q(2) by simp
qed

lemma attempt_serves:
  assumes at: "fs_at es R sn (d, fs)" and at': "fs_at es R sn (d', fs')" and dsb: "dsb = unat (sb_data_start_block (fs_sb fs))"
    and k: "keeps dsb n (d, fs) (d', fs')" and r: "file_res dsb p data (d, fs) r (d', fs')"
  shows "serves p (d, fs) (d', fs')"
proof (rule entries_serve[OF at at'])
  from k show "fs_sb fs' = fs_sb fs" using vol_more_fields(1)[of fs' fs] by (simp add: keeps_def)
  from k show "\<forall>b\<in>alloc_set (v_bitmap fs). blk d' (unat (sb_data_start_block (fs_sb fs)) + b) = blk d (unat (sb_data_start_block (fs_sb fs)) + b)"
    by (auto simp: keeps_def dsb)
  show "\<forall>q. q \<noteq> p \<longrightarrow> ns (v_index fs) q = None \<or> ns (v_index fs') q = ns (v_index fs) q"
    using r by (auto simp: file_res_def adds_dirs_def split: result.splits)
qed

lemma prior_version_Some:
  assumes "prior_version ix p = Some (root, sz, lsn, node)" "index_inv ix"
  obtains e where "ns ix p = Some e" "\<not> has_flag e IS_DIR" "\<not> has_flag e IS_INLINE" "root = e_extent_root e" "sz = e_size e" "node = has_flag e IS_EXTENT_NODE"
proof -
  have m: "f AND (IS_INLINE OR IS_DIR OR IS_DELETED) = 0 \<longleftrightarrow> f AND IS_DELETED = 0 \<and> f AND IS_DIR = 0 \<and> f AND IS_INLINE = 0" for f
    by (auto simp: bit.conj_disj_distrib or_eq_0_iff)
  show ?thesis using assms that by (auto simp: prior_version_def lookup_ns m split: option.splits if_splits)
qed

text \<open>The end of \<open>fs_write\<close>, after the attempt that succeeded.\<close>

lemma write_finish:
  assumes at: "fs_at es R sn (d, fs)" and room: "lsn_room (length p + 1) (d, fs)" and p: "str_path p" "length data < U64"
    and w: "fs_write_file io p data ts (d, fs) = (Ok lsn, (d1, fs1))"
    and old: "old = prior_version ix p" "index_inv ix" "\<forall>e. ns ix p = Some e \<longrightarrow> ns (v_index fs) p = Some e"
  shows "\<exists>d2 fs2. (case old of None \<Rightarrow> (Ok (), (d1, fs1))
       | Some (extent_root, sz, old_lsn, is_node) \<Rightarrow>
         if \<not> snapshot_pins (fs_snapshot_lsns fs1) old_lsn lsn then
           on_dev_bitmap (free_file_blocks io (fs_plba fs1) (sb_data_start_block (fs_sb fs1)) (fs_dbs fs1)
             extent_root sz is_node) (d1, fs1)
         else (Ok (), (d1, fs1))) = (Ok (), (d2, fs2)) \<and>
    fs_ok (d2, fs2) \<and> fst (fs_read io fs2 p d2) = Ok data \<and> serves p (d, fs) (d2, fs2)"
proof -
  let ?dsb = "unat (sb_data_start_block (fs_sb fs))"
  obtain r d' fs' where w': "fs_write_file io p data ts (d, fs) = (r, (d', fs'))" "fs_at es R sn (d', fs')"
    "keeps ?dsb (length p + 1) (d, fs) (d', fs')" "file_res ?dsb p data (d, fs) r (d', fs')" by (rule write_attempt[OF at room p])
  with w have at1: "fs_at es R sn (d1, fs1)" and k: "keeps ?dsb (length p + 1) (d, fs) (d1, fs1)" and r: "file_res ?dsb p data (d, fs) (Ok lsn) (d1, fs1)" by auto
  have mf: "fs_sb fs1 = fs_sb fs" using k vol_more_fields(1)[of fs1 fs] by (simp add: keeps_def)
  from r obtain e1 where e1: "ns (v_index fs1) p = Some e1" "file_ok d1 ?dsb e1 data" by (auto simp: file_res_def)
  have ii: "index_inv (v_index fs1)" by (rule vol_index_inv[OF fs_atD(1)[OF at1]])
  have rd: "fst (fs_read io (fs1\<lparr>v_bitmap := bm\<rparr>) p d2) = Ok data" if "good d2" "blk d2 = blk d1" for d2 bm
    by (rule fs_read_entry[of _ _ e1]) (use that e1 ii fs_atD(2,3)[OF at1] same_blocks(3)[OF that(2)] mf in simp_all)
  have s1: "serves p (d, fs) (d1, fs1)" by (rule attempt_serves[OF at at1 refl k r])
  have g1: "good d1" using fs_atD(1)[OF at1] by (auto simp: vol_ok_def vol_shape_def)
  have d1: "fs_ok (d1, fs1) \<and> fst (fs_read io fs1 p d1) = Ok data \<and> serves p (d, fs) (d1, fs1)"
    using at1 s1 rd[OF g1 refl, of "v_bitmap fs1"] by (auto simp: fs_ok_at)
  show ?thesis
  proof (cases old)
    case None
    then show ?thesis using d1 by simp
  next
    case (Some o')
    obtain root sz ol node where o': "o' = (root, sz, ol, node)" by (cases o')
    show ?thesis
    proof (cases "snapshot_pins (fs_snapshot_lsns fs1) ol lsn")
      case True
      then show ?thesis using Some d1 by (simp add: o')
    next
      case False
      from prior_version_Some[OF _ old(2), of p root sz ol node] Some old(1) o' obtain e where
        e: "ns ix p = Some e" "\<not> has_flag e IS_DIR" "\<not> has_flag e IS_INLINE" "root = e_extent_root e" "sz = e_size e" "node = has_flag e IS_EXTENT_NODE"
        by metis
      have ep: "ns (v_index fs) p = Some e" using e(1) old(3) by blast
      obtain d2 bm where f: "on_dev_bitmap (free_file_blocks io plba (of_nat ?dsb) dbs (e_extent_root e) (e_size e) (has_flag e IS_EXTENT_NODE)) (d1, fs1) =
          (Ok (), (d2, fs1\<lparr>v_bitmap := bm\<rparr>))" "fs_at es R sn (d2, fs1\<lparr>v_bitmap := bm\<rparr>)" "blk d2 = blk d1"
        by (rule replaced_freed[OF at refl at1 k r ep e(2,3)])
      have "good d2" using fs_atD(1)[OF f(2)] by (auto simp: vol_ok_def vol_shape_def)
      moreover have "serves p (d1, fs1) (d2, fs1\<lparr>v_bitmap := bm\<rparr>)" by (rule entries_serve[OF at1 f(2)]) (use f(3) in simp_all)
      ultimately have "fs_ok (d2, fs1\<lparr>v_bitmap := bm\<rparr>) \<and> fst (fs_read io (fs1\<lparr>v_bitmap := bm\<rparr>) p d2) = Ok data \<and>
          serves p (d, fs) (d2, fs1\<lparr>v_bitmap := bm\<rparr>)" using f(2,3) rd[of d2 bm] serves_trans[OF s1] by (auto simp: fs_ok_at)
      then show ?thesis using f(1) Some False fs_atD(2,3)[OF at1] e(4-6) mf by (simp add: o')
    qed
  qed
qed

end

context partition
begin

lemma failed_attempt:
  assumes fk: "fs_ok (d, fs)" and room: "lsn_room (length p + 1) (d, fs)" and p: "str_path p" "length data < U64"
    and w: "fs_write_file io p data ts (d, fs) = (Err e, (d1, fs1))"
  shows "unat (lg_next_lsn (v_log fs1)) \<le> unat (lg_next_lsn (v_log fs)) + (length p + 1)" "serves p (d, fs) (d1, fs1)"
    "ns (v_index fs) p = Some f \<Longrightarrow> ns (v_index fs1) p = Some f"
proof -
  let ?dsb = "unat (sb_data_start_block (fs_sb fs))"
  from fk obtain es R sn where at: "fs_at es R sn (d, fs)" by (auto simp: fs_ok_at)
  obtain r d' fs' where w': "fs_write_file io p data ts (d, fs) = (r, (d', fs'))" "fs_at es R sn (d', fs')"
    "keeps ?dsb (length p + 1) (d, fs) (d', fs')" "file_res ?dsb p data (d, fs) r (d', fs')" by (rule write_attempt[OF at room p])
  with w have s1: "d' = d1" "fs' = fs1" "r = Err e" by auto
  show "unat (lg_next_lsn (v_log fs1)) \<le> unat (lg_next_lsn (v_log fs)) + (length p + 1)" using w'(3) by (simp add: s1 keeps_def)
  show "serves p (d, fs) (d1, fs1)" using attempt_serves[OF at w'(2) refl w'(3,4)] by (simp add: s1)
  have "adds_dirs (ns (v_index fs)) (ns (v_index fs1))" using w'(4) by (simp add: s1 file_res_def)
  then show "ns (v_index fs) p = Some f \<Longrightarrow> ns (v_index fs1) p = Some f" unfolding adds_dirs_def by (metis option.distinct(1))
qed

lemma fs_write_ok:
  assumes fk: "fs_ok (d, fs)" and room: "lsn_room (2 * (length p + 1)) (d, fs)" and p: "str_path p" "length data < U64"
    and idx: "\<forall>s1. fs_write_file io p data ts (d, fs) = (Err LogFull, s1) \<longrightarrow> length (v_index (snd s1)) < U32"
  shows "\<exists>r d' fs'. fs_write io p data ts (d, fs) = (r, (d', fs')) \<and> fs_ok (d', fs') \<and> serves p (d, fs) (d', fs') \<and>
    (case r of Ok _ \<Rightarrow> fst (fs_read io fs' p d') = Ok data | Err _ \<Rightarrow> True | _ \<Rightarrow> False)"
proof -
  have r1: "lsn_room (length p + 1) (d, fs)" using room by (simp add: lsn_room_def)
  have r2: "\<forall>s1. fs_write_file io p data ts (d, fs) = (Err LogFull, s1) \<longrightarrow> lsn_room (length p + 1) s1 \<and> length (v_index (snd s1)) < U32"
    using failed_attempt(1)[OF fk r1 p] idx room by (fastforce simp: lsn_room_def)
  have ii: "index_inv (v_index fs)" using fk vol_index_inv by (auto simp: fs_ok_def)
  let ?rest = "\<lambda>new_lsn (d, fs'). case prior_version (v_index fs) p of None \<Rightarrow> (Ok (), (d, fs'))
       | Some (extent_root, sz, old_lsn, is_node) \<Rightarrow>
         if \<not> snapshot_pins (fs_snapshot_lsns fs') old_lsn new_lsn then
           on_dev_bitmap (free_file_blocks io (fs_plba fs') (sb_data_start_block (fs_sb fs')) (fs_dbs fs') extent_root sz is_node) (d, fs')
         else (Ok (), (d, fs'))"
  have unf: "fs_write io p data ts (d, fs) = and_then (with_checkpoint_retry io (fs_write_file io p data ts) (d, fs)) ?rest"
    by (simp add: fs_write_def Let_def)
  have fin: "\<exists>r d' fs'. and_then (r1, s1) ?rest = (r, (d', fs')) \<and> fs_ok (d', fs') \<and> serves p s0 (d', fs') \<and>
      (case r of Ok _ \<Rightarrow> fst (fs_read io fs' p d') = Ok data | Err _ \<Rightarrow> True | _ \<Rightarrow> False)"
    if o: "fs_write_file io p data ts s0 = (r1, s1)" "fs_ok s0" "lsn_room (length p + 1) s0" "fs_ok s1" "r1 \<noteq> Panic" "r1 \<noteq> Diverges"
      "\<forall>e. ns (v_index fs) p = Some e \<longrightarrow> ns (v_index (snd s0)) p = Some e" for r1 s0 s1
  proof -
    obtain d0 f0 d1 f1 where s: "s0 = (d0, f0)" "s1 = (d1, f1)" by (cases s0; cases s1)
    from o(2) obtain es R sn where at: "fs_at es R sn (d0, f0)" by (auto simp: fs_ok_at s)
    show ?thesis
    proof (cases r1)
      case (Ok lsn)
      from write_finish[OF at _ p o(1)[unfolded s Ok] refl ii] o(3,7) Ok show ?thesis by (fastforce simp: s)
    qed (use o failed_attempt(2)[of d0 f0 p data ts _ d1 f1] p in \<open>auto simp: s\<close>)
  qed
  show ?thesis
  proof (rule retry_cases[OF write_keeps[OF p] fk r1 r2])
    fix r s' assume a: "fs_write_file io p data ts (d, fs) = (r, s')" "with_checkpoint_retry io (fs_write_file io p data ts) (d, fs) = (r, s')"
      "fs_ok s'" "r \<noteq> Panic" "r \<noteq> Diverges"
    show ?thesis unfolding unf a(2) by (rule fin[OF a(1) fk r1 a(3-5)]) simp
  next
    fix s1 assume a: "fs_write_file io p data ts (d, fs) = (Err LogFull, s1)" "fs_ok s1"
      "with_checkpoint_retry io (fs_write_file io p data ts) (d, fs) = (Err NoSpace, s1)"
    show ?thesis unfolding unf a(3) using a(2) failed_attempt(2)[OF fk r1 p] a(1) by (cases s1) auto
  next
    fix s1 s2 r s' assume a: "fs_write_file io p data ts (d, fs) = (Err LogFull, s1)" "fs_ok s1" "fs_ok s2" "same_view s1 s2"
      "v_index (snd s2) = v_index (snd s1)" "fs_write_file io p data ts s2 = (r, s')"
      "with_checkpoint_retry io (fs_write_file io p data ts) (d, fs) = (r, s')" "fs_ok s'" "r \<noteq> Panic" "r \<noteq> Diverges" "lsn_room (length p + 1) s2"
    obtain d1 fs1 where s1: "s1 = (d1, fs1)" by (cases s1)
    note fa = failed_attempt[OF fk r1 p a(1)[unfolded s1]]
    have sv: "serves p (d, fs) s2" using serves_trans[OF fa(2)] same_view_serves[OF a(4)] by (simp add: s1)
    have "\<exists>r' d' fs'. and_then (r, s') ?rest = (r', (d', fs')) \<and> fs_ok (d', fs') \<and> serves p s2 (d', fs') \<and>
      (case r' of Ok _ \<Rightarrow> fst (fs_read io fs' p d') = Ok data | Err _ \<Rightarrow> True | _ \<Rightarrow> False)"
      by (rule fin[OF a(6,3,11,8-10)]) (use fa(3) a(5) in \<open>simp add: s1\<close>)
    then show ?thesis unfolding unf a(7) using serves_trans[OF sv] by blast
  qed
qed

end

subsection \<open>Sequences of calls\<close>

text \<open>
  One call on a mounted volume, whatever it returns, or a \<open>sync\<close> followed by a mount of the
  device. The guards say that the 64-bit LSN does not wrap and that the index has fewer than
  \<open>2 ^ 32\<close> entries when a checkpoint records their number.
\<close>

inductive fs_step :: "u64 \<Rightarrow> u32 \<Rightarrow> mem_block_device \<times> helix_fs \<Rightarrow> mem_block_device \<times> helix_fs \<Rightarrow> bool" for plba dbs where
  wr: "fs_write mem_io p data ts s = (r, s') \<Longrightarrow> str_path p \<Longrightarrow> length data < U64 \<Longrightarrow> mempart.lsn_room (2 * (length p + 1)) s \<Longrightarrow>
    \<forall>s1. fs_write_file mem_io p data ts s = (Err LogFull, s1) \<longrightarrow> length (v_index (snd s1)) < U32 \<Longrightarrow> fs_step plba dbs s s'"
| mk: "fs_mkdir mem_io p ts s = (r, s') \<Longrightarrow> str_path p \<Longrightarrow> mempart.lsn_room (length p + 2) s \<Longrightarrow>
    \<forall>s1. mkdir mem_io p ts s = (Err LogFull, s1) \<longrightarrow> mempart.lsn_room (length p + 2) s1 \<and> length (v_index (snd s1)) < U32 \<Longrightarrow> fs_step plba dbs s s'"
| rm: "fs_unlink mem_io p ts s = (r, s') \<Longrightarrow> mempart.lsn_room 1 s \<Longrightarrow> length (v_index (snd s)) < U32 \<Longrightarrow> fs_step plba dbs s s'"
| sy: "sync mem_io s = (r, s') \<Longrightarrow> fs_step plba dbs s s'"
| ck: "checkpoint mem_io s = (r, s') \<Longrightarrow> length (v_index (snd s)) < U32 \<Longrightarrow> fs_step plba dbs s s'"
| mnt: "sync mem_io s = (Ok (), (d1, fs1)) \<Longrightarrow> mount mem_io plba dbs d1 = (Ok fs2, d2) \<Longrightarrow> fs_step plba dbs s (d2, fs2)"

context partition
begin

lemma unlink_full_same:
  assumes "fs_ok (d, fs)" "lsn_room 1 (d, fs)"
    and "unlink io (fs_plba fs) (sb_data_start_block (fs_sb fs)) (fs_dbs fs) p ts (d, fs) = (Err e, s')"
  shows "s' = (d, fs)"
proof -
  obtain es R sn where at: "fs_at es R sn (d, fs)" using assms(1) by (auto simp: fs_ok_at)
  from unlink_ok[OF fs_atD(1)[OF at] assms(2), of p ts] assms(3) show ?thesis by (auto simp: fs_atD(2,3)[OF at])
qed

lemma fs_unlink_ok:
  assumes fk: "fs_ok (d, fs)" and room: "lsn_room 1 (d, fs)" and len: "length (v_index fs) < U32"
  shows "\<exists>r s'. fs_unlink io p ts (d, fs) = (r, s') \<and> fs_ok s'"
proof -
  let ?op = "\<lambda>(d, fs). case unlink io (fs_plba fs) (sb_data_start_block (fs_sb fs)) (fs_dbs fs) p ts (d, fs) of (r, s) \<Rightarrow> (res_bind r (\<lambda>_. Ok ()), s)"
  have "\<forall>s'. ?op (d, fs) = (Err LogFull, s') \<longrightarrow> lsn_room 1 s' \<and> length (v_index (snd s')) < U32"
  proof (intro allI impI)
    fix s' assume "?op (d, fs) = (Err LogFull, s')"
    then obtain r where "unlink io (fs_plba fs) (sb_data_start_block (fs_sb fs)) (fs_dbs fs) p ts (d, fs) = (r, s')" "res_bind r (\<lambda>_. Ok ()) = Err LogFull"
      by (auto split: prod.splits)
    then have "s' = (d, fs)" using unlink_full_same[OF fk room, of p ts] by (cases r) auto
    then show "lsn_room 1 s' \<and> length (v_index (snd s')) < U32" using room len by simp
  qed
  from keeps_ok[OF unlink_keeps fk room this] obtain r s' where "with_checkpoint_retry io ?op (d, fs) = (r, s')" "fs_ok s'" .
  then show ?thesis unfolding fs_unlink_def by blast
qed

lemma fs_mkdir_ok:
  assumes fk: "fs_ok s" and room: "lsn_room (length p + 2) s" and p: "str_path p"
    and len: "\<forall>s1. mkdir io p ts s = (Err LogFull, s1) \<longrightarrow> lsn_room (length p + 2) s1 \<and> length (v_index (snd s1)) < U32"
  shows "\<exists>r s'. fs_mkdir io p ts s = (r, s') \<and> fs_ok s'"
proof -
  let ?op = "\<lambda>s. case mkdir io p ts s of (r, s) \<Rightarrow> (res_bind r (\<lambda>_. Ok ()), s)"
  have "\<forall>s'. ?op s = (Err LogFull, s') \<longrightarrow> lsn_room (length p + 2) s' \<and> length (v_index (snd s')) < U32"
  proof (intro allI impI)
    fix s' assume "?op s = (Err LogFull, s')"
    then obtain r where "mkdir io p ts s = (r, s')" "res_bind r (\<lambda>_. Ok ()) = Err LogFull" by (auto split: prod.splits)
    then show "lsn_room (length p + 2) s' \<and> length (v_index (snd s')) < U32" using len by (cases r) auto
  qed
  from keeps_ok[OF mkdir_keeps[OF p] fk room this] obtain r s' where "with_checkpoint_retry io ?op s = (r, s')" "fs_ok s'" .
  then show ?thesis unfolding fs_mkdir_def by blast
qed

end

lemma fs_step_ok:
  assumes "fs_step plba dbs s s'" "mempart.fs_ok plba dbs nb s"
  shows "mempart.fs_ok plba dbs nb s'"
  using assms(1)
proof (cases rule: fs_step.cases)
  case (wr p data ts r)
  obtain d fs where s: "s = (d, fs)" by (cases s)
  from mempart.fs_write_ok[of plba dbs nb d fs p data ts] wr assms(2) show ?thesis by (auto simp: s)
next
  case (mk p ts r)
  from mempart.fs_mkdir_ok[OF assms(2) mk(3,2,4)] mk(1) show ?thesis by auto
next
  case (rm p ts r)
  obtain d fs where s: "s = (d, fs)" by (cases s)
  from mempart.fs_unlink_ok[of plba dbs nb d fs p ts] rm assms(2) show ?thesis by (auto simp: s)
next
  case (sy r)
  obtain d fs where s: "s = (d, fs)" by (cases s)
  show ?thesis by (rule mempart.sync_ok[OF assms(2)[unfolded s]]) (use sy in \<open>auto simp: s\<close>)
next
  case (ck r)
  obtain d fs where s: "s = (d, fs)" by (cases s)
  show ?thesis by (rule mempart.checkpoint_ok[OF assms(2)[unfolded s]]) (use ck assms(2) in \<open>auto simp: s\<close>)
next
  case (mnt d1 fs1 fs2 d2)
  obtain d fs where s: "s = (d, fs)" by (cases s)
  show ?thesis by (rule mempart.sync_mount_ok[OF assms(2)[unfolded s]]) (use mnt in \<open>auto simp: s\<close>)
qed

lemma fs_steps_ok:
  "(fs_step plba dbs)\<^sup>*\<^sup>* s s' \<Longrightarrow> mempart.fs_ok plba dbs nb s \<Longrightarrow> mempart.fs_ok plba dbs nb s'"
  by (induction rule: rtranclp_induct) (auto intro: fs_step_ok)

subsection \<open>Properties\<close>

text \<open>
  C1: The life of a volume. Formatting a partition of fewer than \<open>2 ^ 32\<close> blocks and mounting it
  succeeds and gives an empty volume. After any sequence of writes, \<open>mkdir\<close>s, \<open>unlink\<close>s, \<open>sync\<close>s,
  checkpoints and remounts, whatever they return, the volume invariant holds, a \<open>sync\<close>
  succeeds, and a mount of the device afterwards succeeds and gives the same answer as before to
  every \<open>read\<close>, \<open>stat\<close> and \<open>readdir\<close>.
\<close>

theorem volume_survives_remount:
  assumes "mempart.good plba dbs nb d" "compute_layout (total_sectors div (4096 div ucast dbs)) = Ok lo"
    and "unat (lo_total lo) \<le> nb" "nb < U32" "length uuid = 16"
  shows "\<exists>d0 fs0. format_and_mount mem_io plba total_sectors dbs label uuid d = (Ok fs0, d0) \<and> (\<forall>p. fs_stat fs0 p = Err NotFound) \<and>
    (\<forall>d1 fs1. (fs_step plba dbs)\<^sup>*\<^sup>* (d0, fs0) (d1, fs1) \<longrightarrow> mempart.fs_ok plba dbs nb (d1, fs1) \<and>
      (\<exists>d2 fs2 d3 fs3. sync mem_io (d1, fs1) = (Ok (), (d2, fs2)) \<and> mount mem_io plba dbs d2 = (Ok fs3, d3) \<and>
        (\<forall>p. fst (fs_read mem_io fs3 p d3) = fst (fs_read mem_io fs1 p d1) \<and> fs_stat fs3 p = fs_stat fs1 p \<and>
           fs_readdir fs3 p = fs_readdir fs1 p)))"
proof -
  from mempart.format_and_mount_ok[OF assms] obtain d0 fs0 where
    f: "format_and_mount mem_io plba total_sectors dbs label uuid d = (Ok fs0, d0)" "mempart.fs_ok plba dbs nb (d0, fs0)"
      "mempart.durable plba dbs (d0, fs0)" "\<forall>p. ns (v_index fs0) p = None" "alloc_set (v_bitmap fs0) = {}" .
  have "index_inv (v_index fs0)" using f(2) mempart.vol_index_inv by (auto simp: mempart.fs_ok_def)
  then have e: "\<forall>p. fs_stat fs0 p = Err NotFound" using f(4) by (simp add: fs_stat_def stat_file_def lookup_flex_def lookup_ns)
  have "mempart.fs_ok plba dbs nb (d1, fs1) \<and>
      (\<exists>d2 fs2 d3 fs3. sync mem_io (d1, fs1) = (Ok (), (d2, fs2)) \<and> mount mem_io plba dbs d2 = (Ok fs3, d3) \<and>
        (\<forall>p. fst (fs_read mem_io fs3 p d3) = fst (fs_read mem_io fs1 p d1) \<and> fs_stat fs3 p = fs_stat fs1 p \<and>
           fs_readdir fs3 p = fs_readdir fs1 p))" if st: "(fs_step plba dbs)\<^sup>*\<^sup>* (d0, fs0) (d1, fs1)" for d1 fs1
  proof -
    have ok: "mempart.fs_ok plba dbs nb (d1, fs1)" by (rule fs_steps_ok[OF st f(2)])
    show ?thesis by (rule mempart.sync_mount_ok[OF ok]) (use ok in \<open>auto simp: mempart.same_view_def\<close>)
  qed
  with f(1) e show ?thesis by blast
qed

theorem volume_survives_remount_witness:
  "\<exists>d0 fs0. format_and_mount mem_io 0 8192 512 [] (replicate 16 1) demo_dev = (Ok fs0, d0) \<and>
    (\<exists>d2 fs2 d3 fs3. sync mem_io (d0, fs0) = (Ok (), (d2, fs2)) \<and> mount mem_io 0 512 d2 = (Ok fs3, d3))"
proof -
  obtain lo where lo: "compute_layout 1024 = Ok lo" "unat (lo_total lo) \<le> 1024"
    by (simp add: compute_layout_def Let_def div_ceil_def)
  have "compute_layout (8192 div (4096 div ucast (512 :: u32))) = Ok lo" using lo(1) by simp
  from volume_survives_remount[OF demo_good this lo(2), of "replicate 16 1" "[]"] show ?thesis by (fastforce intro: rtranclp.rtrancl_refl)
qed

text \<open>
  C2: A write through the engine, whatever happens in between (parent directories made, a log that
  is full and is emptied by a checkpoint, the blocks of the replaced version freed): it returns,
  the volume invariant holds afterwards, if it returned success the file reads back as the bytes
  written, and every other file reads as before.
\<close>

theorem engine_write_reads_back:
  assumes "mempart.fs_ok plba dbs nb (d, fs)" "mempart.lsn_room (2 * (length p + 1)) (d, fs)" "str_path p" "length data < U64"
    and "\<forall>s1. fs_write_file mem_io p data ts (d, fs) = (Err LogFull, s1) \<longrightarrow> length (v_index (snd s1)) < U32"
  shows "\<exists>r d' fs'. fs_write mem_io p data ts (d, fs) = (r, (d', fs')) \<and> mempart.fs_ok plba dbs nb (d', fs') \<and>
    (\<forall>q y. q \<noteq> p \<longrightarrow> fst (fs_read mem_io fs q d) = Ok y \<longrightarrow> fst (fs_read mem_io fs' q d') = Ok y) \<and>
    (case r of Ok _ \<Rightarrow> fst (fs_read mem_io fs' p d') = Ok data | Err _ \<Rightarrow> True | _ \<Rightarrow> False)"
  using mempart.fs_write_ok[OF assms] by (simp add: mempart.serves_def)

definition demo_fs_sb :: superblock where
  "demo_fs_sb = sb_zeroed\<lparr>sb_magic := HELIX_MAGIC, sb_version := HELIX_VERSION, sb_log_start_block := 2, sb_log_end_block := 514,
     sb_log_segment_count := 2, sb_data_start_block := 514, sb_data_block_count := 500, sb_index_root_block := BLOCK_NULL, sb_checkpoint_lsn := 0\<rparr>"

definition demo_fs :: helix_fs where
  "demo_fs = \<lparr>v_log = demo_log, v_index = [], v_bitmap = bitmap_new 500, fs_sb = demo_fs_sb, fs_plba = 0, fs_dbs = 512, fs_snapshot_lsns = []\<rparr>"

lemma demo_fs_ok: "mempart.fs_ok 0 512 1024 (demo_dev, demo_fs)"
proof -
  have "mempart.vol_ok 0 512 1024 (2, 514, 2, 500) 514 0 [] {} [] (demo_dev, demo_fs)"
    using demo_vol_ok by (auto simp: mempart.vol_ok_def mempart.vol_shape_def mempart.vol_log_def demo_fs_def demo_vol_def)
  moreover have "mempart.region_holds 0 512 demo_dev demo_fs_sb [] {}" by (simp add: mempart.region_holds_def demo_fs_sb_def)
  moreover have "sb_wf demo_fs_sb" by (simp add: sb_wf_def demo_fs_sb_def sb_zeroed_def HELIX_MAGIC_def ascii_def)
  ultimately show ?thesis unfolding mempart.fs_ok_def prod.case
    by (intro conjI exI[of _ "[]"] exI[of _ "{}"]) (simp_all add: demo_fs_def demo_fs_sb_def)
qed

lemma demo_fs_room: "n < 1000 \<Longrightarrow> mempart.lsn_room n (demo_dev, demo_fs)"
  by (simp add: mempart.lsn_room_def demo_fs_def demo_log_def)

lemma demo_fs_write: "fs_write_file mem_io [SLASH, 97] [1, 2, 3] 7 (demo_dev, demo_fs) \<noteq> (Err LogFull, s1)"
proof
  assume w: "fs_write_file mem_io [SLASH, 97] [1, 2, 3] 7 (demo_dev, demo_fs) = (Err LogFull, s1)"
  obtain es R sn where at: "mempart.fs_at 0 512 1024 es R sn (demo_dev, demo_fs)" using demo_fs_ok by (auto simp: mempart.fs_ok_at)
  show False
  proof (rule mempart.write_attempt[OF at demo_fs_room demo_path(1), of "[1, 2, 3]" 7])
    fix r d' fs'
    assume "fs_write_file mem_io [SLASH, 97] [1, 2, 3] 7 (demo_dev, demo_fs) = (r, (d', fs'))"
      and "mempart.file_res 0 512 1024 (unat (sb_data_start_block (fs_sb demo_fs))) [SLASH, 97] [1, 2, 3] (demo_dev, demo_fs) r (d', fs')"
    then show False using w demo_path by (simp add: mempart.file_res_def mempart.log_room_def demo_fs_def demo_log_def)
  qed simp_all
qed

theorem engine_write_reads_back_witness:
  "\<exists>r d' fs'. fs_write mem_io [SLASH, 97] [1, 2, 3] 7 (demo_dev, demo_fs) = (r, (d', fs')) \<and>
    (case r of Ok _ \<Rightarrow> fst (fs_read mem_io fs' [SLASH, 97] d') = Ok [1, 2, 3] | Err _ \<Rightarrow> True | _ \<Rightarrow> False)"
proof -
  from engine_write_reads_back[OF demo_fs_ok demo_fs_room demo_path(1), of "[1, 2, 3]" 7] demo_fs_write show ?thesis by fastforce
qed

text \<open>
  C3: A checkpoint changes nothing a reader sees. It either finds no free run of blocks for the
  index and leaves everything as it was, or it succeeds: the log is empty up to its head segment,
  the checkpoint LSN is the last LSN issued, both superblocks on the device are the one in
  memory, and every \<open>read\<close>, \<open>stat\<close> and \<open>readdir\<close> answers as before.
\<close>

theorem checkpoint_keeps_view:
  assumes "mempart.fs_ok plba dbs nb (d, fs)" "length (v_index fs) < U32"
  shows "checkpoint mem_io (d, fs) = (Err NoSpace, (d, fs)) \<and> (\<forall>s. \<not> free_run (v_bitmap fs) s (region_blocks (length (compact (v_index fs))))) \<or>
    (\<exists>d' fs'. checkpoint mem_io (d, fs) = (Ok (), (d', fs')) \<and> mempart.fs_ok plba dbs nb (d', fs') \<and> mempart.durable plba dbs (d', fs') \<and>
      lg_tail (v_log fs') = lg_head (v_log fs') \<and> sb_checkpoint_lsn (fs_sb fs') = lg_next_lsn (v_log fs') - 1 \<and>
      (\<forall>p. fst (fs_read mem_io fs' p d') = fst (fs_read mem_io fs p d) \<and> fs_stat fs' p = fs_stat fs p \<and> fs_readdir fs' p = fs_readdir fs p))"
  by (rule mempart.checkpoint_ok[OF assms]) (auto simp: mempart.same_view_def reset_ring_def)

theorem checkpoint_keeps_view_witness:
  "\<exists>d' fs'. checkpoint mem_io (demo_dev, demo_fs) = (Ok (), (d', fs')) \<and> lg_tail (v_log fs') = lg_head (v_log fs')"
proof -
  have "free_run (v_bitmap demo_fs) 0 (region_blocks (length (compact (v_index demo_fs))))"
    by (simp add: free_run_def demo_fs_def compact_def region_blocks_def div_ceil_def) (simp add: bitmap_new_def)
  moreover have "length (v_index demo_fs) < U32" by (simp add: demo_fs_def)
  ultimately show ?thesis using checkpoint_keeps_view[OF demo_fs_ok] by blast
qed

text \<open>
  C4: With a log of two segments or more, a full log never stops an \<open>unlink\<close>: the checkpoint makes
  room and the second attempt finds it. The only errors left are those of the call itself and
  a checkpoint without space.
\<close>

theorem unlink_never_log_full:
  assumes "mempart.fs_ok plba dbs nb (d, fs)" "mempart.lsn_room 1 (d, fs)" "length (v_index fs) < U32" "1 < lg_segs (v_log fs)"
  shows "\<exists>r s'. fs_unlink mem_io p ts (d, fs) = (r, s') \<and> mempart.fs_ok plba dbs nb s' \<and> r \<noteq> Err LogFull \<and> r \<noteq> Panic \<and> r \<noteq> Diverges"
  by (rule mempart.fs_unlink_live[OF assms]) blast

theorem unlink_never_log_full_witness:
  "\<exists>r s'. fs_unlink mem_io [SLASH, 97] 7 (demo_dev, demo_fs) = (r, s') \<and> r \<noteq> Err LogFull"
proof -
  have "length (v_index demo_fs) < U32" "1 < lg_segs (v_log demo_fs)" by (simp_all add: demo_fs_def demo_log_def)
  from unlink_never_log_full[OF demo_fs_ok demo_fs_room this] show ?thesis by fastforce
qed

text \<open>
  C37: With a log of one segment, which is what every volume of fewer than 51200 blocks gets, a
  full log is final: the checkpoint moves the tail to the head, which is where it already was,
  and no later write of a small file ever succeeds, however often it is repeated.
\<close>

theorem one_segment_log_never_recovers:
  assumes "mempart.fs_ok plba dbs nb s" "lg_segs (v_log (snd s)) = 1" "LOG_SEGMENT_BYTES < lg_off (v_log (snd s)) + 64"
    and "length (v_index (snd s)) < U32" "str_path p" "length data \<le> INLINE_DATA_SIZE"
  shows "\<exists>e. fst (fs_write mem_io p data ts (((\<lambda>s. snd (fs_write mem_io p data ts s)) ^^ n) s)) = Err e"
proof -
  let ?P = "\<lambda>s. mempart.fs_ok plba dbs nb s \<and> mempart.dead_log (v_log (snd s)) \<and> length (v_index (snd s)) < U32"
  have step: "(\<exists>e. fst (fs_write mem_io p data ts s) = Err e) \<and> ?P (snd (fs_write mem_io p data ts s))" if "?P s" for s
    using mempart.dead_fs_write[of plba dbs nb "fst s" "snd s" p data ts] that assms(5,6) by (auto simp: prod_eq_iff)
  have "?P (((\<lambda>s. snd (fs_write mem_io p data ts s)) ^^ n) s)"
    by (induction n) (use assms(1-4) step in \<open>auto simp: mempart.dead_log_def\<close>)
  from step[OF this] show ?thesis by blast
qed

definition dead_fs :: helix_fs where
  "dead_fs = demo_fs\<lparr>v_log := full_log\<lparr>lg_next_lsn := 2\<rparr>, fs_sb := demo_fs_sb\<lparr>sb_log_segment_count := 1, sb_checkpoint_lsn := 1\<rparr>\<rparr>"

lemma dead_fs_ok: "mempart.fs_ok 0 512 1024 (demo_dev, dead_fs)"
proof -
  let ?l = "full_log\<lparr>lg_next_lsn := 2\<rparr>"
  have "log_ok 0 512 1024 ?l" "log_rep (mempart.blk 0 512 demo_dev) ?l [[full_record]]"
    using full_log_ok full_log_rep[of "mempart.blk 0 512 demo_dev"] by (simp_all add: log_ok_def log_rep_def ring_dist_def ring_seg_def seg_base_def)
  then have st: "mempart.log_state 0 512 1024 demo_dev ?l [full_record]"
    unfolding mempart.log_state_def by (intro conjI exI[of _ "[[full_record]]"]) auto
  have r: "rh_lsn (fst full_record) = 1" by (simp add: full_record_def Let_def)
  have b: "bitmap_inv (bitmap_new 500)" "bm_total (bitmap_new 500) = 500" by (simp_all add: bitmap_inv_new) (simp add: bitmap_new_def)
  then have "mempart.vol_shape 0 512 1024 (2, 514, 1, 500) 514 {} demo_dev dead_fs"
    using demo_good by (auto simp: mempart.vol_shape_def dead_fs_def demo_fs_def mempart.store_ok_def ns_def seg_base_def full_log_def demo_log_def)
  moreover have "mempart.vol_log 0 512 1024 1 [] demo_dev dead_fs []"
  proof (rule mempart.vol_logI[where rs = "[full_record]" and iy = "[]"])
    show "replay_all 1 [full_record] ([], []) = (Ok (), ([], []))" by (rule replay_all_old) (simp add: r)
  qed (use st r sim_refl[OF index_inv_Nil] in \<open>simp_all add: dead_fs_def demo_fs_def\<close>)
  ultimately have "mempart.vol_ok 0 512 1024 (2, 514, 1, 500) 514 1 [] {} [] (demo_dev, dead_fs)" by (simp add: mempart.vol_ok_def)
  moreover have "mempart.region_holds 0 512 demo_dev (fs_sb dead_fs) [] {}" by (simp add: mempart.region_holds_def demo_fs_sb_def dead_fs_def)
  moreover have "sb_wf (fs_sb dead_fs)" by (simp add: sb_wf_def dead_fs_def demo_fs_sb_def sb_zeroed_def HELIX_MAGIC_def ascii_def)
  ultimately show ?thesis unfolding mempart.fs_ok_def prod.case
    by (intro conjI exI[of _ "[]"] exI[of _ "{}"]) (simp_all add: dead_fs_def demo_fs_def demo_fs_sb_def)
qed

theorem one_segment_log_never_recovers_witness:
  "\<exists>e. fst (fs_write mem_io [SLASH, 97] [1] 7 (((\<lambda>s. snd (fs_write mem_io [SLASH, 97] [1] 7 s)) ^^ 5) (demo_dev, dead_fs))) = Err e"
  by (rule one_segment_log_never_recovers[OF dead_fs_ok _ _ _ demo_path(1)])
    (simp_all add: dead_fs_def demo_fs_def full_log_def)

end
