(* ===== verification/Kernel_Process.thy ===== *)
theory Kernel_Process
  imports Prelude
begin

text \<open>
  The scheduler's wait and wake machinery: sets of process identifiers
  (\<open>PidBitset\<close> of \<open>morpheus-kernel/src/process/mod.rs\<close>), the process states, the waiter sets of
  \<open>schedular/state.rs\<close>, the parking sections of \<open>schedular/wait.rs\<close>,
  \<open>syscall/handler/sync.rs\<close> and \<open>io/readiness.rs\<close>, the wake-ups of \<open>schedular/wake.rs\<close> and the
  deadline sweep of \<open>schedular/tick.rs\<close>. A \<open>process\<close> has the fields these functions use.
  Each definition is the section its function runs under \<open>PROCESS_TABLE_LOCK\<close>.

  The lemmas show that a bit set is the set of identifiers put into it and that
  \<open>for_each\<close> visits exactly those, that the count of timed blocks and the earliest
  deadline stay accurate (\<open>timers_ok\<close>), that a sweep leaves no expired wait behind, and
  that a futex wake wakes as many waiters as it was asked to.
\<close>

section \<open>Words as sets of positions\<close>

definition trailing_zeros :: "u64 \<Rightarrow> nat" where
  "trailing_zeros m = length (takeWhile (\<lambda>i. \<not> bit m i) [0..<64])"

lemma trailing_zeros_none [simp]: "trailing_zeros 0 = 64"
  by (simp add: trailing_zeros_def takeWhile_eq_all_conv[THEN iffD2])

lemma trailing_zeros_bit:
  assumes "m \<noteq> 0"
  shows "trailing_zeros m < 64" and "bit m (trailing_zeros m)"
    and "i < trailing_zeros m \<Longrightarrow> \<not> bit m i"
proof -
  let ?xs = "[0..<64::nat]"
  let ?w = "takeWhile (\<lambda>i. \<not> bit m i) ?xs"
  have "\<exists>i<64. bit m i"
  proof (rule ccontr)
    assume "\<not> (\<exists>i<64. bit m i)"
    then have "m = 0" by (intro bit_word_eqI) auto
    with assms show False by simp
  qed
  then have ne: "length ?w < length ?xs"
    by (metis (mono_tags, lifting) atLeast0LessThan atLeast_upt le_neq_implies_less length_takeWhile_le
        lessThan_iff set_takeWhileD takeWhile_eq_all_conv takeWhile_eq_take take_all order_refl)
  then show lt: "trailing_zeros m < 64" by (simp add: trailing_zeros_def)
  have "?xs ! length ?w = trailing_zeros m" using lt by (simp add: trailing_zeros_def)
  then show "bit m (trailing_zeros m)" using nth_length_takeWhile[OF ne] by simp
  show "\<not> bit m i" if "i < trailing_zeros m"
  proof -
    have "?w ! i \<in> set ?w" using that by (intro nth_mem) (simp add: trailing_zeros_def)
    moreover have "?w ! i = i" using that lt by (simp add: takeWhile_nth trailing_zeros_def)
    ultimately show ?thesis using set_takeWhileD by metis
  qed
qed

lemma clear_lowest:
  assumes "m \<noteq> 0"
  shows "bit (m AND (m - 1)) i \<longleftrightarrow> bit m i \<and> i \<noteq> trailing_zeros m"
proof -
  define k where "k = trailing_zeros m"
  define q where "q = push_bit (Suc k) (drop_bit (Suc k) m)"
  note tz = trailing_zeros_bit[OF assms, folded k_def]
  have low: "take_bit (Suc k) m = 2 ^ k"
    by (rule bit_word_eqI) (use tz in \<open>auto simp: bit_take_bit_iff bit_exp_iff less_Suc_eq\<close>)
  have m: "m = q + 2 ^ k" using bits_ident[of "Suc k" m] low by (simp add: q_def)
  have "m - 1 = q + mask k" by (simp add: m mask_eq_exp_minus_1)
  moreover have "q + mask k = q OR mask k"
    by (rule disjunctive_add_eq_or) (auto intro!: bit_word_eqI simp: q_def bit_and_iff bit_push_bit_iff bit_mask_iff)
  moreover have "bit q i \<longleftrightarrow> k < i \<and> bit m i" for i
    using bit_imp_le_length[of m i] unfolding q_def bit_push_bit_iff
    by (auto simp: bit_drop_bit_eq simp del: push_bit_Suc)
  ultimately show ?thesis
    unfolding k_def[symmetric] using tz(2,3) by (auto simp: bit_and_iff bit_or_iff bit_mask_iff) (metis linorder_neqE_nat)
qed

function word_pids :: "u64 \<Rightarrow> nat list" where
  "word_pids m = (if m = 0 then [] else trailing_zeros m # word_pids (m AND (m - 1)))"
  by auto
termination
proof (relation "measure unat", simp)
  fix m :: u64 assume "m \<noteq> 0"
  then have "unat (m - 1) < unat m" by (simp add: unat_minus_one unat_gt_0)
  moreover have "unat (m AND (m - 1)) \<le> unat (m - 1)" using word_and_le1[of m "m - 1"] by (simp add: word_le_nat_alt)
  ultimately show "(m AND (m - 1), m) \<in> measure unat" by simp
qed

declare word_pids.simps [simp del]

lemma filter_upt_split: 
  assumes "k < n" "P k" "\<And>i. i < k \<Longrightarrow> \<not> P i"
  shows "filter P [0..<n] = k # filter (\<lambda>i. P i \<and> i \<noteq> k) [0..<n]"
proof -
  have "[0..<n] = [0..<k] @ k # [Suc k..<n]"
    using assms(1) by (metis append_assoc less_imp_le upt_add_eq_append upt_conv_Cons le0 le_add_diff_inverse)
  moreover have "filter P [0..<k] = []" "filter (\<lambda>i. P i \<and> i \<noteq> k) [0..<k] = []"
    using assms(3) by (auto simp: filter_empty_conv)
  moreover have "filter (\<lambda>i. P i \<and> i \<noteq> k) [Suc k..<n] = filter P [Suc k..<n]"
    by (rule filter_cong) auto
  ultimately show ?thesis using assms(2) by simp
qed

lemma word_pids_bits: "word_pids m = filter (bit m) [0..<64]"
proof (induction m rule: word_pids.induct)
  case (1 m)
  show ?case
  proof (cases "m = 0")
    case False
    have "word_pids m = trailing_zeros m # filter (bit (m AND (m - 1))) [0..<64]"
      using 1[OF False] False by (subst word_pids.simps) simp
    also have "\<dots> = trailing_zeros m # filter (\<lambda>i. bit m i \<and> i \<noteq> trailing_zeros m) [0..<64]"
      by (simp add: clear_lowest[OF False] cong: filter_cong)
    finally show ?thesis
      using filter_upt_split[of "trailing_zeros m" 64 "bit m"] trailing_zeros_bit[OF False] by simp
  qed (simp add: word_pids.simps)
qed

section \<open>Sets of process identifiers\<close>

abbreviation MAX_PROCESSES :: nat where "MAX_PROCESSES \<equiv> 256"

abbreviation PIDSET_WORDS :: nat where "PIDSET_WORDS \<equiv> 4"

type_synonym pid_bitset = "u64 list"

definition pidset_new :: pid_bitset where
  "pidset_new = replicate PIDSET_WORDS 0"

definition locate :: "nat \<Rightarrow> nat \<times> u64" where
  "locate pid = (pid div 64, push_bit (pid mod 64) 1)"

definition pidset_set :: "nat \<Rightarrow> pid_bitset \<Rightarrow> pid_bitset" where
  "pidset_set pid s =
     (if pid \<ge> MAX_PROCESSES then s
      else let (w, b) = locate pid in s[w := s ! w OR b])"

definition pidset_clear :: "nat \<Rightarrow> pid_bitset \<Rightarrow> pid_bitset" where
  "pidset_clear pid s =
     (if pid \<ge> MAX_PROCESSES then s
      else let (w, b) = locate pid in s[w := s ! w AND NOT b])"

definition pidset_contains :: "pid_bitset \<Rightarrow> nat \<Rightarrow> bool" where
  "pidset_contains s pid =
     (if pid \<ge> MAX_PROCESSES then False
      else let (w, b) = locate pid in s ! w AND b \<noteq> 0)"

definition pidset_is_empty :: "pid_bitset \<Rightarrow> bool" where
  "pidset_is_empty s = list_all (\<lambda>w. w = 0) s"

text \<open>
  \<open>for_each\<close> loads each word once and calls the closure for its set bits. The closures of
  the scheduler change the kernel state, the set included, so the loop threads that
  state and reads every word from it when its turn comes.
\<close>

definition pidset_for_each :: "('s \<Rightarrow> pid_bitset) \<Rightarrow> (nat \<Rightarrow> 's \<Rightarrow> 's) \<Rightarrow> 's \<Rightarrow> 's" where
  "pidset_for_each sel f st =
     fold (\<lambda>wi st. fold (\<lambda>b st. f (wi * 64 + b) st) (word_pids (sel st ! wi)) st) [0..<PIDSET_WORDS] st"

definition pidset_ok :: "pid_bitset \<Rightarrow> bool" where
  "pidset_ok s \<longleftrightarrow> length s = PIDSET_WORDS"

definition pids :: "pid_bitset \<Rightarrow> nat set" where
  "pids s = {p. p < MAX_PROCESSES \<and> bit (s ! (p div 64)) (p mod 64)}"

lemma pidset_ok_ops [simp]:
  "pidset_ok pidset_new" "pidset_ok (pidset_set p s) = pidset_ok s" "pidset_ok (pidset_clear p s) = pidset_ok s"
  by (simp_all add: pidset_ok_def pidset_new_def pidset_set_def pidset_clear_def locate_def Let_def)

lemma pids_less: "p \<in> pids s \<Longrightarrow> p < MAX_PROCESSES"
  by (simp add: pids_def)

lemma pids_new [simp]: "pids pidset_new = {}"
  by (auto simp: pids_def pidset_new_def nth_replicate)

lemma one_bit_and: "w AND 2 ^ k \<noteq> 0 \<longleftrightarrow> bit w k" if "k < 64" for w :: u64
proof
  assume "bit w k"
  then have "bit (w AND 2 ^ k) k" using that by (simp add: bit_and_iff bit_exp_iff)
  then show "w AND 2 ^ k \<noteq> 0" by auto
next
  assume "w AND 2 ^ k \<noteq> 0"
  then obtain i where "bit (w AND 2 ^ k) i" by (metis bit_eq_iff bit_0_eq bot_apply bot_bool_def)
  then show "bit w k" by (auto simp: bit_and_iff bit_exp_iff)
qed

lemma pidset_contains_iff: "pidset_contains s p \<longleftrightarrow> p \<in> pids s"
  by (auto simp: pidset_contains_def locate_def pids_def Let_def one_bit_and)

lemma pid_pos_eq: "p div 64 = q div 64 \<Longrightarrow> p mod 64 = q mod 64 \<Longrightarrow> p = (q::nat)"
  by (metis div_mult_mod_eq)

lemma pids_set: "pidset_ok s \<Longrightarrow> pids (pidset_set p s) = (if p < MAX_PROCESSES then insert p (pids s) else pids s)"
  by (auto simp: pids_def pidset_set_def pidset_ok_def locate_def Let_def nth_list_update bit_or_iff
      bit_exp_iff dest: pid_pos_eq)

lemma pids_clear: "pidset_ok s \<Longrightarrow> pids (pidset_clear p s) = pids s - {p}"
  by (auto simp: pids_def pidset_clear_def pidset_ok_def locate_def Let_def nth_list_update bit_and_iff
      bit_not_iff bit_exp_iff dest: pid_pos_eq split: if_splits)

lemma pidset_is_empty_iff: "pidset_ok s \<Longrightarrow> pidset_is_empty s \<longleftrightarrow> pids s = {}"
proof
  assume ok: "pidset_ok s" and e: "pids s = {}"
  have "s ! w = 0" if w: "w < 4" for w
  proof (rule bit_word_eqI)
    fix i assume i: "i < LENGTH(64)"
    have "w * 64 + i \<notin> pids s" using e by simp
    then show "bit (s ! w) i = bit 0 i" using i w by (simp add: pids_def)
  qed
  then show "pidset_is_empty s" using ok by (simp add: pidset_is_empty_def pidset_ok_def list_all_length)
qed (auto simp: pidset_is_empty_def pidset_ok_def list_all_length pids_def)

text \<open>The identifiers in the order \<open>for_each\<close> visits them.\<close>

definition pid_list :: "pid_bitset \<Rightarrow> nat list" where
  "pid_list s = concat (map (\<lambda>wi. map (\<lambda>b. wi * 64 + b) (word_pids (s ! wi))) [0..<PIDSET_WORDS])"

lemma set_pid_list: "set (pid_list s) = pids s"
proof -
  have "p \<in> set (pid_list s) \<longleftrightarrow> p \<in> pids s" for p
  proof
    assume "p \<in> pids s"
    then have "p div 64 < 4" "p mod 64 \<in> set (word_pids (s ! (p div 64)))" "p = p div 64 * 64 + p mod 64"
      by (auto simp: pids_def word_pids_bits)
    then show "p \<in> set (pid_list s)" unfolding pid_list_def
      by (auto intro!: bexI[of _ "p div 64"] image_eqI[of _ _ "p mod 64"])
  qed (auto simp: pid_list_def pids_def word_pids_bits)
  then show ?thesis by auto
qed

section \<open>Processes and the scheduler's tables\<close>

datatype block_reason =
  Sleep u64 | WaitChild u32 | Io | StdinRead | PipeRead u8 | InputRead | FutexWait u64 | IoReady u64

datatype process_state = Ready | Running | Blocked block_reason | Zombie | Terminated

record process =
  pid :: nat
  pstate :: process_state
  futex_deadline :: u64
  futex_timed_out :: bool

record sched =
  process_table :: "process option list"
  timed_block_count :: u32
  earliest_deadline :: u64
  stdin_waiters :: pid_bitset
  input_waiters :: pid_bitset
  pipe_waiters :: "pid_bitset list"
  futex_waiters :: "pid_bitset list"

definition proc_at :: "sched \<Rightarrow> nat \<Rightarrow> process option" where
  "proc_at s i = (if i < length (process_table s) then process_table s ! i else None)"

definition put_proc :: "nat \<Rightarrow> process \<Rightarrow> sched \<Rightarrow> sched" where
  "put_proc i p s = s\<lparr>process_table := (process_table s)[i := Some p]\<rparr>"

subsection \<open>Waiter sets\<close>

definition futex_bucket :: "u64 \<Rightarrow> nat" where
  "futex_bucket addr = unat (drop_bit 2 addr AND 0xFF)"

definition mark_stdin_waiter :: "nat \<Rightarrow> sched \<Rightarrow> sched" where
  "mark_stdin_waiter p s = s\<lparr>stdin_waiters := pidset_set p (stdin_waiters s)\<rparr>"

definition clear_stdin_waiter :: "nat \<Rightarrow> sched \<Rightarrow> sched" where
  "clear_stdin_waiter p s = s\<lparr>stdin_waiters := pidset_clear p (stdin_waiters s)\<rparr>"

definition mark_input_waiter :: "nat \<Rightarrow> sched \<Rightarrow> sched" where
  "mark_input_waiter p s = s\<lparr>input_waiters := pidset_set p (input_waiters s)\<rparr>"

definition clear_input_waiter :: "nat \<Rightarrow> sched \<Rightarrow> sched" where
  "clear_input_waiter p s = s\<lparr>input_waiters := pidset_clear p (input_waiters s)\<rparr>"

definition mark_pipe_waiter :: "nat \<Rightarrow> u8 \<Rightarrow> sched \<Rightarrow> sched" where
  "mark_pipe_waiter p idx s =
     s\<lparr>pipe_waiters := (pipe_waiters s)[unat idx := pidset_set p (pipe_waiters s ! unat idx)]\<rparr>"

definition clear_pipe_waiter :: "nat \<Rightarrow> u8 \<Rightarrow> sched \<Rightarrow> sched" where
  "clear_pipe_waiter p idx s =
     s\<lparr>pipe_waiters := (pipe_waiters s)[unat idx := pidset_clear p (pipe_waiters s ! unat idx)]\<rparr>"

definition mark_futex_waiter :: "nat \<Rightarrow> u64 \<Rightarrow> sched \<Rightarrow> sched" where
  "mark_futex_waiter p addr s =
     s\<lparr>futex_waiters := (futex_waiters s)[futex_bucket addr := pidset_set p (futex_waiters s ! futex_bucket addr)]\<rparr>"

definition clear_futex_waiter :: "nat \<Rightarrow> u64 \<Rightarrow> sched \<Rightarrow> sched" where
  "clear_futex_waiter p addr s =
     s\<lparr>futex_waiters := (futex_waiters s)[futex_bucket addr := pidset_clear p (futex_waiters s ! futex_bucket addr)]\<rparr>"

definition clear_waiter_all :: "nat \<Rightarrow> sched \<Rightarrow> sched" where
  "clear_waiter_all p s =
     s\<lparr>stdin_waiters := pidset_clear p (stdin_waiters s),
       input_waiters := pidset_clear p (input_waiters s),
       pipe_waiters := map (pidset_clear p) (pipe_waiters s),
       futex_waiters := map (pidset_clear p) (futex_waiters s)\<rparr>"

subsection \<open>Timed blocks\<close>

definition inc_timed_block_count :: "sched \<Rightarrow> sched" where
  "inc_timed_block_count s = s\<lparr>timed_block_count := timed_block_count s + 1\<rparr>"

definition dec_timed_block_count :: "sched \<Rightarrow> sched" where
  "dec_timed_block_count s = s\<lparr>timed_block_count := timed_block_count s - 1\<rparr>"

text \<open>The compare-and-exchange loop that lowers the earliest deadline; it runs under the
  lock of the process table, with every other writer of that cell.\<close>

definition lower_earliest :: "u64 \<Rightarrow> sched \<Rightarrow> sched" where
  "lower_earliest deadline s =
     (if deadline < earliest_deadline s then s\<lparr>earliest_deadline := deadline\<rparr> else s)"

definition block_sleep :: "nat \<Rightarrow> u64 \<Rightarrow> sched \<Rightarrow> sched" where
  "block_sleep me deadline s =
     (case proc_at s me of
        None \<Rightarrow> s
      | Some p \<Rightarrow> lower_earliest deadline
                   (inc_timed_block_count (put_proc me (p\<lparr>pstate := Blocked (Sleep deadline)\<rparr>) s)))"

text \<open>The section of \<open>sys_futex(FUTEX_WAIT)\<close> under the table lock; \<open>current\<close> is the futex
  word read there. The result says whether the thread parks or returns \<open>EAGAIN\<close>.\<close>

definition futex_wait_locked :: "nat \<Rightarrow> u64 \<Rightarrow> u32 \<Rightarrow> u32 \<Rightarrow> u64 \<Rightarrow> sched \<Rightarrow> bool \<times> sched" where
  "futex_wait_locked me addr current val deadline s =
     (if current \<noteq> val then (False, s)
      else (True, case proc_at s me of
        None \<Rightarrow> s
      | Some p \<Rightarrow>
          let s1 = mark_futex_waiter me addr s in
          if deadline \<noteq> 0
          then lower_earliest deadline (inc_timed_block_count
                 (put_proc me (p\<lparr>futex_timed_out := False, pstate := Blocked (FutexWait addr),
                               futex_deadline := deadline\<rparr>) s1))
          else put_proc me (p\<lparr>futex_timed_out := False, pstate := Blocked (FutexWait addr)\<rparr>) s1))"

text \<open>One process of the sweep of \<open>wake_expired_sleepers\<close>: the deadline it may be waiting for,
  and the sweep's step.\<close>

definition expire_one :: "u64 \<Rightarrow> nat \<Rightarrow> sched \<times> bool \<times> u64 \<Rightarrow> sched \<times> bool \<times> u64" where
  "expire_one now i acc = (case acc of (s, found_any, new_earliest) \<Rightarrow>
     (case proc_at s i of
        None \<Rightarrow> acc
      | Some p \<Rightarrow>
         (case pstate p of
            Blocked (Sleep deadline) \<Rightarrow>
              if now \<ge> deadline
              then (dec_timed_block_count (put_proc i (p\<lparr>pstate := Ready\<rparr>) s), found_any, new_earliest)
              else (s, True, min new_earliest deadline)
          | Blocked (FutexWait addr) \<Rightarrow>
              if futex_deadline p \<noteq> 0 \<and> now \<ge> futex_deadline p
              then (dec_timed_block_count
                     (put_proc i (p\<lparr>pstate := Ready, futex_deadline := 0, futex_timed_out := True\<rparr>)
                       (clear_futex_waiter (pid p) addr s)), found_any, new_earliest)
              else if futex_deadline p \<noteq> 0 then (s, True, min new_earliest (futex_deadline p))
              else acc
          | Blocked (IoReady t) \<Rightarrow>
              if futex_deadline p \<noteq> 0 \<and> now \<ge> futex_deadline p
              then (dec_timed_block_count
                     (put_proc i (p\<lparr>pstate := Ready, futex_deadline := 0, futex_timed_out := True\<rparr>) s),
                    found_any, new_earliest)
              else if futex_deadline p \<noteq> 0 then (s, True, min new_earliest (futex_deadline p))
              else acc
          | _ \<Rightarrow> acc)))"

definition wake_expired_sleepers :: "u64 \<Rightarrow> sched \<Rightarrow> sched" where
  "wake_expired_sleepers now s =
     (if timed_block_count s = 0 then s
      else if now < earliest_deadline s then s
      else let (s1, found_any, new_earliest) =
                 fold (expire_one now) [0..<length (process_table s)] (s, False, 2 ^ 64 - 1)
           in s1\<lparr>earliest_deadline := (if found_any then new_earliest else 2 ^ 64 - 1)\<rparr>)"

subsection \<open>Wake-ups\<close>

definition wake_stdin_waiters :: "sched \<Rightarrow> sched" where
  "wake_stdin_waiters s =
     (if pidset_is_empty (stdin_waiters s) then s
      else pidset_for_each stdin_waiters (\<lambda>b s. clear_stdin_waiter b
             (case proc_at s b of
                Some p \<Rightarrow> if pstate p = Blocked StdinRead then put_proc b (p\<lparr>pstate := Ready\<rparr>) s else s
              | None \<Rightarrow> s)) s)"

definition wake_pipe_readers :: "u8 \<Rightarrow> sched \<Rightarrow> sched" where
  "wake_pipe_readers idx s =
     (if pidset_is_empty (pipe_waiters s ! unat idx) then s
      else pidset_for_each (\<lambda>s. pipe_waiters s ! unat idx) (\<lambda>b s. clear_pipe_waiter b idx
             (case proc_at s b of
                Some p \<Rightarrow> if pstate p = Blocked (PipeRead idx) then put_proc b (p\<lparr>pstate := Ready\<rparr>) s else s
              | None \<Rightarrow> s)) s)"

definition wake_input_reader :: "nat \<Rightarrow> sched \<Rightarrow> sched" where
  "wake_input_reader b s =
     (if \<not> pidset_contains (input_waiters s) b then s
      else clear_input_waiter b
             (case proc_at s b of
                Some p \<Rightarrow> if pstate p = Blocked InputRead then put_proc b (p\<lparr>pstate := Ready\<rparr>) s else s
              | None \<Rightarrow> s))"

text \<open>The closure of \<open>wake_futex_waiters\<close>; the running state carries the number woken.\<close>

definition futex_wake_one :: "u64 \<Rightarrow> nat \<Rightarrow> nat \<Rightarrow> nat \<times> sched \<Rightarrow> nat \<times> sched" where
  "futex_wake_one addr count b acc = (case acc of (woken, s) \<Rightarrow>
     if woken \<ge> count then (woken, s)
     else (case proc_at s b of
             None \<Rightarrow> (woken, clear_futex_waiter b addr s)
           | Some p \<Rightarrow>
               if pstate p = Blocked (FutexWait addr)
               then (woken + 1,
                     clear_futex_waiter b addr (put_proc b
                       (if futex_deadline p \<noteq> 0 then p\<lparr>futex_deadline := 0, pstate := Ready\<rparr> else p\<lparr>pstate := Ready\<rparr>)
                       (if futex_deadline p \<noteq> 0 then dec_timed_block_count s else s)))
               else (woken, s)))"

definition wake_futex_waiters :: "u64 \<Rightarrow> nat \<Rightarrow> sched \<Rightarrow> nat \<times> sched" where
  "wake_futex_waiters addr count s =
     pidset_for_each (\<lambda>(woken, s). futex_waiters s ! futex_bucket addr) (futex_wake_one addr count) (0, s)"

text \<open>\<open>wake_token\<close> of \<open>io/readiness.rs\<close>: every thread parked on the token becomes ready.\<close>

definition wake_token_one :: "u64 \<Rightarrow> nat \<Rightarrow> sched \<Rightarrow> sched" where
  "wake_token_one token i s =
     (case proc_at s i of
        None \<Rightarrow> s
      | Some p \<Rightarrow>
          if pstate p = Blocked (IoReady token)
          then put_proc i
                 (if futex_deadline p \<noteq> 0 then p\<lparr>futex_deadline := 0, pstate := Ready\<rparr> else p\<lparr>pstate := Ready\<rparr>)
                 (if futex_deadline p \<noteq> 0 then dec_timed_block_count s else s)
          else s)"

definition wake_token :: "u64 \<Rightarrow> sched \<Rightarrow> sched" where
  "wake_token token s = fold (wake_token_one token) [0..<length (process_table s)] s"

text \<open>The parking section of \<open>wait_ready\<close>, once the mask has been found not to match.\<close>

definition park_ready :: "nat \<Rightarrow> u64 \<Rightarrow> u64 \<Rightarrow> sched \<Rightarrow> sched" where
  "park_ready me token deadline s =
     (case proc_at s me of
        None \<Rightarrow> s
      | Some p \<Rightarrow>
          if deadline \<noteq> 0
          then lower_earliest deadline (inc_timed_block_count
                 (put_proc me (p\<lparr>futex_timed_out := False, pstate := Blocked (IoReady token),
                               futex_deadline := deadline\<rparr>) s))
          else put_proc me (p\<lparr>futex_timed_out := False, pstate := Blocked (IoReady token)\<rparr>) s)"

section \<open>Deadlines\<close>

definition deadline_of :: "process \<Rightarrow> u64 option" where
  "deadline_of p =
     (case pstate p of
        Blocked (Sleep d) \<Rightarrow> Some d
      | Blocked (FutexWait a) \<Rightarrow> if futex_deadline p \<noteq> 0 then Some (futex_deadline p) else None
      | Blocked (IoReady t) \<Rightarrow> if futex_deadline p \<noteq> 0 then Some (futex_deadline p) else None
      | _ \<Rightarrow> None)"

definition timed :: "process option \<Rightarrow> bool" where
  "timed x = (case x of None \<Rightarrow> False | Some p \<Rightarrow> deadline_of p \<noteq> None)"

definition waits_timed :: "process \<Rightarrow> bool" where
  "waits_timed p = (case pstate p of Blocked (FutexWait a) \<Rightarrow> True | Blocked (IoReady t) \<Rightarrow> True | _ \<Rightarrow> False)"

definition timers_ok :: "sched \<Rightarrow> bool" where
  "timers_ok s \<longleftrightarrow>
     length (process_table s) = MAX_PROCESSES \<and>
     timed_block_count s = of_nat (length (filter timed (process_table s))) \<and>
     (\<forall>i p d. proc_at s i = Some p \<and> deadline_of p = Some d \<longrightarrow> earliest_deadline s \<le> d) \<and>
     (\<forall>i p. proc_at s i = Some p \<and> futex_deadline p \<noteq> 0 \<longrightarrow> waits_timed p)"

lemma length_filter_update:
  assumes "i < length xs"
  shows "length (filter P (xs[i := x])) + (if P (xs ! i) then 1 else 0) =
         length (filter P xs) + (if P x then 1 else 0)"
proof -
  have xs: "xs = take i xs @ xs ! i # drop (Suc i) xs" using assms by (rule id_take_nth_drop)
  have u: "xs[i := x] = take i xs @ x # drop (Suc i) xs" using assms by (rule upd_conv_take_nth_drop)
  show ?thesis unfolding u by (subst (3) xs) simp
qed

lemma proc_at_put [simp]:
  "proc_at (put_proc i p s) j = (if j = i \<and> i < length (process_table s) then Some p else proc_at s j)"
  by (auto simp: proc_at_def put_proc_def nth_list_update)

lemma sched_frames [simp]:
  "process_table (inc_timed_block_count s) = process_table s"
  "process_table (dec_timed_block_count s) = process_table s"
  "process_table (lower_earliest d s) = process_table s"
  "process_table (mark_futex_waiter q a s) = process_table s"
  "process_table (clear_futex_waiter q a s) = process_table s"
  "proc_at (inc_timed_block_count s) i = proc_at s i"
  "proc_at (dec_timed_block_count s) i = proc_at s i"
  "proc_at (lower_earliest d s) i = proc_at s i"
  "proc_at (mark_futex_waiter q a s) i = proc_at s i"
  "proc_at (clear_futex_waiter q a s) i = proc_at s i"
  "earliest_deadline (inc_timed_block_count s) = earliest_deadline s"
  "earliest_deadline (dec_timed_block_count s) = earliest_deadline s"
  "earliest_deadline (put_proc j p s) = earliest_deadline s"
  "earliest_deadline (mark_futex_waiter q a s) = earliest_deadline s"
  "earliest_deadline (clear_futex_waiter q a s) = earliest_deadline s"
  "earliest_deadline (lower_earliest d s) = min d (earliest_deadline s)"
  "timed_block_count (put_proc j p s) = timed_block_count s"
  "timed_block_count (mark_futex_waiter q a s) = timed_block_count s"
  "timed_block_count (clear_futex_waiter q a s) = timed_block_count s"
  "timed_block_count (lower_earliest d s) = timed_block_count s"
  "timed_block_count (inc_timed_block_count s) = timed_block_count s + 1"
  "timed_block_count (dec_timed_block_count s) = timed_block_count s - 1"
  "length (process_table (put_proc j p s)) = length (process_table s)"
  by (auto simp: inc_timed_block_count_def dec_timed_block_count_def lower_earliest_def put_proc_def
      mark_futex_waiter_def clear_futex_waiter_def proc_at_def min_def)

definition timed_delta :: "process option \<Rightarrow> u32" where
  "timed_delta x = (if timed x then 1 else 0)"

text \<open>Replacing one process keeps the timers in order when the count moves with it.\<close>

lemma timers_put:
  assumes ok: "timers_ok s" and at: "proc_at s i = Some p"
    and tab: "process_table t = (process_table s)[i := Some q]"
    and cnt: "timed_block_count t = timed_block_count s - timed_delta (Some p) + timed_delta (Some q)"
    and early: "earliest_deadline t \<le> earliest_deadline s"
    and dl: "\<And>d. deadline_of q = Some d \<Longrightarrow> earliest_deadline t \<le> d"
    and fd: "futex_deadline q \<noteq> 0 \<Longrightarrow> waits_timed q"
  shows "timers_ok t"
proof -
  have i: "i < length (process_table s)" and pi: "process_table s ! i = Some p"
    using at by (auto simp: proc_at_def split: if_splits)
  have pa: "proc_at t j = (if j = i then Some q else proc_at s j)" for j
    using i by (auto simp: proc_at_def tab nth_list_update)
  let ?a = "length (filter timed (process_table t))" and ?b = "length (filter timed (process_table s))"
  have "?a + (if timed (Some p) then 1 else 0) = ?b + (if timed (Some q) then 1 else 0)"
    using length_filter_update[OF i, of timed "Some q"] by (simp add: tab pi)
  then have "(of_nat (?a + (if timed (Some p) then 1 else 0)) :: u32) = of_nat (?b + (if timed (Some q) then 1 else 0))"
    by simp
  then have "(of_nat ?a :: u32) + timed_delta (Some p) = of_nat ?b + timed_delta (Some q)"
    by (simp add: timed_delta_def split: if_splits)
  then have "(of_nat ?a :: u32) = of_nat ?b - timed_delta (Some p) + timed_delta (Some q)"
    by (simp add: algebra_simps)
  moreover have "timed_block_count s = of_nat ?b" using ok by (simp add: timers_ok_def)
  ultimately have "timed_block_count t = of_nat ?a" using cnt by simp
  moreover have "earliest_deadline t \<le> d" if "proc_at t j = Some r" "deadline_of r = Some d" for j r d
    using that dl ok early by (auto simp: pa timers_ok_def split: if_splits intro: order_trans)
  moreover have "waits_timed r" if "proc_at t j = Some r" "futex_deadline r \<noteq> 0" for j r
    using that fd ok by (auto simp: pa timers_ok_def split: if_splits)
  ultimately show ?thesis using ok by (auto simp: timers_ok_def tab)
qed

lemmas timer_defs = timed_delta_def timed_def deadline_of_def waits_timed_def put_proc_def
  inc_timed_block_count_def dec_timed_block_count_def

definition runs :: "sched \<Rightarrow> nat \<Rightarrow> bool" where
  "runs s me = (case proc_at s me of None \<Rightarrow> False | Some p \<Rightarrow> pstate p = Running)"

lemma runs_untimed:
  assumes "timers_ok s" "runs s me"
  obtains p where "proc_at s me = Some p" "pstate p = Running" "futex_deadline p = 0"
  using assms by (fastforce simp: runs_def timers_ok_def waits_timed_def split: option.splits)

lemma block_sleep_timers:
  assumes "timers_ok s" "runs s me"
  shows "timers_ok (block_sleep me d s)"
proof -
  obtain p where p: "proc_at s me = Some p" "pstate p = Running" "futex_deadline p = 0"
    using runs_untimed[OF assms] .
  show ?thesis unfolding block_sleep_def p(1) option.case
    by (rule timers_put[OF assms(1) p(1), where q = "p\<lparr>pstate := Blocked (Sleep d)\<rparr>"])
      (use p in \<open>auto simp: timer_defs lower_earliest_def\<close>)
qed

lemma futex_wait_timers:
  assumes "timers_ok s" "runs s me" "futex_wait_locked me addr cur val d s = (parks, t)"
  shows "timers_ok t"
proof -
  obtain p where p: "proc_at s me = Some p" "pstate p = Running" "futex_deadline p = 0"
    using runs_untimed[OF assms(1,2)] .
  define q where "q = (if d \<noteq> 0 then p\<lparr>futex_timed_out := False, pstate := Blocked (FutexWait addr), futex_deadline := d\<rparr>
     else p\<lparr>futex_timed_out := False, pstate := Blocked (FutexWait addr)\<rparr>)"
  show ?thesis
  proof (cases "cur = val")
    case True
    have tab: "process_table t = (process_table s)[me := Some q]"
      and "timed_block_count t = timed_block_count s + (if d = 0 then 0 else 1)"
      and "earliest_deadline t = (if d = 0 then earliest_deadline s else min d (earliest_deadline s))"
      using assms(3) True p by (auto simp: futex_wait_locked_def Let_def q_def put_proc_def)
    then show ?thesis
      by (intro timers_put[OF assms(1) p(1) tab]) (use p in \<open>auto simp: timer_defs q_def min_def split: if_splits\<close>)
  qed (use assms in \<open>auto simp: futex_wait_locked_def\<close>)
qed

lemma park_ready_timers:
  assumes "timers_ok s" "runs s me"
  shows "timers_ok (park_ready me token d s)"
proof -
  obtain p where p: "proc_at s me = Some p" "pstate p = Running" "futex_deadline p = 0"
    using runs_untimed[OF assms] .
  define q where "q = (if d \<noteq> 0 then p\<lparr>futex_timed_out := False, pstate := Blocked (IoReady token), futex_deadline := d\<rparr>
     else p\<lparr>futex_timed_out := False, pstate := Blocked (IoReady token)\<rparr>)"
  let ?t = "park_ready me token d s"
  have tab: "process_table ?t = (process_table s)[me := Some q]"
    and "timed_block_count ?t = timed_block_count s + (if d = 0 then 0 else 1)"
    and "earliest_deadline ?t = (if d = 0 then earliest_deadline s else min d (earliest_deadline s))"
    using p by (auto simp: park_ready_def q_def put_proc_def)
  then show ?thesis
    by (intro timers_put[OF assms(1) p(1) tab]) (use p in \<open>auto simp: timer_defs q_def min_def split: if_splits\<close>)
qed

lemma fold_slots:
  assumes "\<And>i acc j. v (f i acc) j = (if j = i then g (v acc i) else v acc j)" "distinct is"
  shows "v (fold f is acc) j = (if j \<in> set is then g (v acc j) else v acc j)"
  using assms(2) by (induction "is" arbitrary: acc) (auto simp: assms(1))

subsection \<open>Waking by token\<close>

definition unparked :: "process \<Rightarrow> process" where
  "unparked p = p\<lparr>futex_deadline := 0, pstate := Ready\<rparr>"

lemma proc_at_some: "proc_at s i = Some p \<Longrightarrow> i < length (process_table s)"
  by (auto simp: proc_at_def split: if_splits)

lemma unparked_if:
  "(if futex_deadline p \<noteq> 0 then p\<lparr>futex_deadline := 0, pstate := Ready\<rparr> else p\<lparr>pstate := Ready\<rparr>) = unparked p"
  by (cases p) (simp add: unparked_def)

lemma wake_token_one_at:
  "proc_at (wake_token_one token i s) j =
     (if j = i then map_option (\<lambda>p. if pstate p = Blocked (IoReady token) then unparked p else p) (proc_at s i)
      else proc_at s j)"
  by (auto simp: wake_token_one_def unparked_if dest: proc_at_some split: option.splits)

lemma unpark_timers:
  assumes "timers_ok s" "proc_at s i = Some p" "waits_timed p"
    and "process_table t = (process_table s)[i := Some (unparked p)]"
    and "timed_block_count t = (if futex_deadline p \<noteq> 0 then timed_block_count s - 1 else timed_block_count s)"
    and "earliest_deadline t = earliest_deadline s"
  shows "timers_ok t"
  by (rule timers_put[OF assms(1,2,4)])
    (use assms(3,5,6) in \<open>auto simp: unparked_def timed_delta_def timed_def deadline_of_def waits_timed_def
      split: process_state.splits block_reason.splits if_splits\<close>)

lemma wake_token_one_timers: "timers_ok s \<Longrightarrow> timers_ok (wake_token_one token i s)"
proof (cases "\<exists>p. proc_at s i = Some p \<and> pstate p = Blocked (IoReady token)")
  case True
  then obtain p where p: "proc_at s i = Some p" "pstate p = Blocked (IoReady token)" by blast
  assume ok: "timers_ok s"
  show ?thesis
    by (rule unpark_timers[OF ok p(1)])
      (use p in \<open>simp_all add: wake_token_one_def unparked_if put_proc_def dec_timed_block_count_def waits_timed_def\<close>)
qed (auto simp: wake_token_one_def split: option.splits)

lemma wake_token_timers: "timers_ok s \<Longrightarrow> timers_ok (wake_token token s)"
  unfolding wake_token_def by (rule fold_invariant[where Q = "\<lambda>i. True"]) (auto intro: wake_token_one_timers)

lemma wake_token_at:
  "proc_at (wake_token token s) j =
     map_option (\<lambda>p. if pstate p = Blocked (IoReady token) then unparked p else p) (proc_at s j)"
proof -
  have "proc_at s j = None" if "\<not> j < length (process_table s)" using that by (simp add: proc_at_def)
  then show ?thesis
    unfolding wake_token_def by (subst fold_slots[where v = proc_at, OF wake_token_one_at]) auto
qed

subsection \<open>The deadline sweep\<close>

definition expired :: "process \<Rightarrow> process" where
  "expired p = (case pstate p of
     Blocked (Sleep d) \<Rightarrow> p\<lparr>pstate := Ready\<rparr>
   | _ \<Rightarrow> p\<lparr>pstate := Ready, futex_deadline := 0, futex_timed_out := True\<rparr>)"

definition after_sweep :: "u64 \<Rightarrow> process \<Rightarrow> process" where
  "after_sweep now p = (case deadline_of p of None \<Rightarrow> p | Some d \<Rightarrow> if d \<le> now then expired p else p)"

lemma expire_one_cases:
  assumes "proc_at s i = Some p"
  shows "expire_one now i (s, f, e) =
    (case deadline_of p of None \<Rightarrow> (s, f, e)
     | Some d \<Rightarrow>
        if d \<le> now
        then (dec_timed_block_count (put_proc i (expired p)
               (case pstate p of Blocked (FutexWait a) \<Rightarrow> clear_futex_waiter (pid p) a s | _ \<Rightarrow> s)), f, e)
        else (s, True, min e d))"
  by (simp add: expire_one_def assms deadline_of_def expired_def split: process_state.split block_reason.split)

lemma expire_one_at:
  "proc_at (fst (expire_one now i acc)) j =
     (if j = i then map_option (after_sweep now) (proc_at (fst acc) i) else proc_at (fst acc) j)"
proof (cases acc)
  case (fields s f e)
  show ?thesis
  proof (cases "proc_at s i")
    case (Some p)
    then show ?thesis
      by (auto simp: fields expire_one_cases after_sweep_def dest: proc_at_some
          split: option.splits process_state.splits block_reason.splits)
  qed (simp add: fields expire_one_def)
qed

lemma expired_untimed: "deadline_of p \<noteq> None \<Longrightarrow> deadline_of (expired p) = None"
  by (auto simp: deadline_of_def expired_def split: process_state.splits block_reason.splits if_splits)

lemma expire_one_timers:
  assumes "timers_ok (fst acc)"
  shows "timers_ok (fst (expire_one now i acc))"
proof (cases acc)
  case (fields s f e)
  show ?thesis
  proof (cases "proc_at s i")
    case (Some p)
    show ?thesis
    proof (cases "\<exists>d. deadline_of p = Some d \<and> d \<le> now")
      case True
      then obtain d where d: "deadline_of p = Some d" "d \<le> now" by blast
      have ok: "timers_ok s" using assms fields by simp
      have "waits_timed p \<or> futex_deadline p = 0" using ok Some by (auto simp: timers_ok_def)
      then have fd: "futex_deadline (expired p) = 0"
        by (auto simp: expired_def waits_timed_def split: process_state.splits block_reason.splits)
      show ?thesis
        using expired_untimed[of p] d fd
        by (intro timers_put[OF ok Some, where q = "expired p"])
          (auto simp: fields expire_one_cases[OF Some] timed_delta_def timed_def put_proc_def dec_timed_block_count_def
            clear_futex_waiter_def split: process_state.splits block_reason.splits)
    qed (use assms fields in \<open>auto simp: expire_one_cases[OF Some] split: option.splits\<close>)
  qed (use assms fields in \<open>simp add: expire_one_def\<close>)
qed

definition swept :: "nat \<Rightarrow> sched \<times> bool \<times> u64 \<Rightarrow> bool" where
  "swept n acc \<longleftrightarrow> (case acc of (s, found, e) \<Rightarrow>
     timers_ok s \<and> (\<forall>i p d. i < n \<and> proc_at s i = Some p \<and> deadline_of p = Some d \<longrightarrow> found \<and> e \<le> d))"

lemma expire_one_swept:
  assumes "swept n acc"
  shows "swept (Suc n) (expire_one now n acc)"
proof (cases acc)
  case (fields s f e)
  obtain t f2 e2 where x: "expire_one now n (s, f, e) = (t, f2, e2)" by (metis prod_cases3)
  have ok: "timers_ok t" using expire_one_timers[of acc now n] assms fields x by (simp add: swept_def)
  have mono: "f2 \<longleftrightarrow> f \<or> f2" "e2 \<le> e"
    using x by (auto simp: expire_one_def split: option.splits process_state.splits block_reason.splits if_splits)
  have at: "proc_at t j = (if j = n then map_option (after_sweep now) (proc_at s n) else proc_at s j)" for j
    using expire_one_at[of now n "(s, f, e)" j] x by simp
  have "f2 \<and> e2 \<le> d" if j: "j < Suc n" "proc_at t j = Some q" "deadline_of q = Some d" for j q d
  proof (cases "j = n")
    case True
    then obtain p where p: "proc_at s n = Some p" "q = after_sweep now p" using j at by (auto split: if_splits)
    then have "deadline_of p = Some d \<and> \<not> d \<le> now"
      using j(3) expired_untimed[of p] by (auto simp: after_sweep_def split: option.splits if_splits)
    then show ?thesis using x p by (auto simp: expire_one_cases)
  next
    case False
    then have "j < n" "proc_at s j = Some q" using j at by auto
    then have "f \<and> e \<le> d" using j(3) assms fields unfolding swept_def by blast
    with mono show ?thesis by auto
  qed
  with ok x fields show ?thesis by (auto simp: swept_def)
qed

lemma sweep_swept: "timers_ok s \<Longrightarrow> swept n (fold (expire_one now) [0..<n] (s, False, e))"
proof (induction n)
  case 0
  then show ?case by (simp add: swept_def)
next
  case (Suc n)
  then show ?case by (simp add: expire_one_swept)
qed

lemma no_timed_when_zero:
  assumes "timers_ok s" "timed_block_count s = 0" "proc_at s i = Some p"
  shows "deadline_of p = None"
proof (rule ccontr)
  let ?n = "length (filter timed (process_table s))"
  assume "deadline_of p \<noteq> None"
  then have "timed (process_table s ! i)" "i < length (process_table s)"
    using assms(3) by (auto simp: timed_def proc_at_def split: if_splits)
  then have "0 < ?n" using nth_mem by (fastforce simp: filter_empty_conv)
  moreover have "?n \<le> 256" using assms(1) length_filter_le[of timed "process_table s"] by (simp add: timers_ok_def)
  then have "unat (of_nat ?n :: u32) = ?n" by (simp add: unat_of_nat take_bit_nat_eq_self)
  ultimately show False using assms(1,2) by (simp add: timers_ok_def)
qed

lemma timers_earliest:
  assumes "timers_ok t" "\<And>j p d. proc_at t j = Some p \<Longrightarrow> deadline_of p = Some d \<Longrightarrow> z \<le> d"
  shows "timers_ok (t\<lparr>earliest_deadline := z\<rparr>)"
proof -
  have "proc_at (t\<lparr>earliest_deadline := z\<rparr>) j = proc_at t j" for j by (simp add: proc_at_def)
  with assms show ?thesis by (auto simp: timers_ok_def)
qed

lemma wake_expired_spec:
  assumes ok: "timers_ok s"
  shows "timers_ok (wake_expired_sleepers now s)"
    and "proc_at (wake_expired_sleepers now s) i = map_option (after_sweep now) (proc_at s i)"
proof -
  let ?n = "length (process_table s)"
  define acc where "acc = fold (expire_one now) [0..<?n] (s, False, 2 ^ 64 - 1 :: u64)"
  obtain t f e where x: "acc = (t, f, e)" by (metis prod_cases3)
  have sw: "swept ?n (t, f, e)" using sweep_swept[OF ok, of ?n now "2 ^ 64 - 1"] x by (simp add: acc_def)
  have at: "proc_at t j = map_option (after_sweep now) (proc_at s j)" for j
  proof -
    have "proc_at s j = None" if "\<not> j < ?n" using that by (simp add: proc_at_def)
    moreover have "proc_at (fst acc) j = (if j \<in> set [0..<?n] then map_option (after_sweep now) (proc_at s j) else proc_at s j)"
      unfolding acc_def by (subst fold_slots[where v = "\<lambda>acc. proc_at (fst acc)", OF expire_one_at]) auto
    ultimately show ?thesis using x by auto
  qed
  have run: "wake_expired_sleepers now s = t\<lparr>earliest_deadline := (if f then e else 2 ^ 64 - 1)\<rparr>"
    if "timed_block_count s \<noteq> 0" "\<not> now < earliest_deadline s"
    using that x by (simp add: wake_expired_sleepers_def acc_def)
  have same: "after_sweep now p = p" if "timed_block_count s = 0 \<or> now < earliest_deadline s" "proc_at s j = Some p" for j p
    using that no_timed_when_zero[OF ok] ok
    by (fastforce simp: after_sweep_def timers_ok_def split: option.splits)
  have skip: "wake_expired_sleepers now s = s" if "timed_block_count s = 0 \<or> now < earliest_deadline s"
    using that by (auto simp: wake_expired_sleepers_def)
  have pa: "proc_at (t\<lparr>earliest_deadline := z\<rparr>) j = proc_at t j" for z j by (simp add: proc_at_def)
  have "timers_ok (t\<lparr>earliest_deadline := (if f then e else 2 ^ 64 - 1)\<rparr>)"
  proof -
    have "length (process_table t) = ?n" using sw ok by (auto simp: swept_def timers_ok_def)
    then have "(if f then e else 2 ^ 64 - 1) \<le> d" if "proc_at t j = Some p" "deadline_of p = Some d" for j p d
      using sw that proc_at_some[OF that(1)] unfolding swept_def by auto
    moreover have "timers_ok t" using sw by (simp add: swept_def)
    ultimately show ?thesis by (rule timers_earliest[rotated])
  qed
  then show "timers_ok (wake_expired_sleepers now s)"
    using run skip ok by (cases "timed_block_count s = 0 \<or> now < earliest_deadline s") simp_all
  show "proc_at (wake_expired_sleepers now s) i = map_option (after_sweep now) (proc_at s i)"
  proof (cases "timed_block_count s = 0 \<or> now < earliest_deadline s")
    case True
    then show ?thesis using skip same by (cases "proc_at s i") simp_all
  next
    case False
    then show ?thesis using run at[of i] by (simp add: pa)
  qed
qed

subsection \<open>Visiting a waiter set\<close>

lemma distinct_pid_list: "distinct (pid_list s)"
proof -
  let ?g = "\<lambda>wi. map (\<lambda>b. wi * 64 + b) (word_pids (s ! wi))"
  have d: "distinct (?g wi)" for wi
    by (simp add: distinct_map inj_on_def word_pids_bits)
  have quot: "(wi * 64 + b) div 64 = wi" if "b < 64" for wi b :: nat using that by simp
  have "wi = wj" if "wi * 64 + b = wj * 64 + c" "b < 64" "c < 64" for wi wj b c :: nat
    using quot[OF that(2), of wi] quot[OF that(3), of wj] that(1) by simp
  then have dis: "set (?g wi) \<inter> set (?g wj) = {}" if "wi \<noteq> wj" for wi wj
    using that by (auto simp: word_pids_bits)
  have "distinct (concat (map ?g ws))" if "distinct ws" for ws
    using that
  proof (induction ws)
    case (Cons w ws)
    have "set (?g w) \<inter> (\<Union>v\<in>set ws. set (?g v)) = {}"
      using dis Cons.prems by (metis (no_types, lifting) Int_UN_distrib SUP_bot_conv(2) distinct.simps(2))
    then have "set (?g w) \<inter> set (concat (map ?g ws)) = {}" by (simp only: set_concat set_map UN_simps image_image)
    moreover have "distinct (concat (map ?g ws))" using Cons by simp
    ultimately show ?case using d[of w] by (simp only: list.map concat.simps distinct_append)
  qed simp
  then show ?thesis by (simp add: pid_list_def)
qed

lemma for_each_pid_list:
  assumes "\<And>b st w. w \<noteq> b div 64 \<Longrightarrow> sel (f b st) ! w = sel st ! w"
  shows "pidset_for_each sel f st = fold f (pid_list (sel st)) st"
proof -
  let ?g = "\<lambda>wi st. fold (\<lambda>b st. f (wi * 64 + b) st) (word_pids (sel st ! wi)) st"
  have keep: "sel (fold (\<lambda>b. f (wi * 64 + b)) bs st) ! w = sel st ! w"
    if "w \<noteq> wi" "set bs \<subseteq> {0..<64}" for w wi bs st
    using that by (induction bs arbitrary: st) (auto simp: assms)
  have "fold ?g ws st = fold f (concat (map (\<lambda>wi. map (\<lambda>b. wi * 64 + b) (word_pids (sel st0 ! wi))) ws)) st"
    if "distinct ws" "\<forall>w\<in>set ws. sel st ! w = sel st0 ! w" for ws st st0
    using that
  proof (induction ws arbitrary: st)
    case (Cons w ws)
    have "set (word_pids (sel st0 ! w)) \<subseteq> {0..<64}" by (auto simp: word_pids_bits)
    then have "\<forall>v\<in>set ws. sel (?g w st) ! v = sel st0 ! v"
      using Cons.prems keep[of _ w "word_pids (sel st0 ! w)" st] by (metis distinct.simps(2) list.set_intros)
    from Cons.IH[OF _ this] Cons.prems show ?case by (simp add: fold_map comp_def)
  qed simp
  then show ?thesis by (simp add: pidset_for_each_def pid_list_def)
qed

subsection \<open>Waking futex waiters\<close>

definition parked_on :: "u64 \<Rightarrow> sched \<Rightarrow> nat \<Rightarrow> bool" where
  "parked_on addr s i = (case proc_at s i of None \<Rightarrow> False | Some p \<Rightarrow> pstate p = Blocked (FutexWait addr))"

definition futex_ok :: "sched \<Rightarrow> bool" where
  "futex_ok s \<longleftrightarrow> length (futex_waiters s) = 256 \<and> (\<forall>w\<in>set (futex_waiters s). pidset_ok w) \<and>
     (\<forall>i p. proc_at s i = Some p \<longrightarrow> pid p = i) \<and>
     (\<forall>i addr. parked_on addr s i \<longrightarrow> i \<in> pids (futex_waiters s ! futex_bucket addr))"

lemma futex_bucket_less: "futex_bucket addr < 256"
proof -
  have "drop_bit 2 addr AND 0xFF \<le> (0xFF :: u64)" by (rule word_and_le1)
  then show ?thesis by (simp add: futex_bucket_def word_le_nat_alt)
qed

lemma futex_wake_one_cases:
  "futex_wake_one addr count b (w, s) =
     (if w \<ge> count then (w, s)
      else if proc_at s b = None then (w, clear_futex_waiter b addr s)
      else if parked_on addr s b
      then (w + 1, clear_futex_waiter b addr (put_proc b (unparked (the (proc_at s b)))
             (if futex_deadline (the (proc_at s b)) \<noteq> 0 then dec_timed_block_count s else s)))
      else (w, s))"
  unfolding futex_wake_one_def unparked_if by (auto simp: parked_on_def split: option.splits)

lemma futex_wake_one_at:
  "futex_wake_one addr count b (w, s) = (w2, t) \<Longrightarrow>
   proc_at t j = (if j = b \<and> parked_on addr s b \<and> w < count then map_option unparked (proc_at s b) else proc_at s j)
   \<and> w2 = (if parked_on addr s b \<and> w < count then w + 1 else w)"
  by (auto simp: futex_wake_one_cases parked_on_def dest: proc_at_some split: if_splits option.splits)

lemma futex_fold:
  assumes "distinct L" "w \<le> count" "fold (futex_wake_one addr count) L (w, s) = (w2, t)"
  defines "R \<equiv> take (count - w) (filter (parked_on addr s) L)"
  shows "w2 = w + length R \<and> (\<forall>j. proc_at t j = (if j \<in> set R then map_option unparked (proc_at s j) else proc_at s j))"
  using assms(1-3) unfolding R_def
proof (induction L arbitrary: w s)
  case (Cons b L)
  obtain w1 s1 where 1: "futex_wake_one addr count b (w, s) = (w1, s1)" by (metis surj_pair)
  note at = futex_wake_one_at[OF 1]
  have same: "filter (parked_on addr s1) L = filter (parked_on addr s) L"
    using Cons.prems(1) at by (intro filter_cong) (auto simp: parked_on_def)
  have w1: "w1 \<le> count" using at Cons.prems(2) by auto
  have f: "fold (futex_wake_one addr count) L (w1, s1) = (w2, t)" using Cons.prems(3) 1 by simp
  have IH: "w2 = w1 + length (take (count - w1) (filter (parked_on addr s) L)) \<and>
      (\<forall>j. proc_at t j = (if j \<in> set (take (count - w1) (filter (parked_on addr s) L))
         then map_option unparked (proc_at s1 j) else proc_at s1 j))"
    using Cons.IH[OF _ w1 f] Cons.prems(1) same by simp
  have nb: "j \<noteq> b" if "j \<in> set (take n (filter P L))" for j n P
    using that Cons.prems(1) by (auto dest: in_set_takeD)
  show ?case
  proof (cases "parked_on addr s b \<and> w < count")
    case True
    then have "w1 = w + 1" "count - w = Suc (count - w1)" using at by auto
    then have "take (count - w) (filter (parked_on addr s) (b # L)) = b # take (count - w1) (filter (parked_on addr s) L)"
      using True by simp
    with IH True at nb \<open>w1 = w + 1\<close> show ?thesis by auto
  next
    case False
    then have "w1 = w" "take (count - w) (filter (parked_on addr s) (b # L)) = take (count - w) (filter (parked_on addr s) L)"
      using at Cons.prems(2) by auto
    with IH False at show ?thesis by auto
  qed
qed simp

lemma clear_futex_ok:
  assumes "length (futex_waiters s) = 256" "\<forall>w\<in>set (futex_waiters s). pidset_ok w"
    and "\<And>i p. proc_at s i = Some p \<Longrightarrow> pid p = i"
    and "\<And>i a. i \<noteq> b \<Longrightarrow> parked_on a s i \<Longrightarrow> i \<in> pids (futex_waiters s ! futex_bucket a)"
    and "\<And>a. \<not> parked_on a s b"
  shows "futex_ok (clear_futex_waiter b addr s)"
proof -
  let ?t = "clear_futex_waiter b addr s"
  have pk: "parked_on a ?t i = parked_on a s i" for a i by (simp add: parked_on_def)
  have w: "futex_waiters ?t = (futex_waiters s)[futex_bucket addr := pidset_clear b (futex_waiters s ! futex_bucket addr)]"
    by (simp add: clear_futex_waiter_def)
  have bk: "pidset_ok (futex_waiters s ! futex_bucket addr)"
    using assms(1,2) futex_bucket_less[of addr] by simp
  have "i \<in> pids (futex_waiters ?t ! futex_bucket a)" if "parked_on a ?t i" for i a
  proof -
    have "i \<noteq> b" using that assms(5) pk by auto
    then show ?thesis using that assms(1,4) pk w bk futex_bucket_less[of addr]
      by (auto simp: nth_list_update pids_clear)
  qed
  moreover have "\<forall>w\<in>set (futex_waiters ?t). pidset_ok w"
    using assms(2) bk w set_update_subset_insert[of "futex_waiters s"] by fastforce
  ultimately show ?thesis using assms(1,3) w by (simp add: futex_ok_def)
qed

lemma futex_wake_one_ok:
  assumes "futex_wake_one addr count b (w, s) = (w2, t)"
  shows "futex_ok s \<Longrightarrow> futex_ok t" and "timers_ok s \<Longrightarrow> timers_ok t"
proof -
  consider (same) "t = s" | (gone) "proc_at s b = None" "t = clear_futex_waiter b addr s"
    | (woken) p where "proc_at s b = Some p" "pstate p = Blocked (FutexWait addr)"
        "t = clear_futex_waiter b addr (put_proc b (unparked p)
             (if futex_deadline p \<noteq> 0 then dec_timed_block_count s else s))"
  proof (cases "count \<le> w")
    case True
    then have "futex_wake_one addr count b (w, s) = (w, s)" by (simp only: futex_wake_one_cases if_True)
    with assms same show thesis by simp
  next
    case False
    then have nle: "(count \<le> w) = False" by simp
    show thesis
    proof (cases "proc_at s b")
      case None
      then have "futex_wake_one addr count b (w, s) = (w, clear_futex_waiter b addr s)"
        by (simp only: futex_wake_one_cases nle if_False if_True simp_thms)
      with assms gone None show thesis by simp
    next
      case (Some p)
      show thesis
      proof (cases "pstate p = Blocked (FutexWait addr)")
        case True
        then have "futex_wake_one addr count b (w, s) = (w + 1, clear_futex_waiter b addr (put_proc b (unparked p)
             (if futex_deadline p \<noteq> 0 then dec_timed_block_count s else s)))"
          unfolding futex_wake_one_cases nle if_False using Some by (simp only: parked_on_def option.simps if_False if_True option.sel not_None_eq simp_thms)
        with assms woken[OF Some True] show thesis by simp
      next
        case False
        then have "futex_wake_one addr count b (w, s) = (w, s)"
          unfolding futex_wake_one_cases nle if_False using Some by (simp add: parked_on_def)
        with assms same show thesis by simp
      qed
    qed
  qed
  note cs = this
  show "futex_ok t" if ok: "futex_ok s"
    using cs
  proof cases
    case gone
    then have "\<not> parked_on a s b" for a by (simp add: parked_on_def)
    then show ?thesis unfolding gone(2) using ok by (intro clear_futex_ok) (auto simp: futex_ok_def)
  next
    case woken
    let ?u = "put_proc b (unparked p) (if futex_deadline p \<noteq> 0 then dec_timed_block_count s else s)"
    have f: "futex_waiters ?u = futex_waiters s" by (simp add: put_proc_def dec_timed_block_count_def)
    have at: "proc_at ?u j = (if j = b then Some (unparked p) else proc_at s j)" for j
      using proc_at_some[OF woken(1)] by simp
    have pk: "parked_on a ?u i \<longleftrightarrow> i \<noteq> b \<and> parked_on a s i" for a i
      unfolding parked_on_def at by (simp add: unparked_def)
    have id: "pid q = i" if "proc_at ?u i = Some q" for i q
      using that ok woken(1) unfolding at futex_ok_def by (auto simp: unparked_def split: if_splits)
    show ?thesis unfolding woken(3)
    proof (rule clear_futex_ok)
      show "length (futex_waiters ?u) = 256" "\<forall>w\<in>set (futex_waiters ?u). pidset_ok w"
        using ok unfolding f futex_ok_def by blast+
      show "i \<in> pids (futex_waiters ?u ! futex_bucket a)" if "parked_on a ?u i" for i a
        using that ok unfolding f futex_ok_def pk by blast
      show "pid q = i" if "proc_at ?u i = Some q" for i q using that by (rule id)
      show "\<not> parked_on a ?u b" for a using pk by blast
    qed
  qed (use ok in simp)
  show "timers_ok t" if ok: "timers_ok s"
    using cs
  proof cases
    case gone
    from ok show ?thesis unfolding gone(2) timers_ok_def sched_frames .
  next
    case woken
    show ?thesis
      by (rule unpark_timers[OF ok woken(1)])
        (use woken in \<open>simp_all add: put_proc_def dec_timed_block_count_def clear_futex_waiter_def waits_timed_def\<close>)
  qed (use ok in simp)
qed

lemma futex_fold_ok:
  "fold (futex_wake_one addr count) L (w, s) = (w2, t) \<Longrightarrow> futex_ok s \<Longrightarrow> timers_ok s \<Longrightarrow> futex_ok t \<and> timers_ok t"
proof (induction L arbitrary: w s)
  case (Cons b L)
  obtain w1 s1 where 1: "futex_wake_one addr count b (w, s) = (w1, s1)" by (metis surj_pair)
  from Cons.prems 1 futex_wake_one_ok[OF 1] Cons.IH[of w1 s1] show ?case by simp
qed simp

lemma wake_futex_fold:
  "wake_futex_waiters addr count s =
     fold (futex_wake_one addr count) (pid_list (futex_waiters s ! futex_bucket addr)) (0, s)"
proof -
  let ?sel = "\<lambda>(woken::nat, s). futex_waiters s ! futex_bucket addr"
  have clear: "pidset_clear b x ! w = x ! w" if "w \<noteq> b div 64" for b x w
    using that by (simp add: pidset_clear_def locate_def Let_def)
  have one: "clear_futex_waiter b addr u = u\<lparr>futex_waiters := (futex_waiters u)
      [futex_bucket addr := pidset_clear b (futex_waiters u ! futex_bucket addr)]\<rparr>" for b u
    by (simp add: clear_futex_waiter_def)
  have "?sel (futex_wake_one addr count b st) ! w = ?sel st ! w" if "w \<noteq> b div 64" for b st w
  proof (cases st)
    case (Pair k u)
    have "futex_waiters (clear_futex_waiter b addr v) ! futex_bucket addr ! w = futex_waiters v ! futex_bucket addr ! w" for v
      using clear[OF that] by (cases "futex_bucket addr < length (futex_waiters v)") (simp_all add: one list_update_beyond)
    moreover have "futex_waiters (put_proc b q v) = futex_waiters v" "futex_waiters (dec_timed_block_count v) = futex_waiters v" for q v
      by (simp_all add: put_proc_def dec_timed_block_count_def)
    ultimately show ?thesis by (simp add: Pair futex_wake_one_cases)
  qed
  from for_each_pid_list[of ?sel "futex_wake_one addr count" "(0, s)", OF this] show ?thesis
    by (simp add: wake_futex_waiters_def)
qed

lemma update_futex_ok:
  assumes "futex_ok s" "pid p = i" "\<And>a. pstate p = Blocked (FutexWait a) \<Longrightarrow> i \<in> pids (futex_waiters s ! futex_bucket a)"
    and "process_table t = (process_table s)[i := Some p]" "futex_waiters t = futex_waiters s"
  shows "futex_ok t"
proof -
  have "proc_at t j = proc_at (put_proc i p s) j" for j by (simp add: proc_at_def put_proc_def assms(4))
  then have at: "proc_at t j = (if j = i \<and> i < length (process_table s) then Some p else proc_at s j)" for j by simp
  have "j = i \<and> pstate p = Blocked (FutexWait a) \<or> parked_on a s j" if "parked_on a t j" for a j
    using that unfolding parked_on_def at by (simp split: if_splits)
  then have "j \<in> pids (futex_waiters t ! futex_bucket a)" if "parked_on a t j" for a j
    using that assms(1) assms(3)[of a] unfolding futex_ok_def assms(5) by blast
  moreover have "pid q = j" if "proc_at t j = Some q" for j q
    using that assms(1,2) unfolding futex_ok_def at by (simp split: if_splits)
  moreover have "length (futex_waiters t) = 256 \<and> (\<forall>w\<in>set (futex_waiters t). pidset_ok w)"
    using assms(1,5) by (simp add: futex_ok_def)
  ultimately show ?thesis unfolding futex_ok_def by blast
qed

lemma put_futex_ok:
  assumes "futex_ok s" "pid p = i" "\<And>a. pstate p = Blocked (FutexWait a) \<Longrightarrow> i \<in> pids (futex_waiters s ! futex_bucket a)"
  shows "futex_ok (put_proc i p s)"
  by (rule update_futex_ok[OF assms]) (simp_all add: put_proc_def)

lemma mark_futex_ok:
  assumes "futex_ok s"
  shows "futex_ok (mark_futex_waiter b addr s)"
    and "b < MAX_PROCESSES \<Longrightarrow> b \<in> pids (futex_waiters (mark_futex_waiter b addr s) ! futex_bucket addr)"
proof -
  let ?t = "mark_futex_waiter b addr s"
  have w: "futex_waiters ?t = (futex_waiters s)[futex_bucket addr := pidset_set b (futex_waiters s ! futex_bucket addr)]"
    by (simp add: mark_futex_waiter_def)
  have l: "futex_bucket addr < length (futex_waiters s)" using assms futex_bucket_less by (simp add: futex_ok_def)
  have bk: "pidset_ok (futex_waiters s ! futex_bucket addr)" using assms l by (simp add: futex_ok_def)
  then have p: "pids (futex_waiters s ! k) \<subseteq> pids (futex_waiters ?t ! k)" for k
    using l by (cases "k = futex_bucket addr") (auto simp: w pids_set)
  have "parked_on a ?t i = parked_on a s i" for a i by (simp add: parked_on_def)
  then have "i \<in> pids (futex_waiters ?t ! futex_bucket a)" if "parked_on a ?t i" for a i
    using that assms p unfolding futex_ok_def by blast
  moreover have "\<forall>x\<in>set (futex_waiters ?t). pidset_ok x"
    using assms bk w set_update_subset_insert[of "futex_waiters s"] by (fastforce simp: futex_ok_def)
  moreover have "proc_at ?t i = proc_at s i" for i by simp
  ultimately show "futex_ok ?t" using assms w by (simp add: futex_ok_def)
  show "b \<in> pids (futex_waiters ?t ! futex_bucket addr)" if "b < MAX_PROCESSES"
    using that l bk by (simp add: w pids_set)
qed

text \<open>A thread that parks is in the waiter set of its address, so the invariant of the sets
  is kept by the locked section of a futex wait.\<close>

lemma futex_wait_ok:
  assumes "futex_ok s" "timers_ok s" "runs s me" "futex_wait_locked me addr cur val d s = (parks, t)"
  shows "futex_ok t"
proof -
  obtain p where p: "proc_at s me = Some p" using runs_untimed[OF assms(2,3)] .
  have me: "me < MAX_PROCESSES" using proc_at_some[OF p] assms(2) by (simp add: timers_ok_def)
  let ?s1 = "mark_futex_waiter me addr s"
  have "pid p = me" using assms(1) p by (simp add: futex_ok_def)
  then have q: "futex_ok (put_proc me q ?s1)" if "pstate q = Blocked (FutexWait addr)" "pid q = pid p" for q
    using that mark_futex_ok[OF assms(1)] me by (intro put_futex_ok) auto
  have frame: "futex_ok (lower_earliest e (inc_timed_block_count u)) = futex_ok u" for e u
    by (simp add: futex_ok_def parked_on_def lower_earliest_def inc_timed_block_count_def proc_at_def)
  show ?thesis using assms(1,4) p q by (auto simp: futex_wait_locked_def Let_def frame split: if_splits)
qed

lemma spawn_timers:
  assumes "timers_ok s" "i < MAX_PROCESSES" "process_table s ! i = None" "pstate p = Running" "futex_deadline p = 0"
  shows "timers_ok (put_proc i p s)"
proof -
  have i: "i < length (process_table s)" using assms(1,2) by (simp add: timers_ok_def)
  have "\<not> timed (Some p)" using assms(4) by (simp add: timed_def deadline_of_def)
  then have "length (filter timed ((process_table s)[i := Some p])) = length (filter timed (process_table s))"
    using length_filter_update[OF i, of timed "Some p"] assms(3) by (simp add: timed_def)
  moreover have "timed_block_count s = of_nat (length (filter timed (process_table s)))" "length (process_table s) = MAX_PROCESSES"
    using assms(1) by (simp_all add: timers_ok_def)
  moreover have "earliest_deadline s \<le> d" if "proc_at (put_proc i p s) j = Some q" "deadline_of q = Some d" for j q d
    using that assms(1,4) by (auto simp: timers_ok_def deadline_of_def split: if_splits)
  moreover have "waits_timed q" if "proc_at (put_proc i p s) j = Some q" "futex_deadline q \<noteq> 0" for j q
    using that assms(1,5) by (auto simp: timers_ok_def split: if_splits)
  ultimately show ?thesis by (auto simp: timers_ok_def put_proc_def)
qed

definition sched_new :: sched where
  "sched_new = \<lparr>process_table = replicate MAX_PROCESSES None, timed_block_count = 0,
     earliest_deadline = 2 ^ 64 - 1, stdin_waiters = pidset_new, input_waiters = pidset_new,
     pipe_waiters = replicate 256 pidset_new, futex_waiters = replicate 256 pidset_new\<rparr>"

lemma proc_at_new [simp]: "proc_at sched_new i = None"
  by (simp add: proc_at_def sched_new_def)

lemma sched_new_ok: "timers_ok sched_new" "futex_ok sched_new"
  by (simp_all add: timers_ok_def futex_ok_def parked_on_def)
    (simp_all add: sched_new_def timed_def)

text \<open>Two threads parked on one address, one of them with a deadline.\<close>

definition demo_one :: sched where
  "demo_one = put_proc 1 \<lparr>pid = 1, pstate = Running, futex_deadline = 0, futex_timed_out = False\<rparr> sched_new"

definition demo_two :: sched where
  "demo_two = put_proc 2 \<lparr>pid = 2, pstate = Running, futex_deadline = 0, futex_timed_out = False\<rparr>
     (snd (futex_wait_locked 1 0x1000 7 7 500 demo_one))"

definition demo_parked :: sched where
  "demo_parked = snd (futex_wait_locked 2 0x1000 7 7 0 demo_two)"

lemma demo_one_ok: "timers_ok demo_one" "futex_ok demo_one" "runs demo_one 1"
proof -
  show "timers_ok demo_one" unfolding demo_one_def
    by (rule spawn_timers[OF sched_new_ok(1)]) (simp_all add: sched_new_def)
  show "futex_ok demo_one" unfolding demo_one_def by (rule put_futex_ok[OF sched_new_ok(2)]) simp_all
  show "runs demo_one 1" by (simp add: runs_def demo_one_def) (simp add: sched_new_def)
qed

lemma demo_two_ok: "timers_ok demo_two" "futex_ok demo_two" "runs demo_two 2"
proof -
  obtain b t where w: "futex_wait_locked 1 0x1000 7 7 500 demo_one = (b, t)" by (metis surj_pair)
  note ok = futex_wait_timers[OF demo_one_ok(1,3) w] futex_wait_ok[OF demo_one_ok(2,1,3) w]
  have t: "process_table t = (replicate 256 None)[1 := Some \<lparr>pid = 1, pstate = Blocked (FutexWait 0x1000),
      futex_deadline = 500, futex_timed_out = False\<rparr>]"
    using w by (auto simp: futex_wait_locked_def demo_one_def Let_def put_proc_def split: option.splits)
      (simp_all add: sched_new_def proc_at_def inc_timed_block_count_def lower_earliest_def mark_futex_waiter_def)
  show "timers_ok demo_two" unfolding demo_two_def w snd_conv
    by (rule spawn_timers[OF ok(1)]) (simp_all add: t)
  show "futex_ok demo_two" unfolding demo_two_def w snd_conv by (rule put_futex_ok[OF ok(2)]) simp_all
  show "runs demo_two 2" unfolding demo_two_def w snd_conv by (simp add: runs_def t)
qed

lemma demo_parked_ok: "timers_ok demo_parked" "futex_ok demo_parked"
proof -
  obtain b t where w: "futex_wait_locked 2 0x1000 7 7 0 demo_two = (b, t)" by (metis surj_pair)
  show "timers_ok demo_parked" "futex_ok demo_parked"
    using futex_wait_timers[OF demo_two_ok(1,3) w] futex_wait_ok[OF demo_two_ok(2,1,3) w]
    by (simp_all add: demo_parked_def w)
qed

lemma demo_parked_at:
  "proc_at demo_parked i =
     (if i = 1 then Some \<lparr>pid = 1, pstate = Blocked (FutexWait 0x1000), futex_deadline = 500, futex_timed_out = False\<rparr>
      else if i = 2 then Some \<lparr>pid = 2, pstate = Blocked (FutexWait 0x1000), futex_deadline = 0, futex_timed_out = False\<rparr>
      else None)"
proof -
  have "length (process_table sched_new) = 256" by (simp add: sched_new_def)
  then show ?thesis
    by (simp add: demo_parked_def demo_two_def demo_one_def futex_wait_locked_def Let_def)
qed

text \<open>C13: \<open>FUTEX_WAKE\<close> wakes exactly as many waiters as it was asked to, or all of them
  when there are fewer: the number returned is the smaller of the request and the number
  of threads parked on the address, that many of those threads become ready with their
  deadline cleared, every other process is untouched even when its address falls in the
  same bucket, and the waiter sets, the count of timed blocks and the earliest deadline
  stay consistent.\<close>

theorem futex_wake_exact:
  assumes "futex_ok s" "timers_ok s"
  shows "\<exists>R t. wake_futex_waiters addr count s = (card R, t) \<and>
     R \<subseteq> {i. parked_on addr s i} \<and> card R = min count (card {i. parked_on addr s i}) \<and>
     (\<forall>i. proc_at t i = (if i \<in> R then map_option unparked (proc_at s i) else proc_at s i)) \<and>
     futex_ok t \<and> timers_ok t"
proof -
  let ?L = "pid_list (futex_waiters s ! futex_bucket addr)"
  let ?W = "filter (parked_on addr s) ?L"
  obtain n t where r: "wake_futex_waiters addr count s = (n, t)" by (metis surj_pair)
  then have f: "fold (futex_wake_one addr count) ?L (0, s) = (n, t)" by (simp add: wake_futex_fold)
  have W: "set ?W = {i. parked_on addr s i}"
    using assms(1) by (auto simp: set_pid_list futex_ok_def)
  have d: "distinct ?W" using distinct_pid_list by simp
  have c: "card (set (take count ?W)) = min count (length ?W)" "length ?W = card {i. parked_on addr s i}"
    using d distinct_card[of "take count ?W"] distinct_card[OF d] W by (auto simp: min.commute)
  from futex_fold[OF distinct_pid_list _ f]
  have "n = length (take count ?W)"
    "\<forall>i. proc_at t i = (if i \<in> set (take count ?W) then map_option unparked (proc_at s i) else proc_at s i)" by auto
  with r c W futex_fold_ok[OF f assms] show ?thesis
    by (intro exI[of _ "set (take count ?W)"] exI[of _ t]) (auto dest: in_set_takeD)
qed

theorem futex_wake_exact_witness:
  "futex_ok demo_parked \<and> timers_ok demo_parked \<and> card {i. parked_on 0x1000 demo_parked i} = 2 \<and>
   (\<exists>R t. wake_futex_waiters 0x1000 1 demo_parked = (card R, t) \<and> R \<subseteq> {1, 2 :: nat} \<and> card R = 1 \<and> timers_ok t)"
proof -
  have W: "{i. parked_on 0x1000 demo_parked i} = {1, 2}" by (auto simp: parked_on_def demo_parked_at split: if_splits)
  then have c: "card {i. parked_on 0x1000 demo_parked i} = 2" by simp
  from futex_wake_exact[OF demo_parked_ok(2,1), of "0x1000" 1] c W demo_parked_ok show ?thesis by force
qed

text \<open>C12: A timed wait always ends: after a sweep at time \<open>now\<close> every thread that was sleeping,
  waiting on a futex or waiting for I/O with a deadline not later than \<open>now\<close> is ready, a
  futex or I/O wait marked as timed out; every other thread is as it was. The two shortcuts
  that skip the sweep, no timed block counted and the earliest deadline still ahead, never
  skip an expired wait, and the count and the earliest deadline are accurate again after it.\<close>

theorem sweep_ends_expired_waits:
  assumes "timers_ok s"
  shows "timers_ok (wake_expired_sleepers now s) \<and>
     (\<forall>i p. proc_at s i = Some p \<longrightarrow>
        proc_at (wake_expired_sleepers now s) i =
          Some (case deadline_of p of
                  None \<Rightarrow> p
                | Some d \<Rightarrow>
                    if d \<le> now
                    then (case pstate p of
                            Blocked (Sleep d) \<Rightarrow> p\<lparr>pstate := Ready\<rparr>
                          | _ \<Rightarrow> p\<lparr>pstate := Ready, futex_deadline := 0, futex_timed_out := True\<rparr>)
                    else p))"
  using wake_expired_spec[OF assms, of now] by (simp add: after_sweep_def expired_def cong: option.case_cong if_cong)

theorem sweep_ends_expired_waits_witness:
  "timers_ok demo_parked \<and>
   proc_at (wake_expired_sleepers 600 demo_parked) 1 =
     Some \<lparr>pid = 1, pstate = Ready, futex_deadline = 0, futex_timed_out = True\<rparr> \<and>
   proc_at (wake_expired_sleepers 400 demo_parked) 1 = proc_at demo_parked 1"
  using sweep_ends_expired_waits[OF demo_parked_ok(1), of 600] sweep_ends_expired_waits[OF demo_parked_ok(1), of 400]
    demo_parked_ok(1)
  by (simp add: demo_parked_at deadline_of_def)

end
