(* ===== verification/Kernel_Readiness.thy ===== *)
theory Kernel_Readiness
  imports Kernel_Process
begin

text \<open>
  Per-object readiness, \<open>morpheus-kernel/src/io/readiness.rs\<close>: the table of slots that carry
  a level-triggered mask for each token, the operations on it, and the blocking primitive
  \<open>wait_ready\<close>, cut into the section it runs under the table lock (\<open>wait_ready_turn\<close>) and
  what it does when the thread runs again (\<open>wait_ready_resume\<close>). The lemmas give the effect
  of every operation on every mask. The relation \<open>ready_step\<close> interleaves waiters, wakers,
  sleepers, futex calls, the tick, preemption and dispatch at the granularity of the locks and
  atomics, and \<open>ready_inv\<close> is its invariant, by rule induction.
\<close>

section \<open>Tokens and readiness slots\<close>

definition CLASS_SHIFT :: nat where "CLASS_SHIFT = 56"
definition CLASS_SOCKET :: u64 where "CLASS_SOCKET = push_bit CLASS_SHIFT 1"
definition CLASS_PIPE :: u64 where "CLASS_PIPE = push_bit CLASS_SHIFT 2"
definition CLASS_EPOLL :: u64 where "CLASS_EPOLL = push_bit CLASS_SHIFT 3"
definition ID_MASK :: u64 where "ID_MASK = push_bit CLASS_SHIFT 1 - 1"

definition socket_token :: "u64 \<Rightarrow> u64" where "socket_token handle = CLASS_SOCKET OR (handle AND ID_MASK)"
definition pipe_token :: "u8 \<Rightarrow> u64" where "pipe_token pipe_idx = CLASS_PIPE OR ucast pipe_idx"
definition epoll_token :: "u64 \<Rightarrow> u64" where "epoll_token cookie = CLASS_EPOLL OR (cookie AND ID_MASK)"

definition EPOLLIN :: u32 where "EPOLLIN = 0x001"
definition EPOLLOUT :: u32 where "EPOLLOUT = 0x004"
definition EPOLLERR :: u32 where "EPOLLERR = 0x008"
definition EPOLLHUP :: u32 where "EPOLLHUP = 0x010"

abbreviation MAX_READINESS_SOURCES :: nat where "MAX_READINESS_SOURCES \<equiv> 1024"

type_synonym sources = "(u64 \<times> u32) list"

definition sources_new :: sources where
  "sources_new = replicate MAX_READINESS_SOURCES (0, 0)"

definition find_src :: "u64 \<Rightarrow> sources \<Rightarrow> nat option" where
  "find_src token ss =
     (let i = length (takeWhile (\<lambda>x. fst x \<noteq> token) ss) in if i < length ss then Some i else None)"

definition register :: "u64 \<Rightarrow> sources \<Rightarrow> nat option \<times> sources" where
  "register token ss =
     (if token = 0 then (None, ss)
      else case find_src token ss of
        Some i \<Rightarrow> (Some i, ss)
      | None \<Rightarrow> (case find_src 0 ss of
                   Some i \<Rightarrow> (Some i, ss[i := (token, 0)])
                 | None \<Rightarrow> (None, ss)))"

definition unregister :: "u64 \<Rightarrow> sources \<Rightarrow> sources" where
  "unregister token ss = (case find_src token ss of Some i \<Rightarrow> ss[i := (0, 0)] | None \<Rightarrow> ss)"

definition slot_for :: "u64 \<Rightarrow> sources \<Rightarrow> nat option \<times> sources" where
  "slot_for token ss = (case find_src token ss of Some i \<Rightarrow> (Some i, ss) | None \<Rightarrow> register token ss)"

definition ready_mask :: "u64 \<Rightarrow> sources \<Rightarrow> u32" where
  "ready_mask token ss = (case find_src token ss of Some i \<Rightarrow> snd (ss ! i) | None \<Rightarrow> 0)"

text \<open>The atomic OR of \<open>set_ready\<close> on the slot it has looked up.\<close>

definition fetch_or :: "nat \<Rightarrow> u32 \<Rightarrow> sources \<Rightarrow> sources" where
  "fetch_or i add ss = ss[i := (fst (ss ! i), snd (ss ! i) OR add)]"

record ready_state =
  sources :: sources
  rsched :: sched

definition set_ready :: "u64 \<Rightarrow> u32 \<Rightarrow> 'z ready_state_scheme \<Rightarrow> 'z ready_state_scheme" where
  "set_ready token add r =
     (case slot_for token (sources r) of
        (None, ss) \<Rightarrow> r\<lparr>sources := ss\<rparr>
      | (Some i, ss) \<Rightarrow> r\<lparr>sources := fetch_or i add ss, rsched := wake_token token (rsched r)\<rparr>)"

definition clear_ready :: "u64 \<Rightarrow> u32 \<Rightarrow> 'z ready_state_scheme \<Rightarrow> 'z ready_state_scheme" where
  "clear_ready token sub r =
     (case find_src token (sources r) of
        None \<Rightarrow> r
      | Some i \<Rightarrow> r\<lparr>sources := (sources r)[i := (fst (sources r ! i), snd (sources r ! i) AND NOT sub)]\<rparr>)"

definition replace_ready :: "u64 \<Rightarrow> u32 \<Rightarrow> 'z ready_state_scheme \<Rightarrow> 'z ready_state_scheme" where
  "replace_ready token m r =
     (case slot_for token (sources r) of
        (None, ss) \<Rightarrow> r\<lparr>sources := ss\<rparr>
      | (Some i, ss) \<Rightarrow> r\<lparr>sources := ss[i := (fst (ss ! i), m)], rsched := wake_token token (rsched r)\<rparr>)"

datatype wait_outcome = WReady u32 | TimedOut

text \<open>One turn of the loop of \<open>wait_ready\<close>: the section under the table lock, which returns the
  matching bits or parks the thread, and what the thread does when it runs again.\<close>

definition wait_ready_turn :: "nat \<Rightarrow> u64 \<Rightarrow> u32 \<Rightarrow> u64 \<Rightarrow> 'z ready_state_scheme \<Rightarrow> wait_outcome option \<times> 'z ready_state_scheme" where
  "wait_ready_turn me token interest deadline r =
     (let m = ready_mask token (sources r) AND interest in
      if m \<noteq> 0 then (Some (WReady m), r)
      else (None, r\<lparr>rsched := park_ready me token deadline (rsched r)\<rparr>))"

definition wait_ready_resume :: "nat \<Rightarrow> 'z ready_state_scheme \<Rightarrow> wait_outcome option \<times> 'z ready_state_scheme" where
  "wait_ready_resume me r =
     (case proc_at (rsched r) me of
        Some p \<Rightarrow> if futex_timed_out p
                   then (Some TimedOut, r\<lparr>rsched := put_proc me (p\<lparr>futex_timed_out := False\<rparr>) (rsched r)\<rparr>)
                   else (None, r)
      | None \<Rightarrow> (None, r))"

section \<open>The table of slots\<close>

definition sources_ok :: "sources \<Rightarrow> bool" where
  "sources_ok ss \<longleftrightarrow> length ss = MAX_READINESS_SOURCES \<and>
     (\<forall>i j. i < length ss \<and> j < length ss \<and> fst (ss ! i) = fst (ss ! j) \<and> fst (ss ! i) \<noteq> 0 \<longrightarrow> i = j)"

lemma find_src_Some:
  assumes "find_src t ss = Some i"
  shows "i < length ss" "fst (ss ! i) = t"
proof -
  let ?w = "takeWhile (\<lambda>x. fst x \<noteq> t) ss"
  have i: "i = length ?w" "i < length ss" using assms by (auto simp: find_src_def Let_def split: if_splits)
  then show "i < length ss" by simp
  show "fst (ss ! i) = t" using nth_length_takeWhile[of "\<lambda>x. fst x \<noteq> t" ss] i by simp
qed

lemma find_src_None: "find_src t ss = None \<longleftrightarrow> (\<forall>i < length ss. fst (ss ! i) \<noteq> t)"
proof
  assume "find_src t ss = None"
  then have "length (takeWhile (\<lambda>x. fst x \<noteq> t) ss) = length ss"
    using length_takeWhile_le[of "\<lambda>x. fst x \<noteq> t" ss] by (auto simp: find_src_def Let_def split: if_splits)
  then have "takeWhile (\<lambda>x. fst x \<noteq> t) ss = ss" by (metis takeWhile_eq_take take_all order_refl)
  then have "\<forall>x\<in>set ss. fst x \<noteq> t" by (simp only: takeWhile_eq_all_conv)
  then show "\<forall>i < length ss. fst (ss ! i) \<noteq> t" using nth_mem by blast
next
  assume a: "\<forall>i < length ss. fst (ss ! i) \<noteq> t"
  then show "find_src t ss = None" using find_src_Some[of t ss] by (cases "find_src t ss") auto
qed

lemma find_src_iff:
  assumes "sources_ok ss" "t \<noteq> 0"
  shows "find_src t ss = Some i \<longleftrightarrow> i < length ss \<and> fst (ss ! i) = t"
proof
  assume i: "i < length ss \<and> fst (ss ! i) = t"
  then obtain j where j: "find_src t ss = Some j" using find_src_None[of t ss] by (cases "find_src t ss") auto
  then show "find_src t ss = Some i" using find_src_Some[OF j] i assms by (auto simp: sources_ok_def)
qed (use find_src_Some in blast)

lemma ready_mask_eq:
  assumes "sources_ok ss" "t \<noteq> 0" "i < length ss" "fst (ss ! i) = t"
  shows "ready_mask t ss = snd (ss ! i)"
proof -
  have "find_src t ss = Some i" using find_src_iff[OF assms(1,2), of i] assms(3,4) by blast
  then show ?thesis by (simp add: ready_mask_def)
qed

lemma ready_mask_absent: "(\<And>i. i < length ss \<Longrightarrow> fst (ss ! i) \<noteq> t) \<Longrightarrow> ready_mask t ss = 0"
proof -
  assume "\<And>i. i < length ss \<Longrightarrow> fst (ss ! i) \<noteq> t"
  then have "find_src t ss = None" using find_src_None by blast
  then show ?thesis by (simp add: ready_mask_def)
qed

text \<open>Looking up or creating a slot changes no mask, and the slot it returns is the token's.\<close>

lemma slot_for_spec:
  assumes "sources_ok ss" "t \<noteq> 0" "slot_for t ss = (r, ss2)"
  shows "sources_ok ss2" and "\<And>u. u \<noteq> 0 \<Longrightarrow> ready_mask u ss2 = ready_mask u ss"
    and "\<And>i. r = Some i \<Longrightarrow> i < length ss2 \<and> fst (ss2 ! i) = t"
    and "\<And>j. j < length ss \<Longrightarrow> fst (ss ! j) \<noteq> 0 \<Longrightarrow> ss2 ! j = ss ! j" and "length ss2 = length ss"
proof -
  consider (old) i where "find_src t ss = Some i" "r = Some i" "ss2 = ss"
    | (new) i where "find_src t ss = None" "find_src 0 ss = Some i" "r = Some i" "ss2 = ss[i := (t, 0)]"
    | (full) "r = None" "ss2 = ss"
    using assms(2,3) by (auto simp: slot_for_def register_def split: option.splits)
  note cs = this
  have new_nth: "ss2 ! j = (if j = i then (t, 0) else ss ! j)" and new_free: "i < length ss" "fst (ss ! i) = 0"
    if "find_src 0 ss = Some i" "ss2 = ss[i := (t, 0)]" for i j
    using find_src_Some[OF that(1)] that(2) by (auto simp: nth_list_update)
  show len: "length ss2 = length ss" using cs by cases auto
  show frame: "ss2 ! j = ss ! j" if "j < length ss" "fst (ss ! j) \<noteq> 0" for j
    using cs by cases (use that new_nth new_free in auto)
  show ok: "sources_ok ss2"
    using cs
  proof cases
    case (new i)
    have "fst (ss ! j) \<noteq> t" if "j < length ss" for j using new(1) that find_src_None by blast
    with assms(1) new_nth[OF new(2,4)] len show ?thesis unfolding sources_ok_def by (auto split: if_splits)
  qed (use assms(1) in auto)
  show "i < length ss2 \<and> fst (ss2 ! i) = t" if "r = Some i" for i
    using cs
  proof cases
    case (old j)
    then show ?thesis using that find_src_Some[of t ss j] by auto
  next
    case (new j)
    then show ?thesis using that find_src_Some[of 0 ss j] by auto
  qed (use that in auto)
  show "ready_mask u ss2 = ready_mask u ss" if u: "u \<noteq> 0" for u
  proof (cases "\<exists>j < length ss. fst (ss ! j) = u")
    case True
    then obtain j where "j < length ss" "fst (ss ! j) = u" by blast
    then show ?thesis using u frame[of j] len ready_mask_eq[OF assms(1) u] ready_mask_eq[OF ok u, of j] by auto
  next
    case False
    then have old: "ready_mask u ss = 0" by (intro ready_mask_absent) auto
    have "ready_mask u ss2 = 0"
      using cs
    proof cases
      case (new i)
      show ?thesis
      proof (cases "u = t")
        case True
        then show ?thesis using ready_mask_eq[OF ok u, of i] new_nth[OF new(2,4), of i] new_free[OF new(2,4)] len by auto
      next
        case neq: False
        then show ?thesis using False new_nth[OF new(2,4)] len by (intro ready_mask_absent) (auto split: if_splits)
      qed
    qed (use old in auto)
    then show ?thesis using old by simp
  qed
qed

lemma slot_mask_update:
  assumes "sources_ok ss" "i < length ss" and ss2_def: "ss2 = ss[i := (fst (ss ! i), m)]"
  shows "sources_ok ss2"
    and "u \<noteq> 0 \<Longrightarrow> ready_mask u ss2 = (if fst (ss ! i) = u then m else ready_mask u ss)"
proof -
  have n: "ss2 ! j = (if j = i then (fst (ss ! i), m) else ss ! j)" for j
    using assms(2) by (auto simp: ss2_def nth_list_update)
  have f: "fst (ss2 ! j) = fst (ss ! j)" for j by (simp add: n)
  have len: "length ss2 = length ss" by (simp add: ss2_def)
  show ok: "sources_ok ss2" using assms(1) f len unfolding sources_ok_def by metis
  show "ready_mask u ss2 = (if fst (ss ! i) = u then m else ready_mask u ss)" if u: "u \<noteq> 0"
  proof (cases "\<exists>j < length ss. fst (ss ! j) = u")
    case True
    then obtain j where j: "j < length ss" "fst (ss ! j) = u" by blast
    have "fst (ss ! i) = u \<longleftrightarrow> j = i" using j assms(1,2) u by (auto simp: sources_ok_def)
    then show ?thesis using j f n len ready_mask_eq[OF assms(1) u, of j] ready_mask_eq[OF ok u, of j] by auto
  next
    case False
    then have "ready_mask u ss = 0" "ready_mask u ss2 = 0" using f len by (auto intro!: ready_mask_absent)
    then show ?thesis using False assms(2) by auto
  qed
qed

lemma pipe_token_nz [simp]: "pipe_token i \<noteq> 0"
proof -
  have "bit (pipe_token i) 57" by (simp add: pipe_token_def CLASS_PIPE_def CLASS_SHIFT_def bit_or_iff bit_push_bit_iff)
  then show ?thesis by auto
qed

text \<open>The effect of the two mask operations on the masks: the token's own bits change, when it
  has or can get a slot, and no other token's.\<close>

definition has_slot :: "u64 \<Rightarrow> sources \<Rightarrow> bool" where
  "has_slot t ss \<longleftrightarrow> find_src t ss \<noteq> None \<or> find_src 0 ss \<noteq> None"

lemma set_ready_spec:
  assumes "sources_ok (sources r)" "t \<noteq> 0"
  shows "sources_ok (sources (set_ready t add r))"
    and "has_slot t (sources r) \<Longrightarrow> ready_mask t (sources (set_ready t add r)) = ready_mask t (sources r) OR add"
    and "u \<noteq> 0 \<Longrightarrow> u \<noteq> t \<Longrightarrow> ready_mask u (sources (set_ready t add r)) = ready_mask u (sources r)"
    and "has_slot t (sources r) \<Longrightarrow> find_src t (sources (set_ready t add r)) \<noteq> None"
proof -
  obtain x ss2 where sl: "slot_for t (sources r) = (x, ss2)" by (metis surj_pair)
  note sp = slot_for_spec[OF assms sl]
  have some: "\<exists>i. x = Some i" if "has_slot t (sources r)"
  proof -
    have "\<exists>i. fst (slot_for t (sources r)) = Some i"
      using that assms(2) by (cases "find_src t (sources r)"; cases "find_src 0 (sources r)")
        (auto simp: has_slot_def slot_for_def register_def)
    then show ?thesis by (simp add: sl)
  qed
  have upd: "sources (set_ready t add r) = fetch_or i add ss2" if "x = Some i" for i
    using sl that by (simp add: set_ready_def)
  have mask: "sources_ok (fetch_or i add ss2)" "v \<noteq> 0 \<Longrightarrow> ready_mask v (fetch_or i add ss2) =
      (if v = t then ready_mask t (sources r) OR add else ready_mask v (sources r))" if "x = Some i" for i v
  proof -
    have i: "i < length ss2" "fst (ss2 ! i) = t" using sp(3)[OF that] by auto
    have m: "ready_mask t ss2 = snd (ss2 ! i)" by (rule ready_mask_eq[OF sp(1) assms(2) i])
    note su = slot_mask_update[OF sp(1) i(1) refl, where m = "snd (ss2 ! i) OR add"]
    show "sources_ok (fetch_or i add ss2)" using su(1) by (simp add: fetch_or_def)
    show "ready_mask v (fetch_or i add ss2) = (if v = t then ready_mask t (sources r) OR add else ready_mask v (sources r))"
      if "v \<noteq> 0" using su(2)[OF that] i m sp(2)[OF that] sp(2)[OF assms(2)] by (auto simp: fetch_or_def)
  qed
  have none: "sources (set_ready t add r) = ss2" if "x = None" using sl that by (simp add: set_ready_def)
  show "sources_ok (sources (set_ready t add r))" using upd none mask(1) sp(1) by (cases x) auto
  show "ready_mask t (sources (set_ready t add r)) = ready_mask t (sources r) OR add" if "has_slot t (sources r)"
    using some[OF that] upd mask(2)[OF _ assms(2)] by auto
  show "ready_mask u (sources (set_ready t add r)) = ready_mask u (sources r)" if "u \<noteq> 0" "u \<noteq> t"
    using upd none mask(2)[OF _ that(1)] sp(2)[OF that(1)] that by (cases x) auto
  show "find_src t (sources (set_ready t add r)) \<noteq> None" if slot: "has_slot t (sources r)"
  proof -
    obtain i where i: "x = Some i" using some[OF slot] by blast
    then have "i < length ss2 \<and> fst (ss2 ! i) = t" using sp(3) by blast
    then show ?thesis using find_src_None[of t "fetch_or i add ss2"] upd[OF i] by (auto simp: fetch_or_def)
  qed
qed

lemma clear_ready_spec:
  assumes "sources_ok (sources r)" "t \<noteq> 0"
  shows "sources_ok (sources (clear_ready t sub r))"
    and "ready_mask t (sources (clear_ready t sub r)) = ready_mask t (sources r) AND NOT sub"
    and "u \<noteq> 0 \<Longrightarrow> u \<noteq> t \<Longrightarrow> ready_mask u (sources (clear_ready t sub r)) = ready_mask u (sources r)"
    and "rsched (clear_ready t sub r) = rsched r"
proof -
  show "rsched (clear_ready t sub r) = rsched r" by (simp add: clear_ready_def split: option.split)
  have "sources_ok (sources (clear_ready t sub r)) \<and>
      ready_mask t (sources (clear_ready t sub r)) = ready_mask t (sources r) AND NOT sub \<and>
      (\<forall>u. u \<noteq> 0 \<longrightarrow> u \<noteq> t \<longrightarrow> ready_mask u (sources (clear_ready t sub r)) = ready_mask u (sources r))"
  proof (cases "find_src t (sources r)")
    case None
    then show ?thesis using assms by (simp add: clear_ready_def ready_mask_def)
  next
    case (Some i)
    note i = find_src_Some[OF Some]
    note su = slot_mask_update[OF assms(1) i(1) refl, where m = "snd (sources r ! i) AND NOT sub"]
    show ?thesis using su(1) su(2) i(2) assms(2) Some
      by (auto simp: clear_ready_def ready_mask_eq[OF assms(1,2) i])
  qed
  then show "sources_ok (sources (clear_ready t sub r))"
    "ready_mask t (sources (clear_ready t sub r)) = ready_mask t (sources r) AND NOT sub"
    "u \<noteq> 0 \<Longrightarrow> u \<noteq> t \<Longrightarrow> ready_mask u (sources (clear_ready t sub r)) = ready_mask u (sources r)" by auto
qed

section \<open>Waiters and wakers side by side\<close>

text \<open>
  The threads of all cores take the steps below in any order. A step is what one core does
  between two points where another can get in: the lock-free lookup of \<open>set_ready\<close>, its
  atomic OR, its wake scan under the table lock, the locked section of a wait. The ghost
  fields are the program counters: \<open>found\<close> the writers that have their slot, \<open>wakes\<close> the
  tokens whose bits are out and whose scan is still to come, \<open>wants\<close> the bits each parked
  thread asked for. Slots are not released while the tokens are in use.
\<close>

record ready_sys = ready_state +
  found :: "(u64 \<times> nat \<times> u32) list"
  wakes :: "u64 list"
  wants :: "nat \<Rightarrow> u32"

inductive ready_step :: "ready_sys \<Rightarrow> ready_sys \<Rightarrow> bool" where
  lookup: "t \<noteq> 0 \<Longrightarrow> slot_for t (sources r) = (Some i, ss) \<Longrightarrow>
    ready_step r (r\<lparr>sources := ss, found := (t, i, add) # found r\<rparr>)"
| lookup_full: "t \<noteq> 0 \<Longrightarrow> slot_for t (sources r) = (None, ss) \<Longrightarrow> ready_step r (r\<lparr>sources := ss\<rparr>)"
| reg: "t \<noteq> 0 \<Longrightarrow> slot_for t (sources r) = (x, ss) \<Longrightarrow> ready_step r (r\<lparr>sources := ss\<rparr>)"
| publish: "(t, i, add) \<in> set (found r) \<Longrightarrow>
    ready_step r (r\<lparr>sources := fetch_or i add (sources r), found := remove1 (t, i, add) (found r),
                    wakes := t # wakes r\<rparr>)"
| scan: "t \<in> set (wakes r) \<Longrightarrow>
    ready_step r (r\<lparr>rsched := wake_token t (rsched r), wakes := remove1 t (wakes r)\<rparr>)"
| clear: "t \<noteq> 0 \<Longrightarrow> ready_step r (clear_ready t sub r)"
| wait: "t \<noteq> 0 \<Longrightarrow> runs (rsched r) me \<Longrightarrow> wait_ready_turn me t want deadline r = (None, r1) \<Longrightarrow>
    ready_step r (r1\<lparr>wants := (wants r)(me := want)\<rparr>)"
| resume: "runs (rsched r) me \<Longrightarrow> wait_ready_resume me r = (x, r1) \<Longrightarrow> ready_step r r1"
| sleep: "runs (rsched r) me \<Longrightarrow> ready_step r (r\<lparr>rsched := block_sleep me deadline (rsched r)\<rparr>)"
| futex_wait: "runs (rsched r) me \<Longrightarrow> futex_wait_locked me addr cur val deadline (rsched r) = (parks, s) \<Longrightarrow>
    ready_step r (r\<lparr>rsched := s\<rparr>)"
| futex_wake: "wake_futex_waiters addr count (rsched r) = (n, s) \<Longrightarrow> ready_step r (r\<lparr>rsched := s\<rparr>)"
| tick: "ready_step r (r\<lparr>rsched := wake_expired_sleepers now (rsched r)\<rparr>)"
| dispatch: "proc_at (rsched r) me = Some p \<Longrightarrow> pstate p \<in> {Ready, Running} \<Longrightarrow> st \<in> {Ready, Running} \<Longrightarrow>
    ready_step r (r\<lparr>rsched := put_proc me (p\<lparr>pstate := st\<rparr>) (rsched r)\<rparr>)"

definition parked_io :: "u64 \<Rightarrow> sched \<Rightarrow> nat \<Rightarrow> bool" where
  "parked_io t s i = (case proc_at s i of None \<Rightarrow> False | Some p \<Rightarrow> pstate p = Blocked (IoReady t))"

definition no_lost_wakeup :: "ready_sys \<Rightarrow> bool" where
  "no_lost_wakeup r \<longleftrightarrow>
     (\<forall>t me. t \<noteq> 0 \<and> parked_io t (rsched r) me \<and> ready_mask t (sources r) AND wants r me \<noteq> 0 \<longrightarrow> t \<in> set (wakes r))"

definition found_ok :: "ready_sys \<Rightarrow> bool" where
  "found_ok r \<longleftrightarrow> (\<forall>t i add. (t, i, add) \<in> set (found r) \<longrightarrow>
     t \<noteq> 0 \<and> i < length (sources r) \<and> fst (sources r ! i) = t)"

definition ready_inv :: "ready_sys \<Rightarrow> bool" where
  "ready_inv r \<longleftrightarrow> sources_ok (sources r) \<and> found_ok r \<and> timers_ok (rsched r) \<and> futex_ok (rsched r) \<and> no_lost_wakeup r"

lemma ready_invI:
  assumes "sources_ok (sources r)" "timers_ok (rsched r)" "futex_ok (rsched r)"
    and "\<And>t i add. (t, i, add) \<in> set (found r) \<Longrightarrow> t \<noteq> 0 \<and> i < length (sources r) \<and> fst (sources r ! i) = t"
    and "\<And>t me. t \<noteq> 0 \<Longrightarrow> parked_io t (rsched r) me \<Longrightarrow> ready_mask t (sources r) AND wants r me \<noteq> 0 \<Longrightarrow> t \<in> set (wakes r)"
  shows "ready_inv r"
  using assms unfolding ready_inv_def no_lost_wakeup_def found_ok_def by blast

lemma ready_invD:
  assumes "ready_inv r"
  shows "sources_ok (sources r)" "timers_ok (rsched r)" "futex_ok (rsched r)"
    and "(t, i, add) \<in> set (found r) \<Longrightarrow> t \<noteq> 0 \<and> i < length (sources r) \<and> fst (sources r ! i) = t"
    and "t \<noteq> 0 \<Longrightarrow> parked_io t (rsched r) me \<Longrightarrow> ready_mask t (sources r) AND wants r me \<noteq> 0 \<Longrightarrow> t \<in> set (wakes r)"
  using assms unfolding ready_inv_def no_lost_wakeup_def found_ok_def by blast+

lemma inv_sched:
  assumes "ready_inv r" "timers_ok s" "futex_ok s" "\<And>t me. parked_io t s me \<Longrightarrow> parked_io t (rsched r) me"
  shows "ready_inv (r\<lparr>rsched := s\<rparr>)"
proof (rule ready_invI)
  fix t me assume "t \<noteq> 0" "parked_io t (rsched (r\<lparr>rsched := s\<rparr>)) me"
    "ready_mask t (sources (r\<lparr>rsched := s\<rparr>)) AND wants (r\<lparr>rsched := s\<rparr>) me \<noteq> 0"
  then have "t \<in> set (wakes r)" using assms(4)[of t me] by (intro ready_invD(5)[OF assms(1), of t me]) simp_all
  then show "t \<in> set (wakes (r\<lparr>rsched := s\<rparr>))" by simp
qed (use assms(2,3) ready_invD(1,4)[OF assms(1)] in simp_all)

lemma parked_ioI: "(\<And>p. proc_at s2 i = Some p \<Longrightarrow> pstate p = Blocked (IoReady t) \<Longrightarrow> proc_at s1 i = Some p) \<Longrightarrow>
    parked_io t s2 i \<Longrightarrow> parked_io t s1 i"
  by (auto simp: parked_io_def split: option.splits)

lemma inv_sources:
  assumes "ready_inv r" "sources_ok ss" "\<And>t. t \<noteq> 0 \<Longrightarrow> ready_mask t ss AND NOT (ready_mask t (sources r)) = 0"
    and "length ss = length (sources r)" "\<And>j. j < length (sources r) \<Longrightarrow> fst (sources r ! j) \<noteq> 0 \<Longrightarrow> fst (ss ! j) = fst (sources r ! j)"
  shows "ready_inv (r\<lparr>sources := ss\<rparr>)"
proof -
  have "m2 AND w \<noteq> 0 \<Longrightarrow> m1 AND w \<noteq> 0" if "m2 AND NOT m1 = 0" for m1 m2 w :: u32
  proof -
    have "m2 AND w = (m2 AND m1) AND w"
      using that by (intro bit_word_eqI) (auto simp: bit_and_iff bit_not_iff dest!: arg_cong[where f = "\<lambda>x. bit x _"])
    then show "m2 AND w \<noteq> 0 \<Longrightarrow> m1 AND w \<noteq> 0" by (metis and.assoc and_zero_eq and.commute)
  qed
  then have "t \<in> set (wakes r)" if "t \<noteq> 0" "parked_io t (rsched r) me" "ready_mask t ss AND wants r me \<noteq> 0" for t me
    using that ready_invD(5)[OF assms(1)] assms(3) by blast
  moreover have "t \<noteq> 0 \<and> i < length ss \<and> fst (ss ! i) = t" if "(t, i, add) \<in> set (found r)" for t i add
    using ready_invD(4)[OF assms(1) that] assms(4,5) by auto
  ultimately show ?thesis using assms(2) ready_invD[OF assms(1)] by (intro ready_invI) simp_all
qed

lemma wake_token_futex_ok: "futex_ok s \<Longrightarrow> futex_ok (wake_token t s)"
  unfolding wake_token_def
proof (rule fold_invariant[where Q = "\<lambda>i. True"])
  fix i u assume ok: "futex_ok u"
  show "futex_ok (wake_token_one t i u)"
  proof (cases "\<exists>p. proc_at u i = Some p \<and> pstate p = Blocked (IoReady t)")
    case True
    then obtain p where p: "proc_at u i = Some p" "pstate p = Blocked (IoReady t)" by blast
    have "pid p = i" using ok p by (simp add: futex_ok_def)
    then show ?thesis
      by (intro update_futex_ok[OF ok, where p = "unparked p" and i = i])
        (use p in \<open>simp_all add: wake_token_one_def unparked_if put_proc_def dec_timed_block_count_def unparked_def\<close>)
  qed (use ok in \<open>auto simp: wake_token_one_def split: option.splits\<close>)
qed auto

lemma block_sleep_futex_ok:
  assumes "futex_ok s"
  shows "futex_ok (block_sleep me d s)"
proof (cases "proc_at s me")
  case (Some p)
  have "pid p = me" using assms Some by (simp add: futex_ok_def)
  then show ?thesis
    by (intro update_futex_ok[OF assms, where p = "p\<lparr>pstate := Blocked (Sleep d)\<rparr>" and i = me])
      (use Some in \<open>simp_all add: block_sleep_def put_proc_def inc_timed_block_count_def lower_earliest_def\<close>)
qed (use assms in \<open>simp add: block_sleep_def\<close>)

lemma park_ready_futex_ok:
  assumes "futex_ok s"
  shows "futex_ok (park_ready me t d s)"
proof (cases "proc_at s me")
  case (Some p)
  have "pid p = me" using assms Some by (simp add: futex_ok_def)
  then show ?thesis
    by (intro update_futex_ok[OF assms, where i = me and p = "if d \<noteq> 0 then p\<lparr>futex_timed_out := False,
          pstate := Blocked (IoReady t), futex_deadline := d\<rparr> else p\<lparr>futex_timed_out := False, pstate := Blocked (IoReady t)\<rparr>"])
      (use Some in \<open>simp_all add: park_ready_def put_proc_def inc_timed_block_count_def lower_earliest_def split: if_splits\<close>)
qed (use assms in \<open>simp add: park_ready_def\<close>)

lemma expire_one_futex_ok:
  assumes ok: "futex_ok (fst acc)"
  shows "futex_ok (fst (expire_one now i acc))"
proof (cases acc)
  case (fields s f e)
  then have oks: "futex_ok s" using ok by simp
  show ?thesis
  proof (cases "\<exists>p d. proc_at s i = Some p \<and> deadline_of p = Some d \<and> d \<le> now")
    case True
    then obtain p d where p: "proc_at s i = Some p" "deadline_of p = Some d" "d \<le> now" by blast
    have pid: "pid p = i" using oks p by (simp add: futex_ok_def)
    have r: "pstate (expired p) = Ready" "pid (expired p) = i"
      by (auto simp: expired_def pid split: process_state.splits block_reason.splits)
    have put: "futex_ok (put_proc i (expired p) s)" using r by (intro put_futex_ok[OF oks]) simp_all
    define u where "u = put_proc i (expired p) s"
    have nb: "\<not> parked_on a u i" for a
      using r p proc_at_some[OF p(1)] by (simp add: parked_on_def u_def)
    have cl: "futex_ok (clear_futex_waiter i a u)" for a
    proof (rule clear_futex_ok)
      show "length (futex_waiters u) = 256" "\<forall>w\<in>set (futex_waiters u). pidset_ok w"
        "\<And>j q. proc_at u j = Some q \<Longrightarrow> pid q = j"
        "\<And>j b. parked_on b u j \<Longrightarrow> j \<in> pids (futex_waiters u ! futex_bucket b)"
        using put unfolding futex_ok_def u_def by blast+
      show "\<And>b. \<not> parked_on b u i" by (rule nb)
    qed
    have swap: "put_proc i q (clear_futex_waiter j a s) = clear_futex_waiter j a (put_proc i q s)" for q j a
      by (simp add: put_proc_def clear_futex_waiter_def)
    have dec: "futex_ok (dec_timed_block_count v) = futex_ok v" for v
      by (simp add: futex_ok_def parked_on_def dec_timed_block_count_def proc_at_def)
    show ?thesis using put cl pid unfolding fields expire_one_cases[OF p(1)]
      by (simp add: p(2,3) dec swap u_def split: process_state.split block_reason.split)
  next
    case False
    then have "fst (expire_one now i (s, f, e)) = s"
      by (cases "proc_at s i") (auto simp: expire_one_cases split: option.splits, simp add: expire_one_def)
    with oks fields show ?thesis by simp
  qed
qed

lemma wake_expired_futex_ok:
  assumes "futex_ok s"
  shows "futex_ok (wake_expired_sleepers now s)"
proof -
  define acc where "acc = fold (expire_one now) [0..<length (process_table s)] (s, False, 2 ^ 64 - 1 :: u64)"
  have "futex_ok (fst acc)" unfolding acc_def
    by (rule fold_invariant[where Q = "\<lambda>i. True" and P = "\<lambda>acc. futex_ok (fst acc)"]) (auto intro: expire_one_futex_ok assms)
  moreover have "futex_ok (v\<lparr>earliest_deadline := z\<rparr>) = futex_ok v" for v z
    by (simp add: futex_ok_def parked_on_def proc_at_def)
  ultimately show ?thesis using assms
    unfolding wake_expired_sleepers_def acc_def[symmetric] Let_def by (cases acc) simp
qed

lemma runs_at: "runs s me \<Longrightarrow> \<exists>p. proc_at s me = Some p \<and> pstate p = Running"
  by (auto simp: runs_def split: option.splits)

lemma block_sleep_at: "proc_at (block_sleep me d s) i = Some p \<Longrightarrow> pstate p = Blocked (IoReady t) \<Longrightarrow> proc_at s i = Some p"
  by (auto simp: block_sleep_def split: option.splits if_splits)

lemma futex_wait_at:
  "futex_wait_locked me a c v d s = (b, s2) \<Longrightarrow> proc_at s2 i = Some p \<Longrightarrow> pstate p = Blocked (IoReady t) \<Longrightarrow> proc_at s i = Some p"
  by (auto simp: futex_wait_locked_def Let_def split: option.splits if_splits)

lemma futex_wake_at:
  assumes "wake_futex_waiters a c s = (n, s2)" "proc_at s2 i = Some p" "pstate p = Blocked (IoReady t)"
  shows "proc_at s i = Some p"
proof -
  have "fold (futex_wake_one a c) (pid_list (futex_waiters s ! futex_bucket a)) (0, s) = (n, s2)"
    using assms(1) by (simp add: wake_futex_fold)
  from futex_fold[OF distinct_pid_list _ this] have
    "proc_at s2 i = map_option unparked (proc_at s i) \<or> proc_at s2 i = proc_at s i" by (auto split: if_splits)
  with assms(2,3) show ?thesis by (cases "proc_at s i") (auto simp: unparked_def)
qed

lemma after_sweep_io: "pstate (after_sweep now p) = Blocked (IoReady t) \<Longrightarrow> after_sweep now p = p"
  by (auto simp: after_sweep_def expired_def split: option.splits if_splits process_state.splits block_reason.splits)

lemma wake_expired_parked:
  assumes "timers_ok s" "parked_io t (wake_expired_sleepers now s) i"
  shows "parked_io t s i"
proof -
  obtain p where p: "proc_at s i = Some p" "pstate (after_sweep now p) = Blocked (IoReady t)"
    using assms by (auto simp: parked_io_def wake_expired_spec split: option.splits)
  then show ?thesis using after_sweep_io[OF p(2)] by (simp add: parked_io_def)
qed

lemma publish_inv:
  assumes inv: "ready_inv r" and f: "(t, i, add) \<in> set (found r)"
  shows "ready_inv (r\<lparr>sources := fetch_or i add (sources r), found := remove1 (t, i, add) (found r), wakes := t # wakes r\<rparr>)"
proof -
  have i: "t \<noteq> 0" "i < length (sources r)" "fst (sources r ! i) = t" and ok: "sources_ok (sources r)"
    using inv f by (auto simp: ready_inv_def found_ok_def)
  let ?ss = "fetch_or i add (sources r)"
  note su = slot_mask_update[OF ok i(2) refl, where m = "snd (sources r ! i) OR add", folded fetch_or_def]
  have fst: "fst (?ss ! j) = fst (sources r ! j)" for j
    using i(2) by (cases "j = i") (simp_all add: fetch_or_def)
  have "u \<in> set (t # wakes r)" if "u \<noteq> 0" "parked_io u (rsched r) me" "ready_mask u ?ss AND wants r me \<noteq> 0" for u me
  proof (cases "u = t")
    case False
    then have "ready_mask u ?ss = ready_mask u (sources r)" using su(2)[OF that(1)] i(3) by simp
    then show ?thesis using ready_invD(5)[OF inv that(1,2)] that(3) by simp
  qed simp
  moreover have "length ?ss = length (sources r)" by (simp add: fetch_or_def)
  moreover have "v \<noteq> 0 \<and> j < length (sources r) \<and> fst (sources r ! j) = v"
    if "(v, j, a) \<in> set (remove1 (t, i, add) (found r))" for v j a
    using that set_remove1_subset ready_invD(4)[OF inv, of v j a] by fast
  ultimately show ?thesis using ready_invD(2,3)[OF inv] su(1) fst by (intro ready_invI) simp_all
qed

lemma scan_inv:
  assumes inv: "ready_inv r"
  shows "ready_inv (r\<lparr>rsched := wake_token t (rsched r), wakes := remove1 t (wakes r)\<rparr>)"
proof -
  have gone: "\<not> parked_io t (wake_token t (rsched r)) me" for me
    by (auto simp: parked_io_def wake_token_at unparked_def split: option.splits if_splits)
  have before: "parked_io u (rsched r) me" if "parked_io u (wake_token t (rsched r)) me" for u me
    using that by (auto simp: parked_io_def wake_token_at unparked_def split: option.splits if_splits)
  have "u \<in> set (remove1 t (wakes r))" if "u \<noteq> 0" "parked_io u (wake_token t (rsched r)) me"
      "ready_mask u (sources r) AND wants r me \<noteq> 0" for u me
  proof -
    have "u \<noteq> t" using that gone by auto
    moreover have "u \<in> set (wakes r)" using ready_invD(5)[OF inv that(1) before[OF that(2)] that(3)] .
    ultimately show ?thesis by (simp add: in_set_remove1)
  qed
  then show ?thesis using ready_invD[OF inv] by (intro ready_invI) (simp_all add: wake_token_timers wake_token_futex_ok)
qed

lemma wait_inv:
  assumes inv: "ready_inv r" and run: "runs (rsched r) me" and m: "ready_mask t (sources r) AND want = 0"
  shows "ready_inv (r\<lparr>rsched := park_ready me t d (rsched r), wants := (wants r)(me := want)\<rparr>)"
proof -
  let ?s = "park_ready me t d (rsched r)"
  have at: "\<exists>q. proc_at ?s me = Some q \<and> pstate q = Blocked (IoReady t)" "j \<noteq> me \<Longrightarrow> proc_at ?s j = proc_at (rsched r) j" for j
    using runs_at[OF run] by (auto simp: park_ready_def dest: proc_at_some)
  have "u \<in> set (wakes r)" if "u \<noteq> 0" "parked_io u ?s j" "ready_mask u (sources r) AND ((wants r)(me := want)) j \<noteq> 0" for u j
  proof (cases "j = me")
    case True
    then have "u = t" using that(2) at(1) by (auto simp: parked_io_def)
    with True that(3) m show ?thesis by simp
  next
    case False
    then have "parked_io u (rsched r) j" "ready_mask u (sources r) AND wants r j \<noteq> 0"
      using that at(2) by (simp_all add: parked_io_def)
    then show ?thesis using ready_invD(5)[OF inv that(1)] by blast
  qed
  then show ?thesis using ready_invD[OF inv] park_ready_timers[OF _ run] park_ready_futex_ok
    by (intro ready_invI) simp_all
qed

lemma resume_inv:
  assumes inv: "ready_inv r" and run: "runs (rsched r) me" and res: "wait_ready_resume me r = (x, r1)"
  shows "ready_inv r1"
proof -
  obtain p where p: "proc_at (rsched r) me = Some p" "pstate p = Running" "futex_deadline p = 0"
    using runs_untimed[OF ready_invD(2)[OF inv] run] .
  let ?s = "put_proc me (p\<lparr>futex_timed_out := False\<rparr>) (rsched r)"
  have "ready_inv (r\<lparr>rsched := ?s\<rparr>)"
  proof (rule inv_sched[OF inv])
    show "timers_ok ?s"
      by (rule timers_put[OF ready_invD(2)[OF inv] p(1), where q = "p\<lparr>futex_timed_out := False\<rparr>"])
        (use p in \<open>auto simp: timer_defs\<close>)
    show "futex_ok ?s" using ready_invD(3)[OF inv] p by (intro put_futex_ok) (auto simp: futex_ok_def)
    show "parked_io t ?s j \<Longrightarrow> parked_io t (rsched r) j" for t j
      using p by (auto simp: parked_io_def split: if_splits)
  qed
  then show ?thesis using res inv p by (auto simp: wait_ready_resume_def split: if_splits)
qed

lemma dispatch_inv:
  assumes inv: "ready_inv r" and p: "proc_at (rsched r) me = Some p" "pstate p \<in> {Ready, Running}" "st \<in> {Ready, Running}"
  shows "ready_inv (r\<lparr>rsched := put_proc me (p\<lparr>pstate := st\<rparr>) (rsched r)\<rparr>)"
proof (rule inv_sched[OF inv])
  have t: "timers_ok (rsched r)" and f: "futex_ok (rsched r)" using inv by (simp_all add: ready_inv_def)
  have z: "futex_deadline p = 0" using t p by (fastforce simp: timers_ok_def waits_timed_def)
  show "timers_ok (put_proc me (p\<lparr>pstate := st\<rparr>) (rsched r))"
    by (rule timers_put[OF t p(1), where q = "p\<lparr>pstate := st\<rparr>"]) (use p z in \<open>auto simp: timer_defs\<close>)
  show "futex_ok (put_proc me (p\<lparr>pstate := st\<rparr>) (rsched r))"
    using f p by (intro put_futex_ok) (auto simp: futex_ok_def)
  show "parked_io t (put_proc me (p\<lparr>pstate := st\<rparr>) (rsched r)) j \<Longrightarrow> parked_io t (rsched r) j" for t j
    using p by (auto simp: parked_io_def split: if_splits)
qed

lemma ready_step_inv:
  assumes "ready_step r r2" "ready_inv r"
  shows "ready_inv r2"
  using assms
proof (cases rule: ready_step.cases)
  case (lookup t i ss add)
  have ok: "sources_ok (sources r)" using assms(2) by (simp add: ready_inv_def)
  note sp = slot_for_spec[OF ok lookup(2,3)]
  have "ready_inv (r\<lparr>sources := ss\<rparr>)" by (rule inv_sources[OF assms(2) sp(1)]) (use sp in auto)
  note D = ready_invD[OF this]
  show ?thesis unfolding lookup(1) by (rule ready_invI) (use D sp(3)[of i] lookup(2) in auto)
next
  case (lookup_full t ss)
  have ok: "sources_ok (sources r)" using assms(2) by (simp add: ready_inv_def)
  note sp = slot_for_spec[OF ok lookup_full(2,3)]
  show ?thesis unfolding lookup_full(1) by (rule inv_sources[OF assms(2) sp(1)]) (use sp in auto)
next
  case (reg t x ss)
  have ok: "sources_ok (sources r)" using assms(2) by (simp add: ready_inv_def)
  note sp = slot_for_spec[OF ok reg(2,3)]
  show ?thesis unfolding reg(1) by (rule inv_sources[OF assms(2) sp(1)]) (use sp in auto)
next
  case (publish t i add)
  then show ?thesis using publish_inv[OF assms(2)] by simp
next
  case (scan t)
  then show ?thesis using scan_inv[OF assms(2)] by simp
next
  case (clear t sub)
  have ok: "sources_ok (sources r)" using assms(2) by (simp add: ready_inv_def)
  show ?thesis
  proof (cases "find_src t (sources r)")
    case None
    then show ?thesis using assms(2) clear(1) by (simp add: clear_ready_def)
  next
    case (Some i)
    note i = find_src_Some[OF Some]
    note su = slot_mask_update[OF ok i(1) refl, where m = "snd (sources r ! i) AND NOT sub"]
    have "ready_inv (r\<lparr>sources := (sources r)[i := (fst (sources r ! i), snd (sources r ! i) AND NOT sub)]\<rparr>)"
    proof (rule inv_sources[OF assms(2) su(1)])
      fix u :: u64 assume u: "u \<noteq> 0"
      show "ready_mask u ((sources r)[i := (fst (sources r ! i), snd (sources r ! i) AND NOT sub)]) AND NOT (ready_mask u (sources r)) = 0"
        using su(2)[OF u] ready_mask_eq[OF ok u i(1)] by (auto simp: and.assoc intro!: bit_word_eqI simp: bit_and_iff bit_not_iff)
      show "fst ((sources r)[i := (fst (sources r ! i), snd (sources r ! i) AND NOT sub)] ! j) = fst (sources r ! j)"
        if "j < length (sources r)" for j using that by (cases "j = i") simp_all
    qed simp
    then show ?thesis by (simp add: clear(1) clear_ready_def Some)
  qed
next
  case (wait t me want deadline r1)
  then have "ready_mask t (sources r) AND want = 0" "r1 = r\<lparr>rsched := park_ready me t deadline (rsched r)\<rparr>"
    by (auto simp: wait_ready_turn_def Let_def split: if_splits)
  then show ?thesis using wait_inv[OF assms(2) wait(3)] wait(1) by simp
next
  case (resume me x)
  then show ?thesis using resume_inv[OF assms(2)] by simp
next
  case (sleep me deadline)
  show ?thesis unfolding sleep(1)
    by (rule inv_sched[OF assms(2)])
      (use assms(2) sleep(2) in \<open>auto simp: ready_inv_def intro: block_sleep_timers block_sleep_futex_ok parked_ioI block_sleep_at\<close>)
next
  case (futex_wait me addr cur val deadline parks s)
  show ?thesis unfolding futex_wait(1)
    by (rule inv_sched[OF assms(2)])
      (use assms(2) futex_wait(2,3) in \<open>auto simp: ready_inv_def intro: futex_wait_timers futex_wait_ok parked_ioI futex_wait_at\<close>)
next
  case (futex_wake addr count n s)
  have ok: "timers_ok (rsched r)" "futex_ok (rsched r)" using assms(2) by (simp_all add: ready_inv_def)
  have "fold (futex_wake_one addr count) (pid_list (futex_waiters (rsched r) ! futex_bucket addr)) (0, rsched r) = (n, s)"
    using futex_wake(2) by (simp add: wake_futex_fold)
  from futex_fold_ok[OF this ok(2,1)] show ?thesis unfolding futex_wake(1)
    by (intro inv_sched[OF assms(2)]) (auto intro: parked_ioI futex_wake_at[OF futex_wake(2)])
next
  case (tick now)
  have ok: "timers_ok (rsched r)" "futex_ok (rsched r)" using assms(2) by (simp_all add: ready_inv_def)
  show ?thesis unfolding tick
    by (rule inv_sched[OF assms(2)])
      (auto simp: ok wake_expired_spec wake_expired_futex_ok intro: wake_expired_parked)
next
  case (dispatch me p st)
  then show ?thesis using dispatch_inv[OF assms(2)] by simp
qed

lemma sources_new_ok [simp]: "sources_ok sources_new" "ready_mask t sources_new = 0"
  "t \<noteq> 0 \<Longrightarrow> find_src t sources_new = None" "find_src 0 sources_new = Some 0"
  by (auto simp: sources_ok_def sources_new_def ready_mask_def find_src_def Let_def takeWhile_replicate)

lemma ready_steps_inv: "ready_step\<^sup>*\<^sup>* r r2 \<Longrightarrow> ready_inv r \<Longrightarrow> ready_inv r2"
  by (induction rule: rtranclp_induct) (auto intro: ready_step_inv)

text \<open>C5: No wake-up is lost. Whatever order the cores take their steps in, in every state
  reached from an empty readiness table a thread that is parked on a token although one of
  the bits it waits for is set has a wake scan for that token still to come, and that scan
  makes it ready. So a waiter that checks the mask under the table lock before it parks,
  against a waker that publishes its bits before it takes the lock, never sleeps through
  its event; the timers stay consistent throughout.\<close>

theorem no_wakeup_is_lost:
  assumes "sources r0 = sources_new" "found r0 = []" "wakes r0 = []" "timers_ok (rsched r0)" "futex_ok (rsched r0)"
    and "ready_step\<^sup>*\<^sup>* r0 r" "t \<noteq> 0" "parked_io t (rsched r) me" "ready_mask t (sources r) AND wants r me \<noteq> 0"
  shows "t \<in> set (wakes r) \<and>
     ready_step r (r\<lparr>rsched := wake_token t (rsched r), wakes := remove1 t (wakes r)\<rparr>) \<and>
     (\<exists>p. proc_at (wake_token t (rsched r)) me = Some p \<and> pstate p = Ready) \<and>
     timers_ok (rsched r)"
proof -
  have "ready_inv r0" by (rule ready_invI) (use assms(1-5) in simp_all)
  then have inv: "ready_inv r" by (rule ready_steps_inv[OF assms(6)])
  have t: "t \<in> set (wakes r)" by (rule ready_invD(5)[OF inv assms(7-9)])
  moreover have "\<exists>p. proc_at (wake_token t (rsched r)) me = Some p \<and> pstate p = Ready"
    using assms(8) by (auto simp: parked_io_def wake_token_at unparked_def split: option.splits)
  ultimately show ?thesis using ready_invD(2)[OF inv] scan[of t r] by simp
qed

definition demo_start :: ready_sys where
  "demo_start = \<lparr>sources = sources_new, rsched = demo_one, found = [], wakes = [], wants = \<lambda>i. 0\<rparr>"

definition demo_waiting :: ready_sys where
  "demo_waiting = demo_start\<lparr>rsched := park_ready 1 (pipe_token 3) 0 demo_one, wants := (\<lambda>i. 0)(1 := EPOLLIN)\<rparr>"

definition demo_found :: ready_sys where
  "demo_found = demo_waiting\<lparr>sources := sources_new[0 := (pipe_token 3, 0)], found := [(pipe_token 3, 0, EPOLLIN)]\<rparr>"

definition demo_out :: ready_sys where
  "demo_out = demo_found\<lparr>sources := fetch_or 0 EPOLLIN (sources_new[0 := (pipe_token 3, 0)]), found := [],
     wakes := [pipe_token 3]\<rparr>"

lemma demo_ready_steps: "ready_step\<^sup>*\<^sup>* demo_start demo_out"
proof -
  have "ready_step demo_start demo_waiting" unfolding demo_waiting_def
    using wait[of "pipe_token 3" demo_start 1 EPOLLIN 0] demo_one_ok(3) by (simp add: demo_start_def wait_ready_turn_def)
  moreover have "ready_step demo_waiting demo_found" unfolding demo_found_def
    using lookup[of "pipe_token 3" demo_waiting 0 "sources_new[0 := (pipe_token 3, 0)]" EPOLLIN]
    by (simp add: demo_waiting_def demo_start_def slot_for_def register_def)
  moreover have "ready_step demo_found demo_out" unfolding demo_out_def
    using publish[of "pipe_token 3" 0 EPOLLIN demo_found] by (simp add: demo_found_def demo_waiting_def demo_start_def)
  ultimately show ?thesis by (meson converse_rtranclp_into_rtranclp r_into_rtranclp)
qed

lemma demo_out_parked:
  "parked_io (pipe_token 3) (rsched demo_out) 1" "ready_mask (pipe_token 3) (sources demo_out) AND wants demo_out 1 \<noteq> 0"
proof -
  have l: "length (process_table sched_new) = 256" by (simp add: sched_new_def)
  show "parked_io (pipe_token 3) (rsched demo_out) 1"
    by (simp add: parked_io_def demo_out_def demo_found_def demo_waiting_def park_ready_def demo_one_def l)
  have n: "0 < length sources_new" "snd (sources_new ! 0) = 0" by (simp_all add: sources_new_def)
  have "find_src (pipe_token 3) (fetch_or 0 EPOLLIN (sources_new[0 := (pipe_token 3, 0)])) = Some 0"
    using n by (simp add: fetch_or_def find_src_def Let_def) (simp add: sources_new_def numeral_eq_Suc)
  then show "ready_mask (pipe_token 3) (sources demo_out) AND wants demo_out 1 \<noteq> 0"
    using n by (simp add: ready_mask_def demo_out_def demo_found_def demo_waiting_def fetch_or_def EPOLLIN_def)
qed

theorem no_wakeup_is_lost_witness:
  "ready_step\<^sup>*\<^sup>* demo_start demo_out \<and> parked_io (pipe_token 3) (rsched demo_out) 1 \<and>
   (\<exists>p. proc_at (wake_token (pipe_token 3) (rsched demo_out)) 1 = Some p \<and> pstate p = Ready)"
  using no_wakeup_is_lost[of demo_start demo_out "pipe_token 3" 1] demo_ready_steps demo_out_parked demo_one_ok(1,2)
  by (simp add: demo_start_def)
end
