(* ===== verification/Kernel_Ring.thy ===== *)
theory Kernel_Ring
  imports Prelude
begin

text \<open>
  Ring buffers of the kernel. The pipe buffers (\<open>morpheus-kernel/src/pipe.rs\<close>) and the
  keyboard ring (\<open>morpheus-kernel/src/stdin.rs\<close>) keep one slot free and advance two
  indices modulo a power of two. This theory has the arithmetic of such rings once,
  for every size: \<open>ring_contents\<close> is the queue a buffer and its two indices hold, and
  \<open>ring_push\<close> and \<open>ring_pop\<close> say that storing at the head appends and advancing the
  tail removes the oldest element. The locale \<open>byte_queue\<close> is the contract a client of
  such a buffer relies on; it is interpreted for pipes and for the keyboard ring.
\<close>

section \<open>Positions of a ring\<close>

definition ring_contents :: "nat \<Rightarrow> 'a list \<Rightarrow> nat \<Rightarrow> nat \<Rightarrow> 'a list" where
  "ring_contents n buf head tail = map (\<lambda>i. buf ! ((tail + i) mod n)) [0..<(head + n - tail) mod n]"

definition ring_ok :: "nat \<Rightarrow> 'a list \<Rightarrow> nat \<Rightarrow> nat \<Rightarrow> bool" where
  "ring_ok n buf head tail \<longleftrightarrow> 0 < n \<and> length buf = n \<and> head < n \<and> tail < n"

lemma ring_used: "head < n \<Longrightarrow> tail < n \<Longrightarrow>
    (head + n - tail) mod n = (if tail \<le> head then head - tail else head + n - tail)" for head tail n :: nat
proof (cases "tail \<le> head")
  case True
  assume "head < n" "tail < n"
  moreover have "head + n - tail = (head - tail) + n" using True by simp
  ultimately show ?thesis using True by (simp only: mod_add_self2) simp
qed simp

lemma length_ring_contents: "length (ring_contents n buf head tail) = (head + n - tail) mod n"
  by (simp add: ring_contents_def)

lemma ring_contents_less: "ring_ok n buf head tail \<Longrightarrow> length (ring_contents n buf head tail) < n"
  by (simp add: ring_contents_def ring_ok_def)

lemma ring_empty_iff: "ring_ok n buf head tail \<Longrightarrow> ring_contents n buf head tail = [] \<longleftrightarrow> tail = head"
  by (auto simp: ring_contents_def ring_ok_def ring_used split: if_splits)

lemma ring_full_iff:
  "ring_ok n buf head tail \<Longrightarrow>
   length (ring_contents n buf head tail) = n - 1 \<longleftrightarrow> (head + 1) mod n = tail"
  by (cases "head + 1 = n") (auto simp: length_ring_contents ring_ok_def ring_used)

lemma ring_succ_used:
  assumes "head < (n::nat)" "tail < n" "(head + 1) mod n \<noteq> tail"
  shows "((head + 1) mod n + n - tail) mod n = (head + n - tail) mod n + 1"
proof (cases "head + 1 = n")
  case True
  then have "(head + 1) mod n = 0" by simp
  with assms True show ?thesis by (auto simp: ring_used)
next
  case False
  with assms(1) have lt: "head + 1 < n" by simp
  then have "(head + 1) mod n = head + 1" by simp
  then show ?thesis using assms(2,3) ring_used[OF assms(1,2)] ring_used[OF lt assms(2)] by auto
qed

lemma ring_pos_used: "head < n \<Longrightarrow> tail < n \<Longrightarrow> (tail + (head + n - tail) mod n) mod n = head" for head tail n :: nat
  by (auto simp: ring_used)

lemma ring_pos_inj:
  assumes "(tail + i) mod n = (tail + j) mod n" "i < n" "j < (n::nat)"
  shows "i = j"
proof -
  have "(int tail + int i) mod int n = (int tail + int j) mod int n"
    using arg_cong[OF assms(1), of int] by (simp add: of_nat_mod)
  then have "int i mod int n = int j mod int n"
    by (simp add: mod_eq_dvd_iff)
  with assms(2,3) show ?thesis by simp
qed

lemma ring_push:
  assumes "ring_ok n buf head tail" "(head + 1) mod n \<noteq> tail"
  shows "ring_contents n (buf[head := b]) ((head + 1) mod n) tail = ring_contents n buf head tail @ [b]"
    and "ring_ok n (buf[head := b]) ((head + 1) mod n) tail"
proof -
  let ?k = "(head + n - tail) mod n"
  from assms have h: "head < n" "tail < n" "length buf = n" by (auto simp: ring_ok_def)
  have k: "?k < n" using h by simp
  have pos: "(tail + ?k) mod n = head" using h by (simp add: ring_pos_used)
  have old: "buf[head := b] ! ((tail + i) mod n) = buf ! ((tail + i) mod n)" if "i < ?k" for i
    using ring_pos_inj[of tail i n ?k] that k pos by (cases "(tail + i) mod n = head") auto
  show "ring_contents n (buf[head := b]) ((head + 1) mod n) tail = ring_contents n buf head tail @ [b]"
    unfolding ring_contents_def ring_succ_used[OF h(1,2) assms(2)]
    using h pos by (simp add: old)
  show "ring_ok n (buf[head := b]) ((head + 1) mod n) tail"
    using assms h by (auto simp: ring_ok_def)
qed

lemma ring_pop:
  assumes "ring_ok n buf head tail" "tail \<noteq> head"
  shows "ring_contents n buf head tail = buf ! tail # ring_contents n buf head ((tail + 1) mod n)"
    and "ring_ok n buf head ((tail + 1) mod n)"
proof -
  let ?t = "(tail + 1) mod n"
  from assms have h: "head < n" "tail < n" "length buf = n" by (auto simp: ring_ok_def)
  have u: "(head + n - tail) mod n = Suc ((head + n - ?t) mod n)"
    using h assms(2) by (cases "tail + 1 = n") (auto simp: ring_used)
  show "ring_contents n buf head tail = buf ! tail # ring_contents n buf head ?t"
    unfolding ring_contents_def u map_upt_Suc using h by (simp add: mod_simps)
  show "ring_ok n buf head ?t" using assms h by (auto simp: ring_ok_def)
qed

text \<open>Masking with a power of two less one, as the sources advance their indices, and the
  fill level they compute with a wrapping subtraction.\<close>

lemma and_mask_mod: "x AND (2 ^ k - 1) = x mod 2 ^ k" for x :: nat
proof -
  have "x AND (2 ^ k - 1) = x AND mask k" by (simp only: mask_eq_exp_minus_1)
  then show ?thesis by (simp only: take_bit_eq_mask[symmetric] take_bit_eq_mod)
qed

lemma wrapping_level:
  assumes "head < n" "tail < n" "n = 2 ^ k" "k \<le> 64"
  shows "((head + U64 - tail) mod U64) mod n = (head + n - tail) mod n"
proof -
  have d: "n dvd U64" using assms(3,4) le_imp_power_dvd[of k 64 2] by simp
  then obtain q where q: "U64 = n * q" by (rule dvdE)
  have "q \<noteq> 0" using q by (cases q) auto
  then have "U64 = n + n * (q - 1)" using q by (cases q) auto
  then have "head + U64 - tail = (head + n - tail) + n * (q - 1)" using assms(1,2) by simp
  then show ?thesis using d by (simp add: mod_mod_cancel)
qed

section \<open>The contract of a bounded byte queue\<close>

locale byte_queue =
  fixes cap :: nat
    and ok :: "'s \<Rightarrow> bool"
    and contents :: "'s \<Rightarrow> bytes"
    and put :: "'s \<Rightarrow> u8 \<Rightarrow> bool \<times> 's"
    and get :: "'s \<Rightarrow> (u8 \<times> 's) option"
    and fill :: "bytes \<Rightarrow> nat \<Rightarrow> 's \<Rightarrow> nat \<times> bytes \<times> 's"
  assumes bounded: "ok s \<Longrightarrow> length (contents s) \<le> cap"
    and put_full: "ok s \<Longrightarrow> length (contents s) = cap \<Longrightarrow> put s b = (False, s)"
    and put_room: "ok s \<Longrightarrow> length (contents s) < cap \<Longrightarrow>
          \<exists>t. put s b = (True, t) \<and> ok t \<and> contents t = contents s @ [b]"
    and get_empty: "ok s \<Longrightarrow> contents s = [] \<Longrightarrow> get s = None"
    and get_next: "ok s \<Longrightarrow> contents s = b # bs \<Longrightarrow> \<exists>t. get s = Some (b, t) \<and> ok t \<and> contents t = bs"
    and fill_step: "fill buf count s =
          (if count < length buf
           then case get s of None \<Rightarrow> (count, buf, s)
                | Some (b, t) \<Rightarrow> fill (buf[count := b]) (count + 1) t
           else (count, buf, s))"
begin

lemma put_cases:
  assumes "ok s"
  obtains "length (contents s) = cap" "put s b = (False, s)"
  | t where "length (contents s) < cap" "put s b = (True, t)" "ok t" "contents t = contents s @ [b]"
  using bounded[OF assms] put_full[OF assms] put_room[OF assms, of b] by (metis le_neq_implies_less)

lemma fill_drains:
  assumes "ok s" "count \<le> length buf"
  defines "k \<equiv> min (length buf - count) (length (contents s))"
  shows "\<exists>t. fill buf count s = (count + k, take count buf @ take k (contents s) @ drop (count + k) buf, t)
     \<and> ok t \<and> contents t = drop k (contents s)"
  using assms(1,2) unfolding k_def
proof (induction "length buf - count" arbitrary: s count buf)
  case 0
  then show ?case by (subst fill_step) auto
next
  case (Suc m)
  show ?case
  proof (cases "contents s")
    case Nil
    with Suc.prems show ?thesis by (subst fill_step) (auto simp: get_empty)
  next
    case (Cons b bs)
    then obtain t where t: "get s = Some (b, t)" "ok t" "contents t = bs" using get_next Suc.prems by blast
    have lt: "count < length buf" using Suc.hyps(2) by simp
    let ?buf = "buf[count := b]"
    let ?k = "min (length ?buf - (count + 1)) (length bs)"
    have "\<exists>u. fill ?buf (count + 1) t =
        (count + 1 + ?k, take (count + 1) ?buf @ take ?k (contents t) @ drop (count + 1 + ?k) ?buf, u)
       \<and> ok u \<and> contents u = drop ?k (contents t)"
      using Suc.hyps(1)[of ?buf "count + 1" t] Suc.hyps(2) t lt by simp
    moreover have "fill buf count s = fill ?buf (count + 1) t"
      using lt t by (subst fill_step) simp
    moreover have "min (length buf - count) (length (contents s)) = Suc ?k"
      using lt Cons by simp
    moreover have "take (count + 1) ?buf = take count buf @ [b]"
      using lt by (simp add: take_Suc_conv_app_nth)
    ultimately show ?thesis using Cons t(3) lt by simp
  qed
qed

end

text \<open>The buffers whose producer stores a whole slice: it stops at the first byte that does
  not fit.\<close>

locale byte_stream = byte_queue +
  fixes feed :: "bytes \<Rightarrow> 's \<Rightarrow> nat \<times> 's"
  assumes feed_nil: "feed [] s = (0, s)"
    and feed_cons: "feed (b # bs) s = (case put s b of (False, t) \<Rightarrow> (0, s) | (True, t) \<Rightarrow> (case feed bs t of (n, u) \<Rightarrow> (n + 1, u)))"
begin

lemma feed_appends:
  assumes "ok s"
  shows "\<exists>t. feed bs s = (min (length bs) (cap - length (contents s)), t) \<and> ok t \<and>
           contents t = contents s @ take (cap - length (contents s)) bs"
  using assms
proof (induction bs arbitrary: s)
  case Nil
  then show ?case by (simp add: feed_nil)
next
  case (Cons b bs)
  show ?case
    using Cons.prems
  proof (cases rule: put_cases[of s b])
    case 1
    then show ?thesis using Cons.prems by (simp add: feed_cons)
  next
    case (2 t)
    then have room: "cap - length (contents s) = Suc (cap - length (contents t))" by simp
    from Cons.IH[OF 2(3)] obtain u where "feed bs t = (min (length bs) (cap - length (contents t)), u)" "ok u"
      "contents u = contents t @ take (cap - length (contents t)) bs" by blast
    then show ?thesis using 2 room by (simp add: feed_cons)
  qed
qed

end

end
