(* ===== verification/Kernel_Pipe.thy ===== *)
theory Kernel_Pipe
  imports Kernel_Readiness Kernel_Ring
begin

text \<open>
  Kernel pipes, \<open>morpheus-kernel/src/pipe.rs\<close>: the ring of one pipe, the table of sixteen pipes
  with their reference counts, the publication of a pipe's level on its readiness token, and
  the two paths of the system calls that sit on them, \<open>sys_write\<close> on a pipe descriptor
  (\<open>syscall/handler/core.rs\<close>) and the blocking read (\<open>syscall/handler/ipc.rs\<close>). A call is cut
  where its lock is released: \<open>pipe_read_locked\<close> and \<open>pipe_write_locked\<close> are the sections under
  \<open>PIPE_LOCK\<close>, \<open>publish_levels\<close> is what follows.

  A pipe is an instance of the locales of \<open>Kernel_Ring\<close> (interpretations \<open>pq\<close> and \<open>ps\<close>), and
  every sequence of calls on the table keeps the bytes in order. A call run on its own leaves
  the mask in step with the level; the last three properties are schedules of two cores, or
  of a close and an allocation, in which the mask or the waiter set goes wrong.
\<close>

section \<open>One pipe\<close>

abbreviation MAX_PIPES :: nat where "MAX_PIPES \<equiv> 16"

abbreviation PIPE_BUF_SIZE :: nat where "PIPE_BUF_SIZE \<equiv> 4096"

abbreviation PIPE_BUF_MASK :: nat where "PIPE_BUF_MASK \<equiv> PIPE_BUF_SIZE - 1"

record pipe =
  pbuf :: bytes
  head :: nat
  tail :: nat
  readers :: u8
  writers :: u8
  active :: bool

definition pipe_empty :: pipe where
  "pipe_empty = \<lparr>pbuf = replicate PIPE_BUF_SIZE 0, head = 0, tail = 0, readers = 0, writers = 0, active = False\<rparr>"

definition available_read :: "pipe \<Rightarrow> nat" where
  "available_read p = ((head p + U64 - tail p) mod U64) AND PIPE_BUF_MASK"

definition available_write :: "pipe \<Rightarrow> nat" where
  "available_write p = PIPE_BUF_SIZE - 1 - available_read p"

text \<open>The bodies of the two loops: storing one byte, unless the ring is full, and taking one,
  unless it is empty.\<close>

definition pipe_put :: "pipe \<Rightarrow> u8 \<Rightarrow> bool \<times> pipe" where
  "pipe_put p byte =
     (let nxt = (head p + 1) AND PIPE_BUF_MASK in
      if nxt = tail p then (False, p)
      else (True, p\<lparr>pbuf := (pbuf p)[head p := byte], head := nxt\<rparr>))"

fun pipe_wr :: "bytes \<Rightarrow> pipe \<Rightarrow> nat \<times> pipe" where
  "pipe_wr [] p = (0, p)"
| "pipe_wr (byte # data) p =
     (case pipe_put p byte of
        (False, q) \<Rightarrow> (0, p)
      | (True, q) \<Rightarrow> (case pipe_wr data q of (n, r) \<Rightarrow> (n + 1, r)))"

definition pipe_get :: "pipe \<Rightarrow> (u8 \<times> pipe) option" where
  "pipe_get p =
     (if tail p = head p then None
      else Some (pbuf p ! tail p, p\<lparr>tail := (tail p + 1) AND PIPE_BUF_MASK\<rparr>))"

function pipe_rd :: "bytes \<Rightarrow> nat \<Rightarrow> pipe \<Rightarrow> nat \<times> bytes \<times> pipe" where
  "pipe_rd buf count p =
     (if count < length buf
      then case pipe_get p of
             None \<Rightarrow> (count, buf, p)
           | Some (b, q) \<Rightarrow> pipe_rd (buf[count := b]) (count + 1) q
      else (count, buf, p))"
  by pat_completeness auto
termination by (relation "measure (\<lambda>(buf, count, p). length buf - count)") auto

declare pipe_rd.simps [simp del]

definition pipe_ok :: "pipe \<Rightarrow> bool" where
  "pipe_ok p \<longleftrightarrow> ring_ok PIPE_BUF_SIZE (pbuf p) (head p) (tail p)"

definition pipe_contents :: "pipe \<Rightarrow> bytes" where
  "pipe_contents p = ring_contents PIPE_BUF_SIZE (pbuf p) (head p) (tail p)"

lemma pipe_mask: "x AND 4095 = x mod PIPE_BUF_SIZE" for x :: nat
  using and_mask_mod[of x 12] by simp

interpretation pq: byte_queue PIPE_BUF_MASK pipe_ok pipe_contents pipe_put pipe_get pipe_rd
proof
  fix s :: pipe and b :: u8 and bs :: bytes and buf :: bytes and count :: nat
  assume ok: "pipe_ok s"
  note r = ok[unfolded pipe_ok_def]
  show "length (pipe_contents s) \<le> PIPE_BUF_MASK"
    using ring_contents_less[OF r] by (simp add: pipe_contents_def)
  show "pipe_put s b = (False, s)" if "length (pipe_contents s) = PIPE_BUF_MASK"
    using that ring_full_iff[OF r] by (simp add: pipe_put_def pipe_mask pipe_contents_def Let_def)
  show "\<exists>t. pipe_put s b = (True, t) \<and> pipe_ok t \<and> pipe_contents t = pipe_contents s @ [b]"
    if "length (pipe_contents s) < PIPE_BUF_MASK"
  proof -
    have "(head s + 1) mod PIPE_BUF_SIZE \<noteq> tail s" using that ring_full_iff[OF r] by (simp add: pipe_contents_def)
    from ring_push[OF r this, of b] this show ?thesis
      by (simp add: pipe_put_def pipe_mask pipe_ok_def pipe_contents_def Let_def)
  qed
  show "pipe_get s = None" if "pipe_contents s = []"
    using that ring_empty_iff[OF r] by (simp add: pipe_get_def pipe_contents_def)
  show "\<exists>t. pipe_get s = Some (b, t) \<and> pipe_ok t \<and> pipe_contents t = bs" if "pipe_contents s = b # bs"
  proof -
    have "tail s \<noteq> head s" using that ring_empty_iff[OF r] by (auto simp: pipe_contents_def)
    from ring_pop[OF r this] this that show ?thesis
      by (simp add: pipe_get_def pipe_mask pipe_ok_def pipe_contents_def)
  qed
next
  show "pipe_rd buf count s = (if count < length buf then case pipe_get s of None \<Rightarrow> (count, buf, s)
      | Some (b, t) \<Rightarrow> pipe_rd (buf[count := b]) (count + 1) t else (count, buf, s))" for buf count s
    by (rule pipe_rd.simps)
qed

interpretation ps: byte_stream PIPE_BUF_MASK pipe_ok pipe_contents pipe_put pipe_get pipe_rd pipe_wr
  by unfold_locales simp_all

lemma pipe_levels:
  assumes "pipe_ok p"
  shows "available_read p = length (pipe_contents p)" "available_write p = PIPE_BUF_MASK - length (pipe_contents p)"
proof -
  have "head p < PIPE_BUF_SIZE" "tail p < PIPE_BUF_SIZE" using assms by (auto simp: pipe_ok_def ring_ok_def)
  then have "((head p + U64 - tail p) mod U64) mod PIPE_BUF_SIZE = (head p + PIPE_BUF_SIZE - tail p) mod PIPE_BUF_SIZE"
    by (intro wrapping_level[where k = 12]) simp_all
  then show "available_read p = length (pipe_contents p)"
    unfolding available_read_def pipe_contents_def length_ring_contents
    using and_mask_mod[of "(head p + U64 - tail p) mod U64" 12] by (simp only: power_numeral_reduce flip: pipe_mask) simp
  then show "available_write p = PIPE_BUF_MASK - length (pipe_contents p)" by (simp add: available_write_def)
qed

section \<open>The table of pipes\<close>

record pipe_sys = ready_state +
  pipe_table :: "pipe list"

definition pipe_at :: "pipe_sys \<Rightarrow> u8 \<Rightarrow> pipe option" where
  "pipe_at s idx = (if unat idx < length (pipe_table s) then Some (pipe_table s ! unat idx) else None)"

definition put_pipe :: "u8 \<Rightarrow> pipe \<Rightarrow> pipe_sys \<Rightarrow> pipe_sys" where
  "put_pipe idx p s = s\<lparr>pipe_table := (pipe_table s)[unat idx := p]\<rparr>"

definition pipe_alloc :: "pipe_sys \<Rightarrow> u8 option \<times> pipe_sys" where
  "pipe_alloc s =
     (let i = length (takeWhile active (pipe_table s)) in
      if i < length (pipe_table s)
      then (Some (of_nat i),
            s\<lparr>pipe_table := (pipe_table s)[i := pipe_empty\<lparr>active := True, readers := 1, writers := 1\<rparr>]\<rparr>)
      else (None, s))"

definition publish_readiness :: "u8 \<Rightarrow> nat \<Rightarrow> nat \<Rightarrow> pipe_sys \<Rightarrow> pipe_sys" where
  "publish_readiness idx avail_read avail_write s =
     (let token = pipe_token idx;
          s1 = (if avail_read > 0 then set_ready token EPOLLIN s else clear_ready token EPOLLIN s)
      in if avail_write > 0 then set_ready token EPOLLOUT s1 else clear_ready token EPOLLOUT s1)"

text \<open>The section of a write and of a read under \<open>PIPE_LOCK\<close>: the count, the levels to publish
  once the lock is released, and the new table.\<close>

definition pipe_write_locked :: "u8 \<Rightarrow> bytes \<Rightarrow> pipe_sys \<Rightarrow> nat \<times> (nat \<times> nat) option \<times> pipe_sys" where
  "pipe_write_locked idx data s =
     (case pipe_at s idx of
        None \<Rightarrow> (0, None, s)
      | Some p \<Rightarrow>
          if \<not> active p then (0, None, s)
          else (case pipe_wr data p of
                  (n, q) \<Rightarrow> (n, Some (available_read q, available_write q), put_pipe idx q s)))"

definition pipe_read_locked :: "u8 \<Rightarrow> bytes \<Rightarrow> pipe_sys \<Rightarrow> nat \<times> bytes \<times> (nat \<times> nat) option \<times> pipe_sys" where
  "pipe_read_locked idx buf s =
     (case pipe_at s idx of
        None \<Rightarrow> (0, buf, None, s)
      | Some p \<Rightarrow>
          if \<not> active p then (0, buf, None, s)
          else (case pipe_rd buf 0 p of
                  (n, out, q) \<Rightarrow> (n, out, Some (available_read q, available_write q), put_pipe idx q s)))"

definition publish_levels :: "u8 \<Rightarrow> (nat \<times> nat) option \<Rightarrow> pipe_sys \<Rightarrow> pipe_sys" where
  "publish_levels idx levels s = (case levels of Some (ar, aw) \<Rightarrow> publish_readiness idx ar aw s | None \<Rightarrow> s)"

definition pipe_write :: "u8 \<Rightarrow> bytes \<Rightarrow> pipe_sys \<Rightarrow> nat \<times> pipe_sys" where
  "pipe_write idx data s =
     (case pipe_write_locked idx data s of (n, levels, s1) \<Rightarrow> (n, publish_levels idx levels s1))"

definition pipe_read :: "u8 \<Rightarrow> bytes \<Rightarrow> pipe_sys \<Rightarrow> nat \<times> bytes \<times> pipe_sys" where
  "pipe_read idx buf s =
     (case pipe_read_locked idx buf s of (n, out, levels, s1) \<Rightarrow> (n, out, publish_levels idx levels s1))"

definition pipe_writers :: "u8 \<Rightarrow> pipe_sys \<Rightarrow> u8" where
  "pipe_writers idx s = (case pipe_at s idx of Some p \<Rightarrow> writers p | None \<Rightarrow> 0)"

definition pipe_readers :: "u8 \<Rightarrow> pipe_sys \<Rightarrow> u8" where
  "pipe_readers idx s = (case pipe_at s idx of Some p \<Rightarrow> readers p | None \<Rightarrow> 0)"

definition pipe_available :: "u8 \<Rightarrow> pipe_sys \<Rightarrow> nat" where
  "pipe_available idx s =
     (case pipe_at s idx of Some p \<Rightarrow> if active p then available_read p else 0 | None \<Rightarrow> 0)"

definition pipe_close_reader :: "u8 \<Rightarrow> pipe_sys \<Rightarrow> pipe_sys" where
  "pipe_close_reader idx s =
     (case pipe_at s idx of
        None \<Rightarrow> s
      | Some p \<Rightarrow>
          let p1 = (if readers p > 0 then p\<lparr>readers := readers p - 1\<rparr> else p);
              p2 = (if readers p1 = 0 \<and> writers p1 = 0 then p1\<lparr>active := False\<rparr> else p1);
              s1 = put_pipe idx p2 s
          in if readers p1 = 0 then set_ready (pipe_token idx) (EPOLLERR OR EPOLLOUT) s1 else s1)"

definition pipe_close_writer :: "u8 \<Rightarrow> pipe_sys \<Rightarrow> pipe_sys" where
  "pipe_close_writer idx s =
     (case pipe_at s idx of
        None \<Rightarrow> s
      | Some p \<Rightarrow>
          let p1 = (if writers p > 0 then p\<lparr>writers := writers p - 1\<rparr> else p);
              p2 = (if readers p1 = 0 \<and> writers p1 = 0 then p1\<lparr>active := False\<rparr> else p1);
              s1 = put_pipe idx p2 s
          in if writers p1 = 0 then set_ready (pipe_token idx) (EPOLLHUP OR EPOLLIN) s1 else s1)"

definition saturating_inc :: "u8 \<Rightarrow> u8" where
  "saturating_inc n = (if n = 255 then 255 else n + 1)"

definition pipe_add_reader :: "u8 \<Rightarrow> pipe_sys \<Rightarrow> pipe_sys" where
  "pipe_add_reader idx s =
     (case pipe_at s idx of
        Some p \<Rightarrow> if active p then put_pipe idx (p\<lparr>readers := saturating_inc (readers p)\<rparr>) s else s
      | None \<Rightarrow> s)"

definition pipe_add_writer :: "u8 \<Rightarrow> pipe_sys \<Rightarrow> pipe_sys" where
  "pipe_add_writer idx s =
     (case pipe_at s idx of
        Some p \<Rightarrow> if active p then put_pipe idx (p\<lparr>writers := saturating_inc (writers p)\<rparr>) s else s
      | None \<Rightarrow> s)"

text \<open>\<open>sys_write\<close> on a pipe descriptor: \<open>None\<close> is \<open>EPIPE\<close>.\<close>

definition sys_write_pipe :: "u8 \<Rightarrow> bytes \<Rightarrow> pipe_sys \<Rightarrow> nat option \<times> pipe_sys" where
  "sys_write_pipe idx data s =
     (if pipe_readers idx s = 0 then (None, s)
      else case pipe_write idx data s of
        (n, s1) \<Rightarrow> (Some n, s1\<lparr>rsched := wake_pipe_readers idx (rsched s1)\<rparr>))"

text \<open>One turn of the loop of \<open>sys_pipe_read_blocking\<close>, up to the point where the thread parks:
  the result, or \<open>None\<close> when it is now blocked. Its four sections are separate: nothing holds
  a lock from the read to the change of state.\<close>

definition park_pipe :: "nat \<Rightarrow> u8 \<Rightarrow> sched \<Rightarrow> sched" where
  "park_pipe me idx s =
     (case proc_at s me of
        Some p \<Rightarrow> put_proc me (p\<lparr>pstate := Blocked (PipeRead idx)\<rparr>) (mark_pipe_waiter (pid p) idx s)
      | None \<Rightarrow> s)"

definition pipe_read_turn :: "nat \<Rightarrow> u8 \<Rightarrow> bytes \<Rightarrow> pipe_sys \<Rightarrow> (nat \<times> bytes) option \<times> pipe_sys" where
  "pipe_read_turn me idx buf s =
     (case pipe_read idx buf s of
        (n, out, s1) \<Rightarrow>
          if n > 0 then (Some (n, out), s1)
          else if pipe_writers idx s1 = 0 then (Some (0, out), s1)
          else (None, s1\<lparr>rsched := park_pipe me idx (rsched s1)\<rparr>))"

section \<open>What the calls keep\<close>

definition pipes_ok :: "pipe_sys \<Rightarrow> bool" where
  "pipes_ok s \<longleftrightarrow> length (pipe_table s) = MAX_PIPES \<and> (\<forall>p\<in>set (pipe_table s). pipe_ok p)"

lemma pipe_table_frames [simp]:
  "pipe_table (set_ready t a s) = pipe_table s" "pipe_table (clear_ready t a s) = pipe_table s"
  "pipe_table (publish_readiness idx r w s) = pipe_table s" "pipe_table (publish_levels idx lv s) = pipe_table s"
  "pipe_at (set_ready t a s) i = pipe_at s i" "pipe_at (clear_ready t a s) i = pipe_at s i"
  "pipe_at (publish_levels idx lv s) i = pipe_at s i"
proof -
  show s: "pipe_table (set_ready t a s) = pipe_table s" for t a s
    by (simp add: set_ready_def split: prod.split option.split)
  show c: "pipe_table (clear_ready t a s) = pipe_table s" for t a s
    by (simp add: clear_ready_def split: option.split)
  show p: "pipe_table (publish_readiness idx r w s) = pipe_table s" for r w
    by (simp add: publish_readiness_def Let_def s c)
  show l: "pipe_table (publish_levels idx lv s) = pipe_table s"
    by (simp add: publish_levels_def p split: option.split prod.split)
  show "pipe_at (set_ready t a s) i = pipe_at s i" "pipe_at (clear_ready t a s) i = pipe_at s i"
    "pipe_at (publish_levels idx lv s) i = pipe_at s i" by (simp_all add: pipe_at_def s c l)
qed

lemma pipe_at_put [simp]:
  "pipe_at s idx = Some p \<Longrightarrow> pipe_at (put_pipe idx q s) j = (if j = idx then Some q else pipe_at s j)"
  by (auto simp: pipe_at_def put_pipe_def nth_list_update word_unat_eq_iff split: if_splits)

lemma pipes_okD: "pipes_ok s \<Longrightarrow> pipe_at s idx = Some p \<Longrightarrow> pipe_ok p"
  by (auto simp: pipes_ok_def pipe_at_def split: if_splits)

lemma pipes_ok_put: "pipes_ok s \<Longrightarrow> pipe_ok q \<Longrightarrow> pipes_ok (put_pipe idx q s)"
  using set_update_subset_insert[of "pipe_table s" "unat idx" q] by (auto simp: pipes_ok_def put_pipe_def)

lemma pipes_ok_frames [simp]:
  "pipes_ok (set_ready t a s) = pipes_ok s" "pipes_ok (clear_ready t a s) = pipes_ok s"
  "pipes_ok (publish_levels idx lv s) = pipes_ok s"
  by (simp_all add: pipes_ok_def)

lemma pipe_field_frames [simp]:
  "pipe_ok (p\<lparr>readers := a\<rparr>) = pipe_ok p" "pipe_ok (p\<lparr>writers := a\<rparr>) = pipe_ok p" "pipe_ok (p\<lparr>active := b\<rparr>) = pipe_ok p"
  "pipe_contents (p\<lparr>readers := a\<rparr>) = pipe_contents p" "pipe_contents (p\<lparr>writers := a\<rparr>) = pipe_contents p"
  "pipe_contents (p\<lparr>active := b\<rparr>) = pipe_contents p"
  by (simp_all add: pipe_ok_def pipe_contents_def)

lemma pipe_wr_spec:
  assumes "pipe_ok p"
  shows "\<exists>q. pipe_wr data p = (min (length data) (PIPE_BUF_MASK - length (pipe_contents p)), q) \<and> pipe_ok q \<and>
     pipe_contents q = pipe_contents p @ take (PIPE_BUF_MASK - length (pipe_contents p)) data"
  using ps.feed_appends[OF assms] by simp

lemma pipe_rd_spec:
  assumes "pipe_ok p"
  shows "\<exists>q. pipe_rd buf 0 p = (min (length buf) (length (pipe_contents p)),
       take (length buf) (pipe_contents p) @ drop (length (pipe_contents p)) buf, q) \<and> pipe_ok q \<and>
     pipe_contents q = drop (length buf) (pipe_contents p)"
proof -
  let ?k = "min (length buf) (length (pipe_contents p))"
  have "take ?k (pipe_contents p) = take (length buf) (pipe_contents p)" "drop ?k buf = drop (length (pipe_contents p)) buf"
    "drop ?k (pipe_contents p) = drop (length buf) (pipe_contents p)" by (auto simp: min_def)
  then show ?thesis using pq.fill_drains[OF assms, of 0 buf] by (simp del: drop_eq_Nil)
qed

lemma pipe_wr_active: "pipe_wr data p = (n, q) \<Longrightarrow> active q = active p"
  by (induction data arbitrary: p n q) (auto simp: pipe_put_def Let_def split: prod.splits if_splits)

datatype pipe_call =
  PWrite u8 bytes | PRead u8 bytes | AddReader u8 | AddWriter u8 | CloseReader u8 | CloseWriter u8

text \<open>One call, with the pipe it is on, the bytes it accepted and the bytes it delivered.\<close>

fun pipe_exec :: "pipe_call \<Rightarrow> pipe_sys \<Rightarrow> (u8 \<times> bytes \<times> bytes) \<times> pipe_sys" where
  "pipe_exec (PWrite i data) s = (case pipe_write i data s of (n, t) \<Rightarrow> ((i, take n data, []), t))"
| "pipe_exec (PRead i buf) s = (case pipe_read i buf s of (n, out, t) \<Rightarrow> ((i, [], take n out), t))"
| "pipe_exec (AddReader i) s = ((i, [], []), pipe_add_reader i s)"
| "pipe_exec (AddWriter i) s = ((i, [], []), pipe_add_writer i s)"
| "pipe_exec (CloseReader i) s = ((i, [], []), pipe_close_reader i s)"
| "pipe_exec (CloseWriter i) s = ((i, [], []), pipe_close_writer i s)"

fun pipe_run :: "pipe_call list \<Rightarrow> pipe_sys \<Rightarrow> (u8 \<times> bytes \<times> bytes) list \<times> pipe_sys" where
  "pipe_run [] s = ([], s)"
| "pipe_run (c # cs) s = (case pipe_exec c s of (e, s1) \<Rightarrow> (case pipe_run cs s1 of (es, s2) \<Rightarrow> (e # es, s2)))"

definition accepted :: "u8 \<Rightarrow> (u8 \<times> bytes \<times> bytes) list \<Rightarrow> bytes" where
  "accepted i es = concat (map (\<lambda>(j, a, d). if j = i then a else []) es)"

definition delivered :: "u8 \<Rightarrow> (u8 \<times> bytes \<times> bytes) list \<Rightarrow> bytes" where
  "delivered i es = concat (map (\<lambda>(j, a, d). if j = i then d else []) es)"

lemma fifo_nil [simp]: "accepted i [] = []" "delivered i [] = []"
  by (simp_all add: accepted_def delivered_def)

lemma fifo_cons [simp]:
  "accepted i ((j, a, d) # es) = (if j = i then a else []) @ accepted i es"
  "delivered i ((j, a, d) # es) = (if j = i then d else []) @ delivered i es"
  by (simp_all add: accepted_def delivered_def)

definition fifo_step :: "pipe_sys \<Rightarrow> u8 \<times> bytes \<times> bytes \<Rightarrow> pipe_sys \<Rightarrow> bool" where
  "fifo_step s e t \<longleftrightarrow> pipes_ok t \<and>
     (\<forall>i p. pipe_at s i = Some p \<longrightarrow>
        (\<exists>q. pipe_at t i = Some q \<and> delivered i [e] @ pipe_contents q = pipe_contents p @ accepted i [e]))"

lemma pipe_write_fifo:
  assumes "pipes_ok s" "pipe_write idx data s = (n, t)"
  shows "fifo_step s (idx, take n data, []) t"
proof (cases "\<exists>p. pipe_at s idx = Some p \<and> active p")
  case True
  then obtain p where p: "pipe_at s idx = Some p" "active p" by blast
  obtain q where q: "pipe_wr data p = (n, q)" "n = min (length data) (PIPE_BUF_MASK - length (pipe_contents p))" "pipe_ok q"
      "pipe_contents q = pipe_contents p @ take (PIPE_BUF_MASK - length (pipe_contents p)) data"
    using pipe_wr_spec[OF pipes_okD[OF assms(1) p(1)], of data] assms(2) p
    by (auto simp: pipe_write_def pipe_write_locked_def split: prod.splits)
  have t: "t = publish_levels idx (Some (available_read q, available_write q)) (put_pipe idx q s)"
    using assms(2) p q(1) by (simp add: pipe_write_def pipe_write_locked_def)
  have "take n data = take (PIPE_BUF_MASK - length (pipe_contents p)) data" using q(2) by (simp add: min_def)
  then show ?thesis using p q assms(1) by (auto simp: fifo_step_def t pipes_ok_put)
qed (use assms in \<open>auto simp: fifo_step_def pipe_write_def pipe_write_locked_def publish_levels_def split: option.splits\<close>)

lemma pipe_read_fifo:
  assumes "pipes_ok s" "pipe_read idx buf s = (n, out, t)"
  shows "fifo_step s (idx, [], take n out) t"
proof (cases "\<exists>p. pipe_at s idx = Some p \<and> active p")
  case True
  then obtain p where p: "pipe_at s idx = Some p" "active p" by blast
  obtain q where q: "pipe_rd buf 0 p = (n, out, q)" "n = min (length buf) (length (pipe_contents p))" "pipe_ok q"
      "out = take (length buf) (pipe_contents p) @ drop (length (pipe_contents p)) buf"
      "pipe_contents q = drop (length buf) (pipe_contents p)"
    using pipe_rd_spec[OF pipes_okD[OF assms(1) p(1)], of buf] assms(2) p
    by (auto simp: pipe_read_def pipe_read_locked_def split: prod.splits)
  have t: "t = publish_levels idx (Some (available_read q, available_write q)) (put_pipe idx q s)"
    using assms(2) p q(1) by (simp add: pipe_read_def pipe_read_locked_def)
  have "take n out = take (length buf) (pipe_contents p)" using q(2,4) by (simp add: min_def)
  then show ?thesis using p q(3,5) assms(1) by (auto simp: fifo_step_def t pipes_ok_put)
qed (use assms in \<open>auto simp: fifo_step_def pipe_read_def pipe_read_locked_def publish_levels_def split: option.splits\<close>)

lemma count_fifo:
  assumes "pipes_ok s"
  shows "fifo_step s (i, [], []) (pipe_add_reader i s)" "fifo_step s (i, [], []) (pipe_add_writer i s)"
    "fifo_step s (i, [], []) (pipe_close_reader i s)" "fifo_step s (i, [], []) (pipe_close_writer i s)"
proof -
  have id: "fifo_step s (i, [], []) s" using assms by (simp add: fifo_step_def)
  have put: "fifo_step s (i, [], []) (put_pipe i q s)" "fifo_step s (i, [], []) (set_ready t a (put_pipe i q s))"
    if "pipe_at s i = Some p" "pipe_ok q = pipe_ok p" "pipe_contents q = pipe_contents p" for p q t a
    using that assms pipes_okD[OF assms that(1)] by (auto simp: fifo_step_def pipes_ok_put)
  show "fifo_step s (i, [], []) (pipe_add_reader i s)" "fifo_step s (i, [], []) (pipe_add_writer i s)"
    using id put by (auto simp: pipe_add_reader_def pipe_add_writer_def split: option.split)
  show "fifo_step s (i, [], []) (pipe_close_reader i s)" "fifo_step s (i, [], []) (pipe_close_writer i s)"
    using id by (auto simp: pipe_close_reader_def pipe_close_writer_def Let_def split: option.split intro!: put)
qed

lemma pipe_exec_fifo: "pipes_ok s \<Longrightarrow> pipe_exec c s = (e, t) \<Longrightarrow> fifo_step s e t"
  by (cases c) (auto simp: count_fifo pipe_write_fifo pipe_read_fifo split: prod.splits)

text \<open>C6: A pipe is a first-in first-out channel that loses, duplicates and reorders nothing:
  over any sequence of reads, writes, duplications and closes on the pipes of the table,
  with short writes on a full buffer and short reads on an empty one, the bytes a pipe has
  delivered followed by those it still holds are the bytes it held followed by those it
  accepted, whatever happened on the other pipes. It never holds more than 4095 bytes.\<close>

theorem pipe_is_fifo:
  assumes "pipes_ok s" "pipe_run cs s = (es, t)" "pipe_at s i = Some p"
  shows "\<exists>q. pipe_at t i = Some q \<and> delivered i es @ pipe_contents q = pipe_contents p @ accepted i es \<and>
     length (pipe_contents q) \<le> 4095 \<and> available_read q = length (pipe_contents q)"
  using assms
proof (induction cs arbitrary: s es p)
  case Nil
  then show ?case using pq.bounded[OF pipes_okD[of s i p]] pipe_levels[OF pipes_okD[of s i p]] by simp
next
  case (Cons c cs)
  obtain e s1 where 1: "pipe_exec c s = (e, s1)" by (metis surj_pair)
  obtain es2 where 2: "pipe_run cs s1 = (es2, t)" "es = e # es2" using Cons.prems(2) 1 by (auto split: prod.splits)
  have st: "fifo_step s e s1" by (rule pipe_exec_fifo[OF Cons.prems(1) 1])
  then obtain p1 where p1: "pipe_at s1 i = Some p1" "delivered i [e] @ pipe_contents p1 = pipe_contents p @ accepted i [e]"
    using Cons.prems(3) by (auto simp: fifo_step_def)
  have "pipes_ok s1" using st by (simp add: fifo_step_def)
  from Cons.IH[OF this 2(1) p1(1)] obtain q where q: "pipe_at t i = Some q"
    "delivered i es2 @ pipe_contents q = pipe_contents p1 @ accepted i es2" "length (pipe_contents q) \<le> 4095"
    "available_read q = length (pipe_contents q)" by blast
  have app: "delivered i (e # es2) = delivered i [e] @ delivered i es2" "accepted i (e # es2) = accepted i [e] @ accepted i es2"
    by (cases e, simp)+
  have "delivered i es @ pipe_contents q = delivered i [e] @ pipe_contents p1 @ accepted i es2"
    using q(2) app 2(2) by simp
  also have "\<dots> = pipe_contents p @ accepted i es" using p1(2) app 2(2) by (metis append_assoc)
  finally show ?case using q by blast
qed

section \<open>Levels\<close>

lemma epoll_nz [simp]: "EPOLLIN \<noteq> 0" "EPOLLOUT \<noteq> 0"
  by (simp_all add: EPOLLIN_def EPOLLOUT_def)

lemma epoll_bits:
  "(m OR EPOLLIN) AND EPOLLIN \<noteq> 0" "(m AND NOT EPOLLIN) AND EPOLLIN = 0"
  "(m OR EPOLLOUT) AND EPOLLOUT \<noteq> 0" "(m AND NOT EPOLLOUT) AND EPOLLOUT = 0"
  "(m OR EPOLLOUT) AND EPOLLIN = m AND EPOLLIN" "(m AND NOT EPOLLOUT) AND EPOLLIN = m AND EPOLLIN"
  by (simp_all add: EPOLLIN_def EPOLLOUT_def word_ao_dist and.assoc)

lemma has_slot_set: "sources_ok (sources s) \<Longrightarrow> t \<noteq> 0 \<Longrightarrow> has_slot t (sources s) \<Longrightarrow> has_slot t (sources (set_ready t a s))"
  using set_ready_spec(4)[of s t a] by (simp add: has_slot_def)

lemma has_slot_clear: "has_slot t (sources s) \<Longrightarrow> has_slot t (sources (clear_ready t a s))"
proof (cases "find_src t (sources s)")
  case (Some i)
  note i = find_src_Some[OF Some]
  have "find_src t (sources (clear_ready t a s)) \<noteq> None"
    using i Some find_src_None[of t "sources (clear_ready t a s)"] by (auto simp: clear_ready_def)
  then show ?thesis by (simp add: has_slot_def)
qed (simp add: clear_ready_def)

lemma publish_spec:
  assumes "sources_ok (sources s)" "has_slot (pipe_token idx) (sources s)"
  shows "ready_mask (pipe_token idx) (sources (publish_readiness idx ar aw s)) AND EPOLLIN \<noteq> 0 \<longleftrightarrow> ar > 0"
    and "ready_mask (pipe_token idx) (sources (publish_readiness idx ar aw s)) AND EPOLLOUT \<noteq> 0 \<longleftrightarrow> aw > 0"
    and "sources_ok (sources (publish_readiness idx ar aw s))" "has_slot (pipe_token idx) (sources (publish_readiness idx ar aw s))"
proof -
  let ?t = "pipe_token idx"
  define s1 where "s1 = (if ar > 0 then set_ready ?t EPOLLIN s else clear_ready ?t EPOLLIN s)"
  have 1: "sources_ok (sources s1)" "has_slot ?t (sources s1)" "ready_mask ?t (sources s1) AND EPOLLIN \<noteq> 0 \<longleftrightarrow> ar > 0"
    using assms(1,2) by (simp_all add: s1_def set_ready_spec clear_ready_spec has_slot_set has_slot_clear epoll_bits)
  have p: "publish_readiness idx ar aw s = (if aw > 0 then set_ready ?t EPOLLOUT s1 else clear_ready ?t EPOLLOUT s1)"
    by (simp add: publish_readiness_def s1_def Let_def)
  show "ready_mask ?t (sources (publish_readiness idx ar aw s)) AND EPOLLIN \<noteq> 0 \<longleftrightarrow> ar > 0"
    "ready_mask ?t (sources (publish_readiness idx ar aw s)) AND EPOLLOUT \<noteq> 0 \<longleftrightarrow> aw > 0"
    "sources_ok (sources (publish_readiness idx ar aw s))" "has_slot ?t (sources (publish_readiness idx ar aw s))"
    using 1 by (simp_all add: p set_ready_spec clear_ready_spec has_slot_set has_slot_clear epoll_bits)
qed

definition levels_shown :: "u8 \<Rightarrow> pipe_sys \<Rightarrow> bool" where
  "levels_shown idx s \<longleftrightarrow> (\<exists>p. pipe_at s idx = Some p \<and>
     (ready_mask (pipe_token idx) (sources s) AND EPOLLIN \<noteq> 0 \<longleftrightarrow> pipe_contents p \<noteq> []) \<and>
     (ready_mask (pipe_token idx) (sources s) AND EPOLLOUT \<noteq> 0 \<longleftrightarrow> length (pipe_contents p) < 4095))"

lemma publish_shows:
  assumes "sources_ok (sources s)" "has_slot (pipe_token idx) (sources s)" "pipe_at s idx = Some p" "pipe_ok q"
  shows "levels_shown idx (publish_levels idx (Some (available_read q, available_write q)) (put_pipe idx q s))"
proof -
  have src: "sources (put_pipe idx q s) = sources s" by (simp add: put_pipe_def)
  note ps = publish_spec[of "put_pipe idx q s", unfolded src, OF assms(1,2), of "available_read q" "available_write q"]
  have at: "pipe_at (publish_levels idx (Some (available_read q, available_write q)) (put_pipe idx q s)) idx = Some q"
    using assms(3) by simp
  show ?thesis using ps(1,2) at pipe_levels[OF assms(4)] unfolding levels_shown_def
    by (simp add: publish_levels_def)
qed

text \<open>C14: A write to an open pipe stores as much of the data as fits and returns that count, a
  read takes as many bytes as the buffer asks for or the pipe holds, and after each of them,
  run on its own, the mask of the pipe's token shows the pipe's level: readable exactly when
  it holds a byte, writable exactly when it has room.\<close>

theorem pipe_calls_show_levels:
  assumes "pipes_ok s" "sources_ok (sources s)" "has_slot (pipe_token idx) (sources s)" "pipe_at s idx = Some p" "active p"
  shows "(\<exists>t q. pipe_write idx data s = (min (length data) (4095 - length (pipe_contents p)), t) \<and> pipe_at t idx = Some q \<and>
            pipe_contents q = pipe_contents p @ take (4095 - length (pipe_contents p)) data \<and> levels_shown idx t) \<and>
         (\<exists>t q. pipe_read idx buf s = (min (length buf) (length (pipe_contents p)),
              take (length buf) (pipe_contents p) @ drop (length (pipe_contents p)) buf, t) \<and> pipe_at t idx = Some q \<and>
            pipe_contents q = drop (length buf) (pipe_contents p) \<and> levels_shown idx t)"
proof -
  have ok: "pipe_ok p" by (rule pipes_okD[OF assms(1,4)])
  obtain q where q: "pipe_wr data p = (min (length data) (4095 - length (pipe_contents p)), q)" "pipe_ok q"
     "pipe_contents q = pipe_contents p @ take (4095 - length (pipe_contents p)) data"
    using pipe_wr_spec[OF ok, of data] by auto
  obtain r where r: "pipe_rd buf 0 p = (min (length buf) (length (pipe_contents p)),
       take (length buf) (pipe_contents p) @ drop (length (pipe_contents p)) buf, r)" "pipe_ok r"
     "pipe_contents r = drop (length buf) (pipe_contents p)"
    using pipe_rd_spec[OF ok, of buf] by auto
  show ?thesis
    using q r publish_shows[OF assms(2-4) q(2)] publish_shows[OF assms(2-4) r(2)] assms(4,5)
    by (simp add: pipe_write_def pipe_write_locked_def pipe_read_def pipe_read_locked_def)
qed

text \<open>C38: The levels are published after the pipe's lock is released, so two calls can publish
  in the other order. When a reader finds the pipe empty, a writer then stores bytes, and the
  writer publishes before the reader, the reader's late publication clears the readable bit:
  the pipe holds data, no wake-up is to come, and a thread that waits for the pipe to become
  readable parks.\<close>

theorem racing_publication_hides_data:
  assumes "pipes_ok s" "sources_ok (sources s)" "has_slot (pipe_token idx) (sources s)" "pipe_at s idx = Some p" "active p"
    and "pipe_contents p = []" "data \<noteq> []" "buf \<noteq> []"
  shows "\<exists>out lr s1 lw s2 n. pipe_read_locked idx buf s = (0, out, lr, s1) \<and> pipe_write_locked idx data s1 = (n, lw, s2) \<and>
     (let t = publish_levels idx lr (publish_levels idx lw s2) in
        0 < pipe_available idx t \<and> ready_mask (pipe_token idx) (sources t) AND EPOLLIN = 0 \<and>
        fst (wait_ready_turn me (pipe_token idx) EPOLLIN 0 t) = None)"
proof -
  have ok: "pipe_ok p" by (rule pipes_okD[OF assms(1,4)])
  obtain r where r: "pipe_rd buf 0 p = (0, buf, r)" "pipe_ok r" "pipe_contents r = []"
    using pipe_rd_spec[OF ok, of buf] assms(6) by auto
  have act: "active r = active p"
    using r(1) assms(6) ok pq.get_empty[OF ok] by (subst (asm) pipe_rd.simps) (auto split: if_splits)
  obtain q where q: "pipe_wr data r = (min (length data) 4095, q)" "pipe_ok q" "pipe_contents q = take 4095 data"
    using pipe_wr_spec[OF r(2), of data] r(3) by auto
  define s1 where "s1 = put_pipe idx r s"
  define s2 where "s2 = put_pipe idx q s1"
  have at: "pipe_at s1 idx = Some r" "pipe_at s2 idx = Some q" using assms(4) by (simp_all add: s1_def s2_def)
  have rd: "pipe_read_locked idx buf s = (0, buf, Some (available_read r, available_write r), s1)"
    using assms(4,5) r(1) by (simp add: pipe_read_locked_def s1_def)
  have wr: "pipe_write_locked idx data s1 = (min (length data) 4095, Some (available_read q, available_write q), s2)"
    using at(1) assms(5) act q(1) by (simp add: pipe_write_locked_def s2_def)
  define u where "u = publish_levels idx (Some (available_read q, available_write q)) s2"
  define t where "t = publish_levels idx (Some (available_read r, available_write r)) u"
  have src: "sources s2 = sources s" by (simp add: s1_def s2_def put_pipe_def)
  have u: "sources_ok (sources u)" "has_slot (pipe_token idx) (sources u)"
    using publish_spec(3,4)[of s2 idx] src assms(2,3) by (simp_all add: u_def publish_levels_def)
  have m: "ready_mask (pipe_token idx) (sources t) AND EPOLLIN = 0"
    using publish_spec(1)[OF u, of "available_read r" "available_write r"] pipe_levels[OF r(2)] r(3)
    by (simp add: t_def publish_levels_def)
  have "pipe_at t idx = Some q" using at(2) by (simp add: t_def u_def)
  moreover have "active q" using pipe_wr_active[OF q(1)] act assms(5) by simp
  ultimately have "0 < pipe_available idx t" using pipe_levels(1)[OF q(2)] q(3) assms(7) by (simp add: pipe_available_def)
  with m rd wr show ?thesis by (simp add: t_def u_def wait_ready_turn_def Let_def)
qed

text \<open>C39: The mask of a pipe outlives the pipe. Closing the last reader and the last writer
  sets the error and hang-up bits, and allocation does not touch the mask, so the next pipe
  that gets the same index is reported as broken and hung up although both of its ends are
  open and it is empty.\<close>

theorem reused_pipe_reports_hangup:
  assumes "pipes_ok s" "sources_ok (sources s)" "has_slot (pipe_token idx) (sources s)"
    and "pipe_at s idx = Some p" "active p" "readers p = 1" "writers p = 1"
    and "\<And>j. j < unat idx \<Longrightarrow> active (pipe_table s ! j)"
  shows "\<exists>t q. pipe_alloc (pipe_close_writer idx (pipe_close_reader idx s)) = (Some idx, t) \<and>
     pipe_at t idx = Some q \<and> active q \<and> readers q = 1 \<and> writers q = 1 \<and> pipe_contents q = [] \<and>
     ready_mask (pipe_token idx) (sources t) AND (EPOLLERR OR EPOLLHUP) = EPOLLERR OR EPOLLHUP"
proof -
  let ?t = "pipe_token idx"
  let ?p1 = "p\<lparr>readers := 0\<rparr>"
  define s1 where "s1 = put_pipe idx ?p1 s"
  define s2 where "s2 = set_ready ?t (EPOLLERR OR EPOLLOUT) s1"
  have c1: "pipe_close_reader idx s = s2"
    using assms(4,6,7) by (simp add: pipe_close_reader_def s1_def s2_def)
  define s3 where "s3 = put_pipe idx (p\<lparr>readers := 0, writers := 0, active := False\<rparr>) s2"
  define s4 where "s4 = set_ready ?t (EPOLLHUP OR EPOLLIN) s3"
  have at2: "pipe_at s2 idx = Some ?p1" using assms(4) by (simp add: s2_def s1_def)
  have c2: "pipe_close_writer idx s2 = s4"
    using at2 assms(7) by (simp add: pipe_close_writer_def s3_def s4_def)
  have src: "sources s1 = sources s" "sources s3 = sources s2" by (simp_all add: s1_def s3_def put_pipe_def)
  have ok2: "sources_ok (sources s3)" "has_slot ?t (sources s3)"
    using assms(2,3) src by (simp_all add: s2_def set_ready_spec has_slot_set)
  have m: "ready_mask ?t (sources s4) = (ready_mask ?t (sources s) OR (EPOLLERR OR EPOLLOUT)) OR (EPOLLHUP OR EPOLLIN)"
    using set_ready_spec(2)[of s3 ?t "EPOLLHUP OR EPOLLIN"] set_ready_spec(2)[of s1 ?t "EPOLLERR OR EPOLLOUT"] ok2 assms(2,3) src
    by (simp add: s4_def s2_def)
  have i: "unat idx < length (pipe_table s)" using assms(4) by (auto simp: pipe_at_def split: if_splits)
  have tab: "pipe_table s4 = (pipe_table s)[unat idx := p\<lparr>readers := 0, writers := 0, active := False\<rparr>]"
    by (simp add: s4_def s3_def s2_def s1_def put_pipe_def)
  have n: "\<forall>j < unat idx. active (pipe_table s4 ! j)" "\<not> active (pipe_table s4 ! unat idx)" "unat idx < length (pipe_table s4)"
    using assms(8) i by (simp_all add: tab)
  have tw: "length (takeWhile active (pipe_table s4)) = unat idx"
  proof -
    have "takeWhile active (pipe_table s4) = take (unat idx) (pipe_table s4)"
      using n by (intro takeWhile_eq_take_P_nth) auto
    then show ?thesis using n(3) by simp
  qed
  define q where "q = pipe_empty\<lparr>active := True, readers := 1, writers := 1\<rparr>"
  have al: "pipe_alloc s4 = (Some idx, s4\<lparr>pipe_table := (pipe_table s4)[unat idx := q]\<rparr>)"
    using n(3) tw by (simp add: pipe_alloc_def Let_def q_def)
  have "pipe_contents q = []" by (simp add: q_def pipe_contents_def ring_contents_def pipe_empty_def)
  moreover have "((x OR (EPOLLERR OR EPOLLOUT)) OR (EPOLLHUP OR EPOLLIN)) AND (EPOLLERR OR EPOLLHUP) = EPOLLERR OR EPOLLHUP" for x
    by (rule bit_word_eqI) (auto simp: bit_and_iff bit_or_iff)
  ultimately show ?thesis
    using al c1 c2 m n(3)
    by (intro exI[of _ "s4\<lparr>pipe_table := (pipe_table s4)[unat idx := q]\<rparr>"] exI[of _ q]) (simp add: pipe_at_def q_def)
qed

lemma wake_token_waiters: "pipe_waiters (wake_token t s) = pipe_waiters s"
  unfolding wake_token_def
  by (rule fold_invariant[where Q = "\<lambda>i. True" and P = "\<lambda>u. pipe_waiters u = pipe_waiters s"])
    (auto simp: wake_token_one_def put_proc_def dec_timed_block_count_def split: option.split)

lemma ready_frames:
  "pipe_waiters (rsched (set_ready t a s)) = pipe_waiters (rsched s)"
  "pipe_waiters (rsched (clear_ready t a s)) = pipe_waiters (rsched s)"
  "runs (rsched s) me \<Longrightarrow> runs (rsched (set_ready t a s)) me"
  "runs (rsched s) me \<Longrightarrow> runs (rsched (clear_ready t a s)) me"
  by (auto simp: set_ready_def clear_ready_def wake_token_waiters runs_def wake_token_at split: option.splits prod.splits)

lemma publish_frames:
  "pipe_waiters (rsched (publish_levels idx lv s)) = pipe_waiters (rsched s)"
  "runs (rsched s) me \<Longrightarrow> runs (rsched (publish_levels idx lv s)) me"
  by (simp_all add: publish_levels_def publish_readiness_def Let_def ready_frames split: option.split prod.split)

text \<open>C40: A blocking read can sleep on data. The read, the check for writers, the entry in the
  waiter set and the change of state are four separate steps; a writer that runs between the
  second and the third finds no waiter, wakes nobody, and the reader then parks with the
  bytes in the pipe.\<close>

theorem blocking_read_sleeps_on_data:
  assumes "pipes_ok s" "pipe_at s idx = Some p" "active p" "pipe_contents p = []" "writers p \<noteq> 0" "readers p \<noteq> 0" "data \<noteq> []"
    and "pidset_is_empty (pipe_waiters (rsched s) ! unat idx)" "runs (rsched s) me"
  shows "\<exists>out s1 n s2. pipe_read idx buf s = (0, out, s1) \<and> pipe_writers idx s1 \<noteq> 0 \<and>
     sys_write_pipe idx data s1 = (Some n, s2) \<and> 0 < n \<and>
     (let t = s2\<lparr>rsched := park_pipe me idx (rsched s2)\<rparr> in
        0 < pipe_available idx t \<and> (\<exists>q. proc_at (rsched t) me = Some q \<and> pstate q = Blocked (PipeRead idx)))"
proof -
  have ok: "pipe_ok p" by (rule pipes_okD[OF assms(1,2)])
  have rd: "pipe_rd buf 0 p = (0, buf, p)"
    using assms(4) pq.get_empty[OF ok] by (subst pipe_rd.simps) simp
  define s1 where "s1 = publish_levels idx (Some (available_read p, available_write p)) (put_pipe idx p s)"
  have read: "pipe_read idx buf s = (0, buf, s1)"
    using assms(2,3) rd by (simp add: pipe_read_def pipe_read_locked_def s1_def)
  have at1: "pipe_at s1 idx = Some p" using assms(2) by (simp add: s1_def)
  obtain q where q: "pipe_wr data p = (min (length data) 4095, q)" "pipe_ok q" "pipe_contents q = take 4095 data"
    using pipe_wr_spec[OF ok, of data] assms(4) by auto
  define s2 where "s2 = publish_levels idx (Some (available_read q, available_write q)) (put_pipe idx q s1)"
  have w: "pipe_waiters (rsched s1) = pipe_waiters (rsched s)" "pipe_waiters (rsched s2) = pipe_waiters (rsched s1)"
    by (simp_all add: s1_def s2_def publish_frames put_pipe_def)
  have "s2\<lparr>rsched := wake_pipe_readers idx (rsched s2)\<rparr> = s2" using assms(8) w by (simp add: wake_pipe_readers_def)
  then have wrote: "sys_write_pipe idx data s1 = (Some (min (length data) 4095), s2)"
    using at1 q(1) assms(3,6) by (simp add: sys_write_pipe_def pipe_readers_def pipe_write_def pipe_write_locked_def s2_def)
  have "runs (rsched (put_pipe idx p s)) me" using assms(9) by (simp add: put_pipe_def)
  then have "runs (rsched s1) me" unfolding s1_def by (rule publish_frames)
  then have "runs (rsched (put_pipe idx q s1)) me" by (simp add: put_pipe_def)
  then have "runs (rsched s2) me" unfolding s2_def by (rule publish_frames)
  then obtain r where r: "proc_at (rsched s2) me = Some r" using runs_at by blast
  have pt: "process_table (mark_pipe_waiter a b u) = process_table u" for a b u by (simp add: mark_pipe_waiter_def)
  have parked: "\<exists>x. proc_at (park_pipe me idx (rsched s2)) me = Some x \<and> pstate x = Blocked (PipeRead idx)"
    using r proc_at_some[OF r] by (simp add: park_pipe_def pt)
  have "pipe_at (s2\<lparr>rsched := z\<rparr>) idx = Some q" for z using at1 by (simp add: s2_def pipe_at_def put_pipe_def split: if_splits)
  moreover have "active q" using pipe_wr_active[OF q(1)] assms(3) by simp
  ultimately have "0 < pipe_available idx (s2\<lparr>rsched := z\<rparr>)" for z
    using pipe_levels(1)[OF q(2)] q(3) assms(7) by (simp add: pipe_available_def)
  then show ?thesis using read wrote parked at1 assms(5,7) by (simp add: pipe_writers_def)
qed

section \<open>A concrete table\<close>

definition demo_table :: pipe_sys where
  "demo_table = \<lparr>sources = sources_new, rsched = demo_one,
     pipe_table = (replicate MAX_PIPES pipe_empty)[0 := pipe_empty\<lparr>active := True, readers := 1, writers := 1\<rparr>]\<rparr>"

definition demo_pipe :: pipe where
  "demo_pipe = pipe_empty\<lparr>active := True, readers := 1, writers := 1\<rparr>"

lemma demo_pipe_facts: "pipe_ok demo_pipe" "pipe_contents demo_pipe = []" "active demo_pipe" "readers demo_pipe = 1" "writers demo_pipe = 1"
  by (simp_all add: demo_pipe_def pipe_ok_def ring_ok_def pipe_empty_def pipe_contents_def ring_contents_def)

lemma demo_table_alloc:
  "pipe_alloc \<lparr>sources = sources_new, rsched = demo_one, pipe_table = replicate MAX_PIPES pipe_empty\<rparr> = (Some 0, demo_table)"
  by (simp add: pipe_alloc_def demo_table_def Let_def) (simp add: pipe_empty_def)

lemma demo_table_facts:
  "pipes_ok demo_table" "pipe_at demo_table 0 = Some demo_pipe" "sources_ok (sources demo_table)"
  "has_slot (pipe_token 0) (sources demo_table)" "runs (rsched demo_table) 1"
  "pidset_is_empty (pipe_waiters (rsched demo_table) ! unat (0 :: u8))"
proof -
  have e: "pipe_ok pipe_empty" by (simp add: pipe_ok_def ring_ok_def pipe_empty_def)
  show "pipes_ok demo_table"
    using set_update_subset_insert[of "replicate MAX_PIPES pipe_empty" 0 demo_pipe] e demo_pipe_facts(1)
    by (auto simp: pipes_ok_def demo_table_def demo_pipe_def)
  show "pipe_at demo_table 0 = Some demo_pipe" by (simp add: pipe_at_def demo_table_def demo_pipe_def)
  show "sources_ok (sources demo_table)" "has_slot (pipe_token 0) (sources demo_table)"
    by (simp_all add: demo_table_def has_slot_def)
  show "runs (rsched demo_table) 1" using demo_one_ok(3) by (simp add: demo_table_def)
  show "pidset_is_empty (pipe_waiters (rsched demo_table) ! unat (0 :: u8))"
    by (simp add: demo_table_def demo_one_def put_proc_def sched_new_def pidset_is_empty_def pidset_new_def list_all_length)
qed

theorem pipe_is_fifo_witness:
  "\<exists>es t q. pipe_run [PWrite 0 [1, 2, 3], PRead 0 [0, 0], CloseWriter 0] demo_table = (es, t) \<and> pipe_at t 0 = Some q \<and>
     delivered 0 es @ pipe_contents q = accepted 0 es"
proof -
  obtain es t where r: "pipe_run [PWrite 0 [1, 2, 3], PRead 0 [0, 0], CloseWriter 0] demo_table = (es, t)" by (metis surj_pair)
  from pipe_is_fifo[OF demo_table_facts(1) r demo_table_facts(2)] r show ?thesis by (simp add: demo_pipe_facts) blast
qed

theorem pipe_calls_show_levels_witness:
  "\<exists>t q. pipe_write 0 [1, 2, 3] demo_table = (3, t) \<and> pipe_at t 0 = Some q \<and> pipe_contents q = [1, 2, 3] \<and> levels_shown 0 t"
  using pipe_calls_show_levels[OF demo_table_facts(1,3,4,2) demo_pipe_facts(3), of "[1, 2, 3]" "[]"]
  by (simp add: demo_pipe_facts numeral_3_eq_3)

theorem racing_publication_hides_data_witness:
  "\<exists>out lr s1 lw s2 n. pipe_read_locked 0 [0] demo_table = (0, out, lr, s1) \<and> pipe_write_locked 0 [7] s1 = (n, lw, s2) \<and>
     0 < pipe_available 0 (publish_levels 0 lr (publish_levels 0 lw s2)) \<and>
     ready_mask (pipe_token 0) (sources (publish_levels 0 lr (publish_levels 0 lw s2))) AND EPOLLIN = 0"
  using racing_publication_hides_data[OF demo_table_facts(1,3,4,2) demo_pipe_facts(3,2), of "[7]" "[0]" 1]
  unfolding Let_def by blast

theorem reused_pipe_reports_hangup_witness:
  "\<exists>t. pipe_alloc (pipe_close_writer 0 (pipe_close_reader 0 demo_table)) = (Some 0, t) \<and>
     ready_mask (pipe_token 0) (sources t) AND (EPOLLERR OR EPOLLHUP) = EPOLLERR OR EPOLLHUP"
  using reused_pipe_reports_hangup[OF demo_table_facts(1,3,4,2) demo_pipe_facts(3,4,5)] by auto

theorem blocking_read_sleeps_on_data_witness:
  "\<exists>out s1 n s2. pipe_read 0 [0] demo_table = (0, out, s1) \<and> sys_write_pipe 0 [7] s1 = (Some n, s2) \<and> 0 < n \<and>
     0 < pipe_available 0 (s2\<lparr>rsched := park_pipe 1 0 (rsched s2)\<rparr>)"
  using blocking_read_sleeps_on_data[OF demo_table_facts(1,2) demo_pipe_facts(3,2), of "[7]" 1 "[0]"] demo_pipe_facts demo_table_facts
  unfolding Let_def by (simp; blast)
end
