(* ===== verification/Kernel_Stdio.thy ===== *)
theory Kernel_Stdio
  imports Kernel_Ring
begin

text \<open>
  The keyboard ring (\<open>morpheus-kernel/src/stdin.rs\<close>) and the mirror of standard output
  (\<open>morpheus-kernel/src/stdout.rs\<close>): two more rings with one slot kept free, interpreted as
  \<open>byte_queue\<close>, the second also as \<open>byte_stream\<close>. The lemmas at the end read those contracts off
  for the exported operations: a push appends what fits, a read takes the oldest bytes.
\<close>

section \<open>The keyboard ring\<close>

abbreviation STDIN_SIZE :: nat where "STDIN_SIZE \<equiv> 256"

record stdin_ring =
  sbuf :: bytes
  shead :: nat
  stail :: nat
  foreground_pid :: u32

definition stdin_new :: stdin_ring where
  "stdin_new = \<lparr>sbuf = replicate STDIN_SIZE 0, shead = 0, stail = 0, foreground_pid = 0\<rparr>"

definition stdin_push :: "stdin_ring \<Rightarrow> u8 \<Rightarrow> bool \<times> stdin_ring" where
  "stdin_push s byte =
     (let nxt = (shead s + 1) AND (STDIN_SIZE - 1) in
      if nxt = stail s then (False, s)
      else (True, s\<lparr>sbuf := (sbuf s)[shead s := byte], shead := nxt\<rparr>))"

definition stdin_get :: "stdin_ring \<Rightarrow> (u8 \<times> stdin_ring) option" where
  "stdin_get s =
     (if stail s = shead s then None
      else Some (sbuf s ! stail s, s\<lparr>stail := (stail s + 1) AND (STDIN_SIZE - 1)\<rparr>))"

function stdin_read :: "bytes \<Rightarrow> nat \<Rightarrow> stdin_ring \<Rightarrow> nat \<times> bytes \<times> stdin_ring" where
  "stdin_read buf count s =
     (if count < length buf
      then case stdin_get s of
             None \<Rightarrow> (count, buf, s)
           | Some (b, t) \<Rightarrow> stdin_read (buf[count := b]) (count + 1) t
      else (count, buf, s))"
  by pat_completeness auto
termination by (relation "measure (\<lambda>(buf, count, s). length buf - count)") auto

declare stdin_read.simps [simp del]

definition stdin_available :: "stdin_ring \<Rightarrow> nat" where
  "stdin_available s = ((shead s + U64 - stail s) mod U64) AND (STDIN_SIZE - 1)"

definition set_foreground_pid :: "u32 \<Rightarrow> stdin_ring \<Rightarrow> stdin_ring" where
  "set_foreground_pid p s = s\<lparr>foreground_pid := p\<rparr>"

definition stdin_ok :: "stdin_ring \<Rightarrow> bool" where
  "stdin_ok s \<longleftrightarrow> ring_ok STDIN_SIZE (sbuf s) (shead s) (stail s)"

definition stdin_contents :: "stdin_ring \<Rightarrow> bytes" where
  "stdin_contents s = ring_contents STDIN_SIZE (sbuf s) (shead s) (stail s)"

lemma stdin_mask: "x AND 255 = x mod STDIN_SIZE" for x :: nat
  using and_mask_mod[of x 8] by simp

interpretation iq: byte_queue "STDIN_SIZE - 1" stdin_ok stdin_contents stdin_push stdin_get stdin_read
proof
  fix s :: stdin_ring and b :: u8 and bs :: bytes
  assume ok: "stdin_ok s"
  note r = ok[unfolded stdin_ok_def]
  show "length (stdin_contents s) \<le> STDIN_SIZE - 1"
    using ring_contents_less[OF r] by (simp add: stdin_contents_def)
  show "stdin_push s b = (False, s)" if "length (stdin_contents s) = STDIN_SIZE - 1"
    using that ring_full_iff[OF r] by (simp add: stdin_push_def stdin_mask stdin_contents_def Let_def)
  show "\<exists>t. stdin_push s b = (True, t) \<and> stdin_ok t \<and> stdin_contents t = stdin_contents s @ [b]"
    if "length (stdin_contents s) < STDIN_SIZE - 1"
  proof -
    have "(shead s + 1) mod STDIN_SIZE \<noteq> stail s" using that ring_full_iff[OF r] by (simp add: stdin_contents_def)
    from ring_push[OF r this, of b] this show ?thesis
      by (simp add: stdin_push_def stdin_mask stdin_ok_def stdin_contents_def Let_def)
  qed
  show "stdin_get s = None" if "stdin_contents s = []"
    using that ring_empty_iff[OF r] by (simp add: stdin_get_def stdin_contents_def)
  show "\<exists>t. stdin_get s = Some (b, t) \<and> stdin_ok t \<and> stdin_contents t = bs" if "stdin_contents s = b # bs"
  proof -
    have "stail s \<noteq> shead s" using that ring_empty_iff[OF r] by (auto simp: stdin_contents_def)
    from ring_pop[OF r this] this that show ?thesis
      by (simp add: stdin_get_def stdin_mask stdin_ok_def stdin_contents_def)
  qed
next
  show "stdin_read buf count s = (if count < length buf then case stdin_get s of None \<Rightarrow> (count, buf, s)
      | Some (b, t) \<Rightarrow> stdin_read (buf[count := b]) (count + 1) t else (count, buf, s))" for buf count s
    by (rule stdin_read.simps)
qed

section \<open>The mirror of standard output\<close>

abbreviation STDOUT_SIZE :: nat where "STDOUT_SIZE \<equiv> 8192"

record stdout_ring =
  obuf :: bytes
  ohead :: nat
  otail :: nat
  enabled :: bool

definition stdout_new :: stdout_ring where
  "stdout_new = \<lparr>obuf = replicate STDOUT_SIZE 0, ohead = 0, otail = 0, enabled = False\<rparr>"

definition stdout_enable :: "stdout_ring \<Rightarrow> stdout_ring" where
  "stdout_enable s = s\<lparr>enabled := True\<rparr>"

definition stdout_put :: "stdout_ring \<Rightarrow> u8 \<Rightarrow> bool \<times> stdout_ring" where
  "stdout_put s b =
     (let nxt = (ohead s + 1) AND (STDOUT_SIZE - 1) in
      if nxt = otail s then (False, s)
      else (True, s\<lparr>obuf := (obuf s)[ohead s := b], ohead := nxt\<rparr>))"

fun stdout_store :: "bytes \<Rightarrow> stdout_ring \<Rightarrow> nat \<times> stdout_ring" where
  "stdout_store [] s = (0, s)"
| "stdout_store (b # data) s =
     (case stdout_put s b of
        (False, t) \<Rightarrow> (0, s)
      | (True, t) \<Rightarrow> (case stdout_store data t of (n, u) \<Rightarrow> (n + 1, u)))"

text \<open>\<open>push\<close> stores what fits when the mirror is enabled and drops the rest.\<close>

definition stdout_push :: "bytes \<Rightarrow> stdout_ring \<Rightarrow> stdout_ring" where
  "stdout_push data s = (if \<not> enabled s then s else snd (stdout_store data s))"

definition stdout_get :: "stdout_ring \<Rightarrow> (u8 \<times> stdout_ring) option" where
  "stdout_get s =
     (if otail s = ohead s then None
      else Some (obuf s ! otail s, s\<lparr>otail := (otail s + 1) AND (STDOUT_SIZE - 1)\<rparr>))"

function stdout_drain :: "bytes \<Rightarrow> nat \<Rightarrow> stdout_ring \<Rightarrow> nat \<times> bytes \<times> stdout_ring" where
  "stdout_drain out count s =
     (if count < length out
      then case stdout_get s of
             None \<Rightarrow> (count, out, s)
           | Some (b, t) \<Rightarrow> stdout_drain (out[count := b]) (count + 1) t
      else (count, out, s))"
  by pat_completeness auto
termination by (relation "measure (\<lambda>(out, count, s). length out - count)") auto

declare stdout_drain.simps [simp del]

definition stdout_available :: "stdout_ring \<Rightarrow> nat" where
  "stdout_available s = ((ohead s + U64 - otail s) mod U64) AND (STDOUT_SIZE - 1)"

definition stdout_ok :: "stdout_ring \<Rightarrow> bool" where
  "stdout_ok s \<longleftrightarrow> ring_ok STDOUT_SIZE (obuf s) (ohead s) (otail s)"

definition stdout_contents :: "stdout_ring \<Rightarrow> bytes" where
  "stdout_contents s = ring_contents STDOUT_SIZE (obuf s) (ohead s) (otail s)"

lemma stdout_mask: "x AND 8191 = x mod STDOUT_SIZE" for x :: nat
  using and_mask_mod[of x 13] by simp

interpretation oq: byte_queue "STDOUT_SIZE - 1" stdout_ok stdout_contents stdout_put stdout_get stdout_drain
proof
  fix s :: stdout_ring and b :: u8 and bs :: bytes
  assume ok: "stdout_ok s"
  note r = ok[unfolded stdout_ok_def]
  show "length (stdout_contents s) \<le> STDOUT_SIZE - 1"
    using ring_contents_less[OF r] by (simp add: stdout_contents_def)
  show "stdout_put s b = (False, s)" if "length (stdout_contents s) = STDOUT_SIZE - 1"
    using that ring_full_iff[OF r] by (simp add: stdout_put_def stdout_mask stdout_contents_def Let_def)
  show "\<exists>t. stdout_put s b = (True, t) \<and> stdout_ok t \<and> stdout_contents t = stdout_contents s @ [b]"
    if "length (stdout_contents s) < STDOUT_SIZE - 1"
  proof -
    have "(ohead s + 1) mod STDOUT_SIZE \<noteq> otail s" using that ring_full_iff[OF r] by (simp add: stdout_contents_def)
    from ring_push[OF r this, of b] this show ?thesis
      by (simp add: stdout_put_def stdout_mask stdout_ok_def stdout_contents_def Let_def)
  qed
  show "stdout_get s = None" if "stdout_contents s = []"
    using that ring_empty_iff[OF r] by (simp add: stdout_get_def stdout_contents_def)
  show "\<exists>t. stdout_get s = Some (b, t) \<and> stdout_ok t \<and> stdout_contents t = bs" if "stdout_contents s = b # bs"
  proof -
    have "otail s \<noteq> ohead s" using that ring_empty_iff[OF r] by (auto simp: stdout_contents_def)
    from ring_pop[OF r this] this that show ?thesis
      by (simp add: stdout_get_def stdout_mask stdout_ok_def stdout_contents_def)
  qed
next
  show "stdout_drain out count s = (if count < length out then case stdout_get s of None \<Rightarrow> (count, out, s)
      | Some (b, t) \<Rightarrow> stdout_drain (out[count := b]) (count + 1) t else (count, out, s))" for out count s
    by (rule stdout_drain.simps)
qed

interpretation os: byte_stream "STDOUT_SIZE - 1" stdout_ok stdout_contents stdout_put stdout_get stdout_drain stdout_store
  by unfold_locales simp_all

section \<open>What the two rings promise\<close>

lemma stdin_new_ok: "stdin_ok stdin_new" "stdin_contents stdin_new = []"
  by (simp_all add: stdin_ok_def stdin_new_def ring_ok_def stdin_contents_def ring_contents_def)

lemma stdout_new_ok: "stdout_ok stdout_new" "stdout_contents stdout_new = []"
  by (simp_all add: stdout_ok_def stdout_new_def ring_ok_def stdout_contents_def ring_contents_def)

lemma stdout_push_keeps:
  assumes "stdout_ok s"
  shows "stdout_ok (stdout_push data s)"
    and "stdout_contents (stdout_push data s) = stdout_contents s @
           (if enabled s then take (STDOUT_SIZE - 1 - length (stdout_contents s)) data else [])"
  using os.feed_appends[OF assms, of data] assms by (auto simp: stdout_push_def)

lemma stdin_read_takes:
  assumes "stdin_ok s"
  shows "\<exists>t. stdin_read buf 0 s = (min (length buf) (length (stdin_contents s)),
       take (min (length buf) (length (stdin_contents s))) (stdin_contents s) @
         drop (min (length buf) (length (stdin_contents s))) buf, t) \<and> stdin_ok t \<and>
     stdin_contents t = drop (min (length buf) (length (stdin_contents s))) (stdin_contents s)"
  using iq.fill_drains[OF assms, of 0 buf] by simp

end
