(* ===== verification/Spec2Isabelle.thy ===== *)
theory Spec2Isabelle
  imports Helix_Life Kernel_Pipe Kernel_Stdio
begin

text \<open>
  A model of two parts of MorpheusX: HelixFS, its log-structured file system, with the block
  devices it runs on, and the wait, wake and pipe machinery of the kernel. The two parts share
  the prelude and do not call each other.

  \<^bold>\<open>The file system.\<close> A volume is a partition of 4 KiB blocks: two superblocks, a ring of 1 MiB
  log segments, space for a bitmap, and data blocks. Every change of the name space is a
  record appended to the log; file contents of at most 96 bytes travel inside the record and
  the index entry, larger ones live in data blocks, as one run or as runs listed in an extent
  node. In memory the volume has the log engine (with the head segment as a write buffer), the
  index (a sorted vector of entries), and the block bitmap. A mount picks the better
  superblock, reloads the head segment, loads the checkpointed index region, replays the later
  records and rebuilds the bitmap; a full ring triggers a checkpoint.

  \<^bold>\<open>The kernel part.\<close> A thread parks by entering a waiter set and changing its state under the
  lock of the process table; it is woken by address (futex), by readiness token, by pipe, or
  by the deadline sweep of the tick. A pollable object carries a mask in a table of slots. A
  pipe is a ring of 4096 bytes with reference counts; each call publishes its level on the
  pipe's token once the lock of the pipes is released.

  \<^bold>\<open>Theories and sources.\<close>
  \<^item> \<^verbatim>\<open>Prelude\<close>: machine words, results with \<open>Ok\<close>, \<open>Err\<close>, \<open>Panic\<close> and \<open>Diverges\<close>, slices,
    little-endian encoding.
  \<^item> \<^verbatim>\<open>Block_Device\<close> (\<^verbatim>\<open>morpheus-block-types/src/lib.rs\<close>): the memory device and the
    function-pointer bridge; the locale \<open>block_device\<close> is the contract of a device.
  \<^item> \<^verbatim>\<open>Helix_Error\<close>, \<^verbatim>\<open>Helix_Crc\<close>, \<^verbatim>\<open>Helix_Bitmap\<close>, \<^verbatim>\<open>Helix_Types\<close> (\<^verbatim>\<open>helix/src/error.rs\<close>, \<^verbatim>\<open>crc.rs\<close>,
    \<^verbatim>\<open>bitmap.rs\<close>, \<^verbatim>\<open>types.rs\<close>, \<^verbatim>\<open>log/segment.rs\<close>): errors, checksums, the allocator (contract
    \<open>block_allocator\<close>), the on-disk layouts.
  \<^item> \<^verbatim>\<open>Helix_Index\<close> (\<^verbatim>\<open>index/btree.rs\<close>): the name space; contract \<open>namespace\<close>.
  \<^item> \<^verbatim>\<open>Helix_Io\<close>: the calls to the device; the locale \<open>partition\<close> views a device as a map from
    block numbers to blocks, and every lemma on device state is proved in it and used at the
    memory device through the interpretation \<open>mempart\<close>.
  \<^item> \<^verbatim>\<open>Helix_Log\<close> (\<^verbatim>\<open>log/mod.rs\<close>): the segment ring.
  \<^item> \<^verbatim>\<open>Helix_Recovery\<close>, \<^verbatim>\<open>Helix_Extent\<close>, \<^verbatim>\<open>Helix_Checkpoint\<close>, \<^verbatim>\<open>Helix_Format\<close>
    (\<^verbatim>\<open>log/recovery.rs\<close>, \<^verbatim>\<open>extent.rs\<close>, \<^verbatim>\<open>checkpoint.rs\<close>, \<^verbatim>\<open>format.rs\<close>).
  \<^item> \<^verbatim>\<open>Helix_Ops\<close> (\<^verbatim>\<open>ops/write.rs\<close>, \<^verbatim>\<open>ops/dir.rs\<close>, \<^verbatim>\<open>ops/read.rs\<close>) and \<^verbatim>\<open>Helix_Engine\<close>
    (\<^verbatim>\<open>engine.rs\<close>): the operations of a mounted volume.
  \<^item> \<^verbatim>\<open>Helix_Volume\<close>, \<^verbatim>\<open>Helix_Files\<close>, \<^verbatim>\<open>Helix_Calls\<close>, \<^verbatim>\<open>Helix_Durability\<close>, \<^verbatim>\<open>Helix_Life\<close>: no further
    code, but the invariant of a mounted volume and what it gives (below).
  \<^item> \<^verbatim>\<open>Kernel_Process\<close> (\<^verbatim>\<open>morpheus-kernel/src/process/mod.rs\<close>, \<^verbatim>\<open>schedular/state.rs\<close>, \<^verbatim>\<open>wait.rs\<close>,
    \<^verbatim>\<open>wake.rs\<close>, \<^verbatim>\<open>tick.rs\<close>, \<^verbatim>\<open>lifecycle.rs\<close>, \<^verbatim>\<open>syscall/handler/sync.rs\<close>): identifier sets, parking,
    wake-ups, the deadline sweep.
  \<^item> \<^verbatim>\<open>Kernel_Readiness\<close> (\<^verbatim>\<open>io/readiness.rs\<close>): tokens, slots, masks and \<open>wait_ready\<close>.
  \<^item> \<^verbatim>\<open>Kernel_Ring\<close>: the arithmetic of rings and the contracts \<open>byte_queue\<close> and \<open>byte_stream\<close>.
  \<^item> \<^verbatim>\<open>Kernel_Pipe\<close> (\<^verbatim>\<open>pipe.rs\<close>, and the pipe paths of \<^verbatim>\<open>syscall/handler/core.rs\<close> and \<^verbatim>\<open>ipc.rs\<close>) and
    \<^verbatim>\<open>Kernel_Stdio\<close> (\<^verbatim>\<open>stdin.rs\<close>, \<^verbatim>\<open>stdout.rs\<close>): the three rings, as instances of those contracts.

  \<^bold>\<open>What the lemmas show.\<close>
  \<^item> Codecs, checksums, bitmap, index, log, region and superblocks: round trips, refinement to
    maps, sets and lists, first fit, termination and safety of scans on arbitrary bytes.
  \<^item> \<^verbatim>\<open>Helix_Volume\<close> and \<^verbatim>\<open>Helix_Files\<close>: the invariant \<open>vol_ok\<close> relates index, bitmap, log and device
    blocks, and every operation of \<^verbatim>\<open>Helix_Ops\<close> keeps it; \<^verbatim>\<open>Helix_Calls\<close> has the resulting
    read-after-write, isolation, unlink and rename properties.
  \<^item> \<^verbatim>\<open>Helix_Durability\<close> and \<^verbatim>\<open>Helix_Life\<close>: sync, checkpoint and mount; the relation \<open>fs_step\<close> runs any
    sequence of calls, syncs, checkpoints and remounts, and the view survives all of them.
  \<^item> \<^verbatim>\<open>Kernel_Process\<close>: \<open>timers_ok\<close> (the count and the earliest deadline are accurate) and \<open>futex_ok\<close>
    (a parked thread is in its waiter set) are kept by every operation, which gives the
    exactness of wakes and that the sweep misses nothing.
  \<^item> \<^verbatim>\<open>Kernel_Readiness\<close>: the relation \<open>ready_step\<close> interleaves the cores at their locks and atomics,
    and no wake-up is lost. \<^verbatim>\<open>Kernel_Pipe\<close>: pipes are first-in first-out, a call on its own
    publishes the right level, and three schedules where a pipe's mask or waiter set goes wrong.

  \<^bold>\<open>Conventions.\<close> Fields of the on-disk structures are words of their width, and arithmetic on
  them wraps as in a release build. In-memory counters and indices are natural numbers, with
  the reduction modulo the range of the Rust type written out where it can matter. An index
  out of range and a division by zero are \<open>Panic\<close>. A loop that need not end is a partial
  function into \<open>option\<close>, and its caller returns \<open>Diverges\<close>; no fuel is used. A mutating
  operation maps a pair of device and state to a result and the next pair, so what an error
  leaves behind is visible. In the kernel part a definition is the section that runs under one
  lock, and the ghost fields of a step relation are the program counters between sections;
  atomics are sequentially consistent.

  \<^bold>\<open>Not modelled.\<close> Snapshot pins across a remount and the descriptor tables of the file system.
  In the kernel the choice of the next process, context switches, process creation and
  reaping, the system-call dispatch, and epoll and sockets above the readiness table, which
  are built on raw user pointers and global state; the release of a readiness slot while it is
  in use. The self-contained data structures that remain (the table of memory mappings and
  the calls on it, signal sets, the handle slab of the storage layer, the ELF loader, the heap
  of the user library, the URL, HTTP, GPT, FAT32 and ISO 9660 parsers) could be modelled in the
  same style and are not yet. Drivers, page tables, the boot loader and the interface go
  through assembly, memory-mapped registers and firmware; the network stack is built around a
  package whose sources are elsewhere.
\<close>

end
